(* ===== verification/Prelude.thy ===== *)
theory Prelude
  imports Main "HOL-Library.Word" "HOL-Library.FSet"
begin

text \<open>
  Shared vocabulary of the development: the machine integers of the Rust code, the two kinds
  of failure it has (a panic, which ends the replica's thread, and an \<open>anyhow::Error\<close>, which
  is a value), checked arithmetic in both cargo profiles, the sequencing of handlers that
  \<^verbatim>\<open>process_message\<close> and \<^verbatim>\<open>handle_event\<close> perform, and the generic lemmas on finite sets and
  words that the components share.
\<close>

section \<open>Machine integers\<close>

type_synonym u8 = "8 word"
type_synonym u64 = "64 word"
type_synonym usize = "64 word"

section \<open>Panics and error values\<close>

datatype panic =
    ArithmeticOverflow
  | ExpectFailed string

type_synonym 'a outcome = "panic + 'a"

datatype error =
    NoEntryAt u64
  | BincodeEncode string
  | BincodeDecode string
  | RocksDb string
  | OpenFailed string

type_synonym 'a result = "error + 'a"

definition bind_outcome :: "'a outcome \<Rightarrow> ('a \<Rightarrow> 'b outcome) \<Rightarrow> 'b outcome" where
  "bind_outcome x k = (case x of Inl e \<Rightarrow> Inl e | Inr v \<Rightarrow> k v)"

lemma bind_outcome_simps [simp]:
  "bind_outcome (Inl e) k = Inl e"
  "bind_outcome (Inr v) k = k v"
  by (simp_all add: bind_outcome_def)

lemma bind_outcome_Inr_iff:
  "bind_outcome x k = Inr w \<longleftrightarrow> (\<exists>v. x = Inr v \<and> k v = Inr w)"
  by (cases x) simp_all

lemma bind_outcome_cong [fundef_cong]:
  "x = y \<Longrightarrow> (\<And>v. y = Inr v \<Longrightarrow> k v = l v) \<Longrightarrow> bind_outcome x k = bind_outcome y l"
  by (cases y) simp_all

text \<open>\<open>Result::expect\<close> and \<open>Result::unwrap_or\<close>.\<close>

definition expect :: "string \<Rightarrow> 'a result \<Rightarrow> 'a outcome" where
  "expect msg x = (case x of Inl e \<Rightarrow> Inl (ExpectFailed msg) | Inr v \<Rightarrow> Inr v)"

definition unwrap_or :: "'a \<Rightarrow> 'a result \<Rightarrow> 'a" where
  "unwrap_or d x = (case x of Inl e \<Rightarrow> d | Inr v \<Rightarrow> v)"

lemma expect_simps [simp]:
  "expect msg (Inl e) = Inl (ExpectFailed msg)"
  "expect msg (Inr v) = Inr v"
  by (simp_all add: expect_def)

lemma expect_Inr_iff: "expect msg x = Inr v \<longleftrightarrow> x = Inr v"
  by (cases x) simp_all

lemma unwrap_or_simps [simp]:
  "unwrap_or d (Inl e) = d"
  "unwrap_or d (Inr v) = v"
  by (simp_all add: unwrap_or_def)

section \<open>Arithmetic on 64-bit integers\<close>

text \<open>
  \<open>a + b\<close> and \<open>a - b\<close> on \<open>u64\<close> and \<open>usize\<close>. With overflow checks (cargo's dev and test
  profiles) an operation out of range panics; without them (the release profile) it wraps.
\<close>

definition add_u64 :: "bool \<Rightarrow> u64 \<Rightarrow> u64 \<Rightarrow> u64 outcome" where
  "add_u64 chk a b =
     (if chk \<and> 2 ^ 64 \<le> unat a + unat b then Inl ArithmeticOverflow else Inr (a + b))"

definition sub_u64 :: "bool \<Rightarrow> u64 \<Rightarrow> u64 \<Rightarrow> u64 outcome" where
  "sub_u64 chk a b = (if chk \<and> a < b then Inl ArithmeticOverflow else Inr (a - b))"

lemma unat_eq_iff [simp]: "unat a = unat b \<longleftrightarrow> a = (b :: 'a::len word)"
  by (metis word_unat_eq_iff)

lemma unat_u64_less: "unat (a :: u64) < 2 ^ 64"
  using unsigned_less [of a, where 'a = nat] by simp

lemma unat_u64_max: "unat (- 1 :: u64) = 2 ^ 64 - 1"
  by (simp add: unsigned_minus_1_eq_mask mask_eq_exp_minus_1)

lemma u64_max_iff: "unat (a :: u64) = 2 ^ 64 - 1 \<longleftrightarrow> a = - 1"
  using unat_u64_max by (metis word_unat_eq_iff)

lemma u64_overflow_iff: "2 ^ 64 \<le> unat (a :: u64) + 1 \<longleftrightarrow> a = - 1"
  using unat_u64_less [of a] u64_max_iff [of a] by arith

text \<open>The same test on the wrapped sum, which evaluates without unary numbers.\<close>

lemma add_u64_code [code]:
  "add_u64 chk a b = (if chk \<and> a + b < a then Inl ArithmeticOverflow else Inr (a + b))"
proof -
  have "2 ^ 64 \<le> unat a + unat b \<longleftrightarrow> a + b < a"
    using unat_u64_less [of b] by (auto simp: word_less_nat_alt unat_plus_if')
  then show ?thesis by (simp add: add_u64_def)
qed

lemma add_u64_one_eq:
  "add_u64 chk a 1 = (if chk \<and> a = - 1 then Inl ArithmeticOverflow else Inr (a + 1))"
  using u64_overflow_iff [of a] by (simp add: add_u64_def)

lemma add_u64_one_overflow:
  "add_u64 chk a 1 = Inl e \<longleftrightarrow> chk \<and> a = - 1 \<and> e = ArithmeticOverflow"
  by (auto simp: add_u64_one_eq)

lemma add_u64_Inr: "add_u64 chk a b = Inr c \<Longrightarrow> c = a + b"
  by (auto simp: add_u64_def split: if_splits)

lemma unat_succ_u64: "a \<noteq> - 1 \<Longrightarrow> unat (a + 1 :: u64) = Suc (unat a)"
  using unatSuc [of a] by (simp add: add.commute eq_neg_iff_add_eq_0)

lemma add_u64_one_checked:
  "add_u64 True a 1 = Inr c \<longleftrightarrow> a \<noteq> - 1 \<and> c = a + 1"
  by (auto simp: add_u64_one_eq)

lemma add_u64_one_ok: "a \<noteq> - 1 \<Longrightarrow> add_u64 chk a 1 = Inr (a + 1)"
  by (simp add: add_u64_one_eq)

lemma set_range_u64: "set (map of_nat [0..<unat n]) = {k :: u64. k < n}"
proof (intro set_eqI iffI)
  fix k :: u64 assume "k \<in> set (map of_nat [0..<unat n])"
  then obtain j where "j < unat n" and "k = of_nat j" by auto
  then show "k \<in> {k. k < n}"
    using unat_u64_less [of n] by (simp add: word_less_nat_alt unat_of_nat)
next
  fix k :: u64 assume "k \<in> {k. k < n}"
  then have "unat k < unat n" by (simp add: word_less_nat_alt)
  moreover have "k = of_nat (unat k)" by simp
  ultimately show "k \<in> set (map of_nat [0..<unat n])" by (auto intro!: image_eqI)
qed

lemma less_not_max_u64: "(k :: u64) < n \<Longrightarrow> k \<noteq> - 1"
  using unat_u64_max unat_u64_less [of n] by (auto simp: word_less_nat_alt)

lemma card_less_u64: "card {k :: u64. k < n} = unat n"
proof -
  have "unat ` {k :: u64. k < n} = {..<unat n}"
  proof (intro equalityI subsetI)
    fix x assume "x \<in> {..<unat n}"
    then have "unat (of_nat x :: u64) = x"
      using unat_u64_less [of n] by (simp add: unat_of_nat)
    with \<open>x \<in> {..<unat n}\<close> show "x \<in> unat ` {k :: u64. k < n}"
      by (intro image_eqI [of _ _ "of_nat x"]) (auto simp: word_less_nat_alt)
  qed (auto simp: word_less_nat_alt)
  moreover have "inj_on unat {k :: u64. k < n}" by (simp add: inj_on_def)
  ultimately show ?thesis using card_image by fastforce
qed

lemma less_succ_u64: "a \<noteq> - 1 \<Longrightarrow> (k :: u64) < a + 1 \<longleftrightarrow> k \<le> a"
  by (simp add: word_less_nat_alt word_le_nat_alt unat_succ_u64 less_Suc_eq_le)

section \<open>Finite message sets\<close>

text \<open>
  \<open>HashSet\<close> is modelled by finite sets. \<open>iter().filter(p).count()\<close> is the number of elements
  that satisfy \<open>p\<close>.
\<close>

definition count_matching :: "('a \<Rightarrow> bool) \<Rightarrow> 'a fset \<Rightarrow> nat" where
  "count_matching p S = fcard (ffilter p S)"

lemma ffilter_finsert [simp]:
  "ffilter p (finsert x S) = (if p x then finsert x (ffilter p S) else ffilter p S)"
  by (auto simp: fset_eq_iff)

lemma ffilter_fempty [simp]: "ffilter p {||} = {||}"
  by auto

lemma count_matching_empty [simp]: "count_matching p {||} = 0"
  by (simp add: count_matching_def)

lemma count_matching_finsert:
  "count_matching p (finsert x S) =
     (if p x \<and> x |\<notin>| S then Suc (count_matching p S) else count_matching p S)"
  by (auto simp: count_matching_def fcard_finsert_if)

lemma count_matching_card: "count_matching p S = card {x \<in> fset S. p x}"
proof -
  have "fset (ffilter p S) = {x \<in> fset S. p x}" by auto
  then show ?thesis by (simp add: count_matching_def fcard.rep_eq)
qed

lemma count_matching_mono:
  "S |\<subseteq>| T \<Longrightarrow> (\<And>x. x |\<in>| S \<Longrightarrow> p x \<Longrightarrow> q x) \<Longrightarrow> count_matching p S \<le> count_matching q T"
  unfolding count_matching_card by (rule card_mono) auto

text \<open>A pattern satisfied by \<open>n\<close> different messages of a set counts at least \<open>n\<close> of it.\<close>

lemma count_matching_range:
  assumes "inj f" and "\<And>e :: u64. e < n \<Longrightarrow> f e |\<in>| S \<and> p (f e)"
  shows "unat n \<le> count_matching p S"
proof -
  have "card (f ` {e. e < n}) \<le> count_matching p S"
    unfolding count_matching_card by (rule card_mono) (use assms(2) in auto)
  then show ?thesis using assms(1) by (simp add: card_image inj_on_subset card_less_u64)
qed

section \<open>Sequencing handlers\<close>

text \<open>
  \<open>run_steps\<close> is the shape of \<open>process_message\<close> and \<open>handle_event\<close>: each step sees the state
  the steps before it left, its effects are appended (\<open>effects.extend(..)\<close>), and a panic in a
  step ends the run: the effects collected so far are dropped with the unwinding stack.
\<close>

fun run_steps :: "('s \<Rightarrow> ('s \<times> 'e list) outcome) list \<Rightarrow> 's \<Rightarrow> ('s \<times> 'e list) outcome" where
  "run_steps [] s = Inr (s, [])"
| "run_steps (f # fs) s =
     bind_outcome (f s) (\<lambda>(s1, es1).
       bind_outcome (run_steps fs s1) (\<lambda>(s2, es2). Inr (s2, es1 @ es2)))"

text \<open>A guard \<open>if let Some(x) = guard { handle(x) }\<close> that does nothing when it fails.\<close>

definition when_some :: "'a option \<Rightarrow> ('a \<Rightarrow> ('s \<times> 'e list) outcome) \<Rightarrow> 's \<Rightarrow> ('s \<times> 'e list) outcome" where
  "when_some g h s = (case g of None \<Rightarrow> Inr (s, []) | Some x \<Rightarrow> h x)"

lemma when_some_simps [simp]:
  "when_some None h s = Inr (s, [])"
  "when_some (Some x) h s = h x"
  by (simp_all add: when_some_def)

lemma when_some_Inr_cases:
  assumes "when_some g h s = Inr w"
  obtains "g = None" "w = (s, [])" | x where "g = Some x" "h x = Inr w"
  using assms by (cases g) auto

lemma run_steps_append:
  "run_steps (fs @ gs) s =
     bind_outcome (run_steps fs s) (\<lambda>(s1, es1).
       bind_outcome (run_steps gs s1) (\<lambda>(s2, es2). Inr (s2, es1 @ es2)))"
  by (induction fs arbitrary: s)
     (auto simp: bind_outcome_def split: sum.splits prod.splits)

text \<open>
  The contract of a list of steps: a relation \<open>R\<close> between the state before and the state and
  effects after, reflexive without effects and closed under sequencing. What every step
  satisfies, the run satisfies. Invariants, monotone fields and facts on the emitted effects
  are all instances.
\<close>

locale step_contract =
  fixes R :: "'s \<Rightarrow> 's \<Rightarrow> 'e list \<Rightarrow> bool"
    and steps :: "('s \<Rightarrow> ('s \<times> 'e list) outcome) list"
  assumes idle: "R s s []"
    and sequel: "R s t es \<Longrightarrow> R t u fs \<Longrightarrow> R s u (es @ fs)"
    and each: "f \<in> set steps \<Longrightarrow> f s = Inr (t, es) \<Longrightarrow> R s t es"
begin

lemma run_sublist: "set fs \<subseteq> set steps \<Longrightarrow> run_steps fs s = Inr (t, es) \<Longrightarrow> R s t es"
proof (induction fs arbitrary: s t es)
  case Nil
  then show ?case using idle by simp
next
  case (Cons f fs)
  from Cons.prems(2) obtain s1 es1 es2
    where f: "f s = Inr (s1, es1)" and rest: "run_steps fs s1 = Inr (t, es2)"
      and es: "es = es1 @ es2"
    by (auto simp: bind_outcome_Inr_iff)
  have "f \<in> set steps" using Cons.prems(1) by simp
  then have "R s s1 es1" using f by (rule each)
  moreover have "R s1 t es2" using Cons.IH [OF _ rest] Cons.prems(1) by simp
  ultimately show ?case unfolding es by (rule sequel)
qed

lemma run_ok: "run_steps steps s = Inr (t, es) \<Longrightarrow> R s t es"
  by (rule run_sublist [OF subset_refl])

end

end
