(* ===== verification/Raspen_Types.thy ===== *)
theory Raspen_Types
  imports Prelude "HOL-Library.List_Lexorder" "HOL-Library.Char_ord"
begin

text \<open>
  The crate \<^verbatim>\<open>raspen-types\<close>: digests, messages, phases, timer events, effects, log entries and
  the protocol configuration, with the services the code takes from other crates (SHA-256,
  bincode) and from its build and runtime (overflow checks, the iteration order of a
  \<open>HashSet\<close>) collected in one record \<open>env\<close>.
\<close>

section \<open>Digests\<close>

text \<open>\<open>type Hash = [u8; 32]\<close>: byte arrays of length exactly 32.\<close>

typedef hash = "{bs :: u8 list. length bs = 32}"
  morphisms hash_bytes Hash_of
  by (rule exI [of _ "replicate 32 0"]) simp

setup_lifting type_definition_hash

definition hash_fill :: "u8 \<Rightarrow> hash" where
  "hash_fill b = Hash_of (replicate 32 b)"

lemma hash_bytes_fill [simp, code abstract]: "hash_bytes (hash_fill b) = replicate 32 b"
  by (simp add: hash_fill_def Hash_of_inverse)

abbreviation zero_hash :: hash where
  "zero_hash \<equiv> hash_fill 0"

lemma length_hash_bytes [simp]: "length (hash_bytes h) = 32"
  using hash_bytes [of h] by simp

lemma hash_fill_inject [simp]: "hash_fill a = hash_fill b \<longleftrightarrow> a = b"
  by (metis hash_bytes_fill hd_replicate zero_neq_numeral)

instantiation hash :: equal
begin

definition equal_hash :: "hash \<Rightarrow> hash \<Rightarrow> bool" where
  "equal_hash a b = (hash_bytes a = hash_bytes b)"

instance
  by standard (simp add: equal_hash_def hash_bytes_inject)

end

instantiation hash :: linorder
begin

definition less_eq_hash :: "hash \<Rightarrow> hash \<Rightarrow> bool" where
  "less_eq_hash a b = (hash_bytes a \<le> hash_bytes b)"

definition less_hash :: "hash \<Rightarrow> hash \<Rightarrow> bool" where
  "less_hash a b = (hash_bytes a < hash_bytes b)"

instance
  by standard
     (auto simp: less_eq_hash_def less_hash_def hash_bytes_inject intro: le_neq_trans)

end

section \<open>Messages, phases, events, effects\<close>

type_synonym node_id = string
type_synonym eta = u64

datatype (discs_sels) message =
    Speculate node_id u64 hash eta
      \<comment> \<open>\<open>from_seq\<close>, \<open>round\<close>, \<open>op_hash\<close>, \<open>eta\<close>\<close>
  | SpecReply node_id u64 u64 hash
      \<comment> \<open>\<open>from\<close>, \<open>round\<close>, \<open>log_idx\<close>, \<open>log_hash\<close>\<close>
  | Sync node_id u64 u64 hash u64
      \<comment> \<open>\<open>from\<close>, \<open>round\<close>, \<open>log_idx\<close>, \<open>log_hash\<close>, \<open>eta_star\<close>\<close>
  | Checkpoint node_id u64 u64 hash
      \<comment> \<open>\<open>from\<close>, \<open>round\<close>, \<open>log_idx\<close>, \<open>log_hash\<close>\<close>
  | StateRequest node_id u64
      \<comment> \<open>\<open>from\<close>, \<open>chkpt_idx\<close>\<close>
  | StateReply node_id u64 hash
      \<comment> \<open>\<open>from\<close>, \<open>chkpt_idx\<close>, \<open>chkpt_hash\<close>\<close>
  | TimeoutMsg node_id u64 u64
      \<comment> \<open>\<open>from\<close>, \<open>round\<close>, \<open>log_idx\<close>\<close>
  | TimeoutProof u64 u64
      \<comment> \<open>\<open>round\<close>, \<open>log_idx\<close>\<close>
  | ConflictProof u64 u64
      \<comment> \<open>\<open>round\<close>, \<open>log_idx\<close>\<close>
  | LogMsg node_id u64 u64 hash
      \<comment> \<open>\<open>from\<close>, \<open>view\<close>, \<open>round\<close>, \<open>log_hash\<close>\<close>
  | RepairHistory node_id u64 u64 u64
      \<comment> \<open>\<open>from\<close>, \<open>view\<close>, \<open>round\<close>, \<open>history_hash\<close>; so for the next three\<close>
  | RepairPrepare node_id u64 u64 u64
  | RepairCommit node_id u64 u64 u64
  | RepairDone node_id u64 u64 u64
  | CommittedReply node_id u64 u64
      \<comment> \<open>\<open>from\<close>, \<open>round\<close>, \<open>log_idx\<close>\<close>

text \<open>The sender a message names, where it names one.\<close>

fun sender_of :: "message \<Rightarrow> node_id option" where
  "sender_of (Speculate s r h e) = Some s"
| "sender_of (SpecReply s r k h) = Some s"
| "sender_of (Sync s r k h e) = Some s"
| "sender_of (Checkpoint s r k h) = Some s"
| "sender_of (StateRequest s k) = Some s"
| "sender_of (StateReply s k h) = Some s"
| "sender_of (TimeoutMsg s r k) = Some s"
| "sender_of (TimeoutProof r k) = None"
| "sender_of (ConflictProof r k) = None"
| "sender_of (LogMsg s v r h) = Some s"
| "sender_of (RepairHistory s v r h) = Some s"
| "sender_of (RepairPrepare s v r h) = Some s"
| "sender_of (RepairCommit s v r h) = Some s"
| "sender_of (RepairDone s v r h) = Some s"
| "sender_of (CommittedReply s r k) = Some s"

datatype phase = Speculative | Aligning | CollectingLogs | PreparePhase | CommitPhase

datatype event = SyncTimeout | ChkptTimeout u64 | RepairViewTimeout

datatype effect = Broadcast message | Send node_id message

fun effect_message :: "effect \<Rightarrow> message" where
  "effect_message (Broadcast m) = m"
| "effect_message (Send to m) = m"

record kv_entry =
  op_hash :: u64
  entry_result :: "u8 list"
  prev_hash :: hash

section \<open>A linear order on messages\<close>

text \<open>
  A message is determined by its constructor, its integers and digests and then its sender,
  written as one list of numbers. The order it induces makes the sorted listing of a finite
  message set available, which is one iteration order a \<open>HashSet\<close> may have.
\<close>

fun msg_key :: "message \<Rightarrow> nat list" where
  "msg_key (Speculate s r h e) = 0 # unat r # unat e # map unat (hash_bytes h) @ map of_char s"
| "msg_key (SpecReply s r k h) = 1 # unat r # unat k # map unat (hash_bytes h) @ map of_char s"
| "msg_key (Sync s r k h e) =
     2 # unat r # unat k # unat e # map unat (hash_bytes h) @ map of_char s"
| "msg_key (Checkpoint s r k h) = 3 # unat r # unat k # map unat (hash_bytes h) @ map of_char s"
| "msg_key (StateRequest s k) = 4 # unat k # map of_char s"
| "msg_key (StateReply s k h) = 5 # unat k # map unat (hash_bytes h) @ map of_char s"
| "msg_key (TimeoutMsg s r k) = 6 # unat r # unat k # map of_char s"
| "msg_key (TimeoutProof r k) = [7, unat r, unat k]"
| "msg_key (ConflictProof r k) = [8, unat r, unat k]"
| "msg_key (LogMsg s v r h) = 9 # unat v # unat r # map unat (hash_bytes h) @ map of_char s"
| "msg_key (RepairHistory s v r h) = 10 # unat v # unat r # unat h # map of_char s"
| "msg_key (RepairPrepare s v r h) = 11 # unat v # unat r # unat h # map of_char s"
| "msg_key (RepairCommit s v r h) = 12 # unat v # unat r # unat h # map of_char s"
| "msg_key (RepairDone s v r h) = 13 # unat v # unat r # unat h # map of_char s"
| "msg_key (CommittedReply s r k) = 14 # unat r # unat k # map of_char s"

lemma map_unat_eq [simp]: "map unat xs = map unat ys \<longleftrightarrow> xs = (ys :: 'a::len word list)"
  by (rule inj_map_eq_map) (simp add: inj_def)

lemma map_of_char_eq [simp]: "(map of_char s :: nat list) = map of_char t \<longleftrightarrow> s = t"
  by (rule inj_map_eq_map) (simp add: inj_def)

lemma msg_key_inject: "msg_key a = msg_key b \<longleftrightarrow> a = b"
  by (cases a; cases b) (auto simp: hash_bytes_inject)

instantiation message :: linorder
begin

definition less_eq_message :: "message \<Rightarrow> message \<Rightarrow> bool" where
  "less_eq_message a b = (msg_key a \<le> msg_key b)"

definition less_message :: "message \<Rightarrow> message \<Rightarrow> bool" where
  "less_message a b = (msg_key a < msg_key b)"

instance
  by standard
     (auto simp: less_eq_message_def less_message_def msg_key_inject intro: le_neq_trans)

end

section \<open>Services\<close>

text \<open>
  What the code calls but this repository does not define: \<open>bincode::encode_to_vec\<close> on a log
  entry and \<open>Sha256::digest\<close>; whether the build checks overflow; and the order in which
  \<open>HashSet::iter\<close> visits a set, which Rust leaves open. They are arguments of the model. What
  the code relies on of them is stated by the predicates below and named where it is used.
\<close>

record env =
  overflow_checks :: bool
  bincode_encode :: "kv_entry \<Rightarrow> string + u8 list"
  sha256 :: "u8 list \<Rightarrow> hash"
  iter_msgs :: "message fset \<Rightarrow> message list"

definition encode_total :: "env \<Rightarrow> bool" where
  "encode_total E \<longleftrightarrow> (\<forall>e. \<exists>bs. bincode_encode E e = Inr bs)"

definition iter_ok :: "env \<Rightarrow> bool" where
  "iter_ok E \<longleftrightarrow> (\<forall>S. fset_of_list (iter_msgs E S) = S \<and> distinct (iter_msgs E S))"

text \<open>An environment that satisfies both, for concrete runs: a byte-level encoding of the
  entry, a toy digest and the sorted iteration order.\<close>

definition demo_digest :: "u8 list \<Rightarrow> hash" where
  "demo_digest bs = hash_fill (foldr (\<lambda>b a. 7 * a + b + 1) bs 0)"

definition demo_env :: env where
  "demo_env = \<lparr>overflow_checks = True,
     bincode_encode = (\<lambda>e. Inr (ucast (op_hash e) # entry_result e @ hash_bytes (prev_hash e))),
     sha256 = demo_digest, iter_msgs = sorted_list_of_fset\<rparr>"

lemma demo_env_simps [simp]:
  "overflow_checks demo_env" "sha256 demo_env = demo_digest"
  "iter_msgs demo_env = sorted_list_of_fset"
  "bincode_encode demo_env e =
     Inr (ucast (op_hash e) # entry_result e @ hash_bytes (prev_hash e))"
  by (simp_all add: demo_env_def)

lemma distinct_sorted_list_of_fset [simp]: "distinct (sorted_list_of_fset S)"
  by (simp add: sorted_list_of_fset.rep_eq)

lemma demo_env_ok [simp]: "encode_total demo_env" "iter_ok demo_env"
  by (simp_all add: encode_total_def iter_ok_def)

section \<open>Configuration\<close>

text \<open>\<open>format!("r{}", i)\<close>.\<close>

fun show_nat :: "nat \<Rightarrow> string" where
  "show_nat n =
     (if n < 10 then [char_of (48 + n)] else show_nat (n div 10) @ [char_of (48 + n mod 10)])"

declare show_nat.simps [simp del]

definition node_name :: "nat \<Rightarrow> node_id" where
  "node_name i = ''r'' @ show_nat i"

record config =
  cfg_n :: usize
  cfg_f :: usize
  cfg_p :: usize
  fast_quorum :: usize
  byz_quorum :: usize
  f_plus_1 :: usize
  nodes_ordered :: "node_id list"

definition for_test :: "bool \<Rightarrow> usize \<Rightarrow> usize \<Rightarrow> usize \<Rightarrow> config outcome" where
  "for_test chk n f p =
     (let nodes = map node_name [0..<unat n]
      in bind_outcome (sub_u64 chk n p) (\<lambda>fq.
         bind_outcome (sub_u64 chk n f) (\<lambda>bq.
         bind_outcome (add_u64 chk f 1) (\<lambda>fp.
           Inr \<lparr>cfg_n = n, cfg_f = f, cfg_p = p, fast_quorum = fq, byz_quorum = bq,
                f_plus_1 = fp, nodes_ordered = nodes\<rparr>))))"

definition spec_default :: "bool \<Rightarrow> config outcome" where
  "spec_default chk = for_test chk 6 1 1"

definition default_config :: "bool \<Rightarrow> config outcome" where
  "default_config chk = spec_default chk"

text \<open>Node names are read back by dropping the \<open>r\<close> and reading the decimal digits.\<close>

definition read_nat :: "string \<Rightarrow> nat" where
  "read_nat s = foldl (\<lambda>a c. 10 * a + (of_char c - 48)) 0 s"

lemma read_nat_snoc [simp]: "read_nat (s @ [c]) = 10 * read_nat s + (of_char c - 48)"
  by (simp add: read_nat_def)

lemma read_show_nat: "read_nat (show_nat n) = n"
proof (induction n rule: show_nat.induct)
  case (1 n)
  have digit: "of_char (char_of (48 + d) :: char) - (48 :: nat) = d" if "d < 10" for d :: nat
    using that by simp
  show ?case
  proof (cases "n < 10")
    case True
    then show ?thesis using digit [OF True] by (simp add: show_nat.simps read_nat_def)
  next
    case False
    with 1 have "read_nat (show_nat (n div 10)) = n div 10" by simp
    with False show ?thesis using digit [of "n mod 10"] by (subst show_nat.simps) simp
  qed
qed

lemma node_name_inject [simp]: "node_name i = node_name j \<longleftrightarrow> i = j"
  unfolding node_name_def by (metis append_eq_append_conv read_show_nat)

lemma distinct_node_names: "distinct (map node_name xs) \<longleftrightarrow> distinct xs"
  by (simp add: distinct_map inj_on_def)

lemma for_test_ok:
  assumes "p \<le> n" and "f \<le> n" and "f \<noteq> - 1"
  shows "for_test chk n f p =
    Inr \<lparr>cfg_n = n, cfg_f = f, cfg_p = p, fast_quorum = n - p, byz_quorum = n - f,
         f_plus_1 = f + 1, nodes_ordered = map node_name [0..<unat n]\<rparr>"
  using assms by (simp add: for_test_def sub_u64_def add_u64_one_ok not_less)

lemma for_test_Inr:
  assumes "for_test chk n f p = Inr c"
  shows "c = \<lparr>cfg_n = n, cfg_f = f, cfg_p = p, fast_quorum = n - p, byz_quorum = n - f,
         f_plus_1 = f + 1, nodes_ordered = map node_name [0..<unat n]\<rparr>"
  using assms
  by (auto simp: for_test_def sub_u64_def bind_outcome_Inr_iff dest: add_u64_Inr split: if_splits)

lemma for_test_checked_panics:
  "for_test True n f p = Inl e \<longleftrightarrow> e = ArithmeticOverflow \<and> (n < p \<or> n < f \<or> f = - 1)"
proof (cases "f = - 1")
  case True
  then have "add_u64 True f 1 = Inl ArithmeticOverflow" by (simp add: add_u64_one_overflow)
  with True show ?thesis by (auto simp: for_test_def sub_u64_def)
next
  case False
  then show ?thesis by (auto simp: for_test_def sub_u64_def add_u64_one_ok)
qed

text \<open>The configuration of the specification: six replicas, one fault, one slow replica.\<close>

definition six_config :: config where
  "six_config = \<lparr>cfg_n = 6, cfg_f = 1, cfg_p = 1, fast_quorum = 5, byz_quorum = 5, f_plus_1 = 2,
     nodes_ordered = map node_name [0..<6]\<rparr>"

lemma spec_default_six: "spec_default chk = Inr six_config"
  by (simp add: spec_default_def for_test_ok six_config_def word_le_nat_alt)

section \<open>Properties\<close>

text \<open>C36: Thresholds. \<open>Config::for_test\<close> returns the thresholds \<open>n - p\<close>, \<open>n - f\<close> and \<open>f + 1\<close> and the
  names \<open>r0 \<dots> r(n-1)\<close>, all different, exactly when no subtraction underflows and \<open>f + 1\<close> does not
  overflow; in a build with overflow checks it panics otherwise.\<close>

theorem for_test_spec:
  "(\<exists>c. for_test True n f p = Inr c) = (p \<le> n \<and> f \<le> n \<and> f \<noteq> - 1) \<and>
   (\<forall>c. for_test True n f p = Inr c \<longrightarrow>
      unat (fast_quorum c) = unat n - unat p \<and> unat (byz_quorum c) = unat n - unat f \<and>
      unat (f_plus_1 c) = unat f + 1 \<and>
      nodes_ordered c = map node_name [0..<unat n] \<and> distinct (nodes_ordered c))"
proof (cases "p \<le> n \<and> f \<le> n \<and> f \<noteq> - 1")
  case True
  then show ?thesis
    by (simp add: for_test_ok unat_sub unat_succ_u64 distinct_node_names)
next
  case False
  then have "for_test True n f p = Inl ArithmeticOverflow"
    by (auto simp: for_test_checked_panics not_le)
  with False show ?thesis by auto
qed

lemma for_test_spec_witness:
  "\<exists>c. for_test True 6 1 1 = Inr c \<and> unat (byz_quorum c) = 5 \<and> distinct (nodes_ordered c)"
  using for_test_spec [of 6 1 1] by (auto simp: word_le_nat_alt)

end
