(* ===== verification/Kv_Store.thy ===== *)
theory Kv_Store
  imports Raspen_Types
begin

text \<open>
  The crate \<^verbatim>\<open>raspen-storage\<close>, in its default configuration: the in-memory log store
  \<open>MemKvStore\<close>. The trait \<open>KvStoreOps\<close> is the locale \<open>kv_store_ops\<close>: the laws a
  store promises, what follows from them for a log that occupies the indices below a bound, and
  its interpretation on \<open>MemKvStore\<close>. Store handles are shared by \<open>Arc\<close> in the code; a replica
  owns the only handle it uses, so the store is passed as a value.
\<close>

section \<open>BTreeMap\<close>

text \<open>An ordered map with \<open>u64\<close> keys: its entries in ascending key order.\<close>

type_synonym 'v btree = "(u64 \<times> 'v) list"

fun bt_insert :: "u64 \<Rightarrow> 'v \<Rightarrow> 'v btree \<Rightarrow> 'v btree" where
  "bt_insert k v [] = [(k, v)]"
| "bt_insert k v ((k', v') # m) =
     (if k < k' then (k, v) # (k', v') # m
      else if k = k' then (k, v) # m
      else (k', v') # bt_insert k v m)"

definition bt_get :: "'v btree \<Rightarrow> u64 \<Rightarrow> 'v option" where
  "bt_get m k = map_of m k"

text \<open>\<open>keys().next_back()\<close> and \<open>values().next_back()\<close>: the entry with the highest key.\<close>

definition bt_next_back :: "'v btree \<Rightarrow> (u64 \<times> 'v) option" where
  "bt_next_back m = (if m = [] then None else Some (last m))"

definition bt_ok :: "'v btree \<Rightarrow> bool" where
  "bt_ok m \<longleftrightarrow> sorted_wrt (<) (map fst m)"

lemma bt_ok_Nil [simp]: "bt_ok []"
  by (simp add: bt_ok_def)

lemma bt_get_Nil [simp]: "bt_get [] = Map.empty"
  by (rule ext) (simp add: bt_get_def)

lemma set_bt_insert: "fst ` set (bt_insert k v m) = insert k (fst ` set m)"
  by (induction k v m rule: bt_insert.induct) auto

lemma bt_ok_insert [simp]: "bt_ok m \<Longrightarrow> bt_ok (bt_insert k v m)"
  by (induction k v m rule: bt_insert.induct) (force simp: bt_ok_def set_bt_insert)+

lemma bt_get_insert: "bt_ok m \<Longrightarrow> bt_get (bt_insert k v m) = (bt_get m)(k \<mapsto> v)"
  by (induction k v m rule: bt_insert.induct) (auto simp: bt_get_def bt_ok_def fun_eq_iff)

lemma bt_next_back_top:
  assumes "bt_ok m" and "bt_get m k = Some v" and "\<And>j. k < j \<Longrightarrow> bt_get m j = None"
  shows "bt_next_back m = Some (k, v)"
proof (cases m rule: rev_cases)
  case Nil
  with assms(2) show ?thesis by simp
next
  case (snoc m' x)
  obtain a b where x: "x = (a, b)" by (cases x)
  have kin: "(k, v) \<in> set m" using assms(2) by (auto simp: bt_get_def dest: map_of_SomeD)
  have ab: "bt_get m a = Some b"
    using assms(1) snoc x
    by (auto simp: bt_get_def bt_ok_def sorted_wrt_append map_add_def split: option.splits
             dest!: map_of_SomeD)
  have "k \<le> a" using kin assms(1) snoc x by (auto simp: bt_ok_def sorted_wrt_append)
  moreover have "\<not> k < a" using assms(3) [of a] ab by auto
  ultimately have "k = a" by simp
  then show ?thesis using ab assms(2) snoc x by (simp add: bt_next_back_def)
qed

lemma bt_next_back_None: "bt_get m = Map.empty \<Longrightarrow> bt_next_back m = None"
  by (simp add: bt_next_back_def bt_get_def fun_eq_iff) (metis list.set_intros(1) map_of_eq_None_iff neq_Nil_conv imageI)

section \<open>MemKvStore\<close>

definition encode :: "env \<Rightarrow> kv_entry \<Rightarrow> u8 list result" where
  "encode E v = (case bincode_encode E v of
     Inl e \<Rightarrow> Inl (BincodeEncode (''bincode encode: '' @ e)) | Inr bs \<Rightarrow> Inr bs)"

definition entry_hash :: "env \<Rightarrow> kv_entry \<Rightarrow> hash result" where
  "entry_hash E e = (case encode E e of Inl err \<Rightarrow> Inl err | Inr bytes \<Rightarrow> Inr (sha256 E bytes))"

record mem_inner =
  entries :: "kv_entry btree"
  store_chkpt_idx :: u64
  store_chkpt_hash :: hash

definition mem_new :: mem_inner where
  "mem_new = \<lparr>entries = [], store_chkpt_idx = 0, store_chkpt_hash = zero_hash\<rparr>"

definition mem_open :: "string \<Rightarrow> mem_inner result" where
  "mem_open path = Inr mem_new"

definition get_chkpt_idx :: "mem_inner \<Rightarrow> u64" where
  "get_chkpt_idx s = store_chkpt_idx s"

definition set_chkpt_idx :: "mem_inner \<Rightarrow> u64 \<Rightarrow> mem_inner" where
  "set_chkpt_idx s i = s\<lparr>store_chkpt_idx := i\<rparr>"

definition get_chkpt_hash :: "mem_inner \<Rightarrow> hash" where
  "get_chkpt_hash s = store_chkpt_hash s"

definition set_chkpt_hash :: "mem_inner \<Rightarrow> hash \<Rightarrow> mem_inner" where
  "set_chkpt_hash s h = s\<lparr>store_chkpt_hash := h\<rparr>"

definition mem_get :: "mem_inner \<Rightarrow> u64 \<Rightarrow> kv_entry option result" where
  "mem_get s idx = Inr (bt_get (entries s) idx)"

definition mem_put :: "mem_inner \<Rightarrow> u64 \<Rightarrow> kv_entry \<Rightarrow> mem_inner result" where
  "mem_put s idx entry = Inr (s\<lparr>entries := bt_insert idx entry (entries s)\<rparr>)"

definition mem_size :: "env \<Rightarrow> mem_inner \<Rightarrow> u64 outcome" where
  "mem_size E s = (case bt_next_back (entries s) of
     None \<Rightarrow> Inr 0 | Some (k, e) \<Rightarrow> add_u64 (overflow_checks E) k 1)"

definition mem_top_hash :: "mem_inner \<Rightarrow> hash" where
  "mem_top_hash s = (case bt_next_back (entries s) of
     None \<Rightarrow> zero_hash | Some (k, e) \<Rightarrow> prev_hash e)"

definition mem_hash_at :: "env \<Rightarrow> mem_inner \<Rightarrow> u64 \<Rightarrow> hash result" where
  "mem_hash_at E s idx = (case bt_get (entries s) idx of
     None \<Rightarrow> Inl (NoEntryAt idx) | Some e \<Rightarrow> entry_hash E e)"

definition mem_rebuild_from_entries :: "mem_inner \<Rightarrow> (u64 \<times> kv_entry) list \<Rightarrow> mem_inner result" where
  "mem_rebuild_from_entries s es =
     Inr (s\<lparr>entries := foldl (\<lambda>m (idx, entry). bt_insert idx entry m) [] es\<rparr>)"

definition mem_ok :: "mem_inner \<Rightarrow> bool" where
  "mem_ok s \<longleftrightarrow> bt_ok (entries s)"

definition mem_lookup :: "mem_inner \<Rightarrow> u64 \<Rightarrow> kv_entry option" where
  "mem_lookup s = bt_get (entries s)"

lemma entry_hash_total: "encode_total E \<Longrightarrow> \<exists>h. entry_hash E e = Inr h"
  by (auto simp: encode_total_def entry_hash_def encode_def split: sum.splits) (metis sum.distinct(1))

lemma foldl_bt_insert:
  "bt_ok m \<Longrightarrow>
     bt_ok (foldl (\<lambda>m (i, e). bt_insert i e m) m es) \<and>
     bt_get (foldl (\<lambda>m (i, e). bt_insert i e m) m es) = bt_get m ++ map_of (rev es)"
proof (induction es arbitrary: m)
  case Nil
  then show ?case by simp
next
  case (Cons x es)
  obtain i e where x: "x = (i, e)" by (cases x)
  have "bt_get m ++ map_of (rev es @ [(i, e)]) = (bt_get m)(i \<mapsto> e) ++ map_of (rev es)"
    by (rule ext) (simp add: map_add_def split: option.splits)
  with Cons.IH [of "bt_insert i e m"] Cons.prems x show ?case
    by (simp add: bt_get_insert del: fun_upd_apply map_of_append)
qed

section \<open>The trait KvStoreOps\<close>

text \<open>A log of length \<open>n\<close>: exactly the indices below \<open>n\<close> are occupied.\<close>

definition log_shape :: "(u64 \<Rightarrow> kv_entry option) \<Rightarrow> u64 \<Rightarrow> bool" where
  "log_shape m n \<longleftrightarrow> (\<forall>k. m k \<noteq> None \<longleftrightarrow> k < n)"

text \<open>Sequences of updates, on a store given by its \<open>put\<close> and \<open>rebuild\<close> and on a partial map.\<close>

datatype store_op = PutOp u64 kv_entry | RebuildOp "(u64 \<times> kv_entry) list"

fun ops_run :: "('s \<Rightarrow> u64 \<Rightarrow> kv_entry \<Rightarrow> 's result) \<Rightarrow> ('s \<Rightarrow> (u64 \<times> kv_entry) list \<Rightarrow> 's result) \<Rightarrow>
    store_op list \<Rightarrow> 's \<Rightarrow> 's result" where
  "ops_run put rebuild [] s = Inr s"
| "ops_run put rebuild (PutOp i e # ops) s =
     (case put s i e of Inl err \<Rightarrow> Inl err | Inr t \<Rightarrow> ops_run put rebuild ops t)"
| "ops_run put rebuild (RebuildOp es # ops) s =
     (case rebuild s es of Inl err \<Rightarrow> Inl err | Inr t \<Rightarrow> ops_run put rebuild ops t)"

fun map_run :: "store_op list \<Rightarrow> (u64 \<Rightarrow> kv_entry option) \<Rightarrow> u64 \<Rightarrow> kv_entry option" where
  "map_run [] m = m"
| "map_run (PutOp i e # ops) m = map_run ops (m(i \<mapsto> e))"
| "map_run (RebuildOp es # ops) m = map_run ops (map_of (rev es))"

fun op_in_range :: "store_op \<Rightarrow> bool" where
  "op_in_range (PutOp i e) \<longleftrightarrow> i \<noteq> - 1"
| "op_in_range (RebuildOp es) \<longleftrightarrow> (\<forall>(i, e) \<in> set es. i \<noteq> - 1)"

text \<open>
  The contract of a store that holds a log: an abstraction to a partial map, and operations that
  act on it as on a map, for the indices a log can have (all but \<open>u64::MAX\<close>).
\<close>

locale log_store =
  fixes invar :: "'s \<Rightarrow> bool"
    and lookup :: "'s \<Rightarrow> u64 \<Rightarrow> kv_entry option"
    and get :: "'s \<Rightarrow> u64 \<Rightarrow> kv_entry option result"
    and put :: "'s \<Rightarrow> u64 \<Rightarrow> kv_entry \<Rightarrow> 's result"
    and store_size :: "'s \<Rightarrow> u64 outcome"
    and top_hash :: "'s \<Rightarrow> hash"
    and hash_at :: "'s \<Rightarrow> u64 \<Rightarrow> hash result"
    and rebuild :: "'s \<Rightarrow> (u64 \<times> kv_entry) list \<Rightarrow> 's result"
    and digest :: "kv_entry \<Rightarrow> hash result"
    and chk :: bool
  assumes get_lookup: "invar s \<Longrightarrow> get s i = Inr (lookup s i)"
    and put_ok: "invar s \<Longrightarrow> i \<noteq> - 1 \<Longrightarrow> \<exists>t. put s i e = Inr t \<and> invar t \<and> lookup t = (lookup s)(i \<mapsto> e)"
    and size_empty: "invar s \<Longrightarrow> lookup s = Map.empty \<Longrightarrow> store_size s = Inr 0"
    and size_top: "invar s \<Longrightarrow> lookup s i = Some e \<Longrightarrow> (\<And>j. i < j \<Longrightarrow> lookup s j = None) \<Longrightarrow>
      store_size s = add_u64 chk i 1"
    and top_empty: "invar s \<Longrightarrow> lookup s = Map.empty \<Longrightarrow> top_hash s = zero_hash"
    and top_top: "invar s \<Longrightarrow> lookup s i = Some e \<Longrightarrow> (\<And>j. i < j \<Longrightarrow> lookup s j = None) \<Longrightarrow>
      top_hash s = prev_hash e"
    and hash_at_Some: "invar s \<Longrightarrow> lookup s i = Some e \<Longrightarrow> hash_at s i = digest e"
    and hash_at_None: "invar s \<Longrightarrow> lookup s i = None \<Longrightarrow> hash_at s i = Inl (NoEntryAt i)"
    and rebuild_ok: "invar s \<Longrightarrow> (\<And>i e. (i, e) \<in> set es \<Longrightarrow> i \<noteq> - 1) \<Longrightarrow>
      \<exists>t. rebuild s es = Inr t \<and> invar t \<and> lookup t = map_of (rev es)"
begin

lemma put_Inr:
  "invar s \<Longrightarrow> i \<noteq> - 1 \<Longrightarrow> put s i e = Inr t \<Longrightarrow> invar t \<and> lookup t = (lookup s)(i \<mapsto> e)"
  using put_ok [of s i e] by auto

lemma rebuild_Inr:
  "invar s \<Longrightarrow> (\<And>i e. (i, e) \<in> set es \<Longrightarrow> i \<noteq> - 1) \<Longrightarrow> rebuild s es = Inr t \<Longrightarrow>
     invar t \<and> lookup t = map_of (rev es)"
  using rebuild_ok [of s es] by auto

text \<open>Size and top hash are functions of the contents.\<close>

lemma observed:
  assumes "invar s"
  obtains "lookup s = Map.empty" and "store_size s = Inr 0" and "top_hash s = zero_hash"
  | i e where "lookup s i = Some e" and "\<forall>j > i. lookup s j = None"
      and "store_size s = add_u64 chk i 1" and "top_hash s = prev_hash e"
proof (cases "lookup s = Map.empty")
  case True
  then show ?thesis using that(1) size_empty [OF assms] top_empty [OF assms] by blast
next
  case False
  let ?i = "Max (dom (lookup s))"
  have fin: "finite (dom (lookup s))" by (rule finite_subset [OF subset_UNIV]) simp
  have "dom (lookup s) \<noteq> {}" using False by simp
  from Max_in [OF fin this] obtain e where e: "lookup s ?i = Some e" by blast
  have above: "lookup s j = None" if "?i < j" for j
    using Max_ge [OF fin, of j] that by (meson domIff not_le)
  show ?thesis
    using that(2) [OF e _ size_top [OF assms e above] top_top [OF assms e above]] above by blast
qed

lemma ops_refine:
  "invar s \<Longrightarrow> list_all op_in_range ops \<Longrightarrow>
     \<exists>t. ops_run put rebuild ops s = Inr t \<and> invar t \<and> lookup t = map_run ops (lookup s)"
proof (induction ops arbitrary: s)
  case (Cons x ops)
  show ?case
  proof (cases x)
    case (PutOp i e)
    with Cons.prems obtain t where t: "put s i e = Inr t" "invar t" "lookup t = (lookup s)(i \<mapsto> e)"
      using put_ok [of s i e] by auto
    then show ?thesis using Cons.IH [OF t(2)] Cons.prems PutOp by (simp del: fun_upd_apply)
  next
    case (RebuildOp es)
    then have "\<exists>t. rebuild s es = Inr t \<and> invar t \<and> lookup t = map_of (rev es)"
      using Cons.prems by (intro rebuild_ok) auto
    then obtain t where t: "rebuild s es = Inr t" "invar t" "lookup t = map_of (rev es)" by blast
    then show ?thesis using Cons.IH [OF t(2)] Cons.prems RebuildOp by simp
  qed
qed simp

lemma log_top:
  assumes "invar s" and "log_shape (lookup s) n" and "0 < n"
  obtains e where "lookup s (n - 1) = Some e" and "store_size s = Inr n"
    and "top_hash s = prev_hash e"
proof -
  have "n \<noteq> 0" using assms(3) by auto
  then have n: "n - 1 < n" "n - 1 \<noteq> - 1"
    by (simp_all add: word_less_nat_alt unat_minus_one unat_gt_0)
  obtain e where e: "lookup s (n - 1) = Some e"
    using assms(2) n unfolding log_shape_def by blast
  have above: "lookup s j = None" if "n - 1 < j" for j
  proof -
    have "\<not> j < n" using that n less_succ_u64 [of "n - 1" j] by simp
    then show ?thesis using assms(2) unfolding log_shape_def by blast
  qed
  show ?thesis
    using that [OF e] size_top [OF assms(1) e above] top_top [OF assms(1) e above]
    by (simp add: add_u64_one_ok n)
qed

lemma log_empty: "log_shape (lookup s) 0 \<longleftrightarrow> lookup s = Map.empty"
  by (auto simp: log_shape_def fun_eq_iff)

lemma log_size:
  assumes "invar s" and "log_shape (lookup s) n"
  shows "store_size s = Inr n"
proof (cases "n = 0")
  case True
  with assms show ?thesis using size_empty log_empty by simp
next
  case False
  then have "0 < n" by (simp add: word_gt_0)
  with assms show ?thesis by (rule log_top) simp
qed

lemma log_append:
  assumes "invar s" and "log_shape (lookup s) n" and "n \<noteq> - 1" and "put s n e = Inr t"
  shows "invar t \<and> log_shape (lookup t) (n + 1) \<and> top_hash t = prev_hash e \<and> hash_at t n = digest e
    \<and> lookup t = (lookup s)(n \<mapsto> e)"
proof -
  have t: "invar t" "lookup t = (lookup s)(n \<mapsto> e)" using put_Inr assms(1,3,4) by auto
  have shape: "log_shape (lookup t) (n + 1)"
    using assms(2) t(2) by (auto simp: log_shape_def less_succ_u64 [OF assms(3)] le_less)
  have "0 < n + 1" using assms(3) by (simp add: word_gt_0 eq_neg_iff_add_eq_0)
  with t(1) shape obtain e' where e': "lookup t (n + 1 - 1) = Some e'" "top_hash t = prev_hash e'"
    by (rule log_top)
  then have "e' = e" using t(2) by simp
  with e' t shape show ?thesis using hash_at_Some [OF t(1), of n e] by simp
qed

lemma rebuild_range:
  assumes "invar s" and "rebuild s (map (\<lambda>k. (k, g k)) (map of_nat [0..<unat n])) = Inr t"
  shows "invar t \<and> log_shape (lookup t) n \<and> (\<forall>k < n. lookup t k = Some (g k))"
proof -
  have below: "k \<noteq> - 1" if "(k, e) \<in> set (map (\<lambda>k. (k, g k)) (map of_nat [0..<unat n]))" for k e
  proof -
    have "k \<in> set (map of_nat [0..<unat n])" using that by auto
    then have "k < n" unfolding set_range_u64 by simp
    then show ?thesis by (auto dest: less_not_max_u64)
  qed
  have inv: "invar t"
    and eq: "lookup t = map_of (rev (map (\<lambda>k. (k, g k)) (map of_nat [0..<unat n])))"
    using rebuild_Inr [OF assms(1) _ assms(2)] below by auto
  have "lookup t = (Some \<circ> g) |` {k. k < n}"
    unfolding eq by (subst rev_map) (simp only: map_of_map_restrict set_rev set_range_u64)
  with inv show ?thesis by (simp add: log_shape_def restrict_map_def)
qed

end

text \<open>A store without a bound on its indices.\<close>

locale kv_store_ops = log_store +
  assumes put_any: "invar s \<Longrightarrow> \<exists>t. put s i e = Inr t \<and> invar t \<and> lookup t = (lookup s)(i \<mapsto> e)"
    and rebuild_any: "invar s \<Longrightarrow> \<exists>t. rebuild s es = Inr t \<and> invar t \<and> lookup t = map_of (rev es)"
begin

lemma ops_refine_any:
  "invar s \<Longrightarrow> \<exists>t. ops_run put rebuild ops s = Inr t \<and> invar t \<and> lookup t = map_run ops (lookup s)"
proof (induction ops arbitrary: s)
  case (Cons x ops)
  show ?case
  proof (cases x)
    case (PutOp i e)
    from Cons.prems obtain t where t: "put s i e = Inr t" "invar t" "lookup t = (lookup s)(i \<mapsto> e)"
      using put_any [of s i e] by auto
    then show ?thesis using Cons.IH [OF t(2)] PutOp by (simp del: fun_upd_apply)
  next
    case (RebuildOp es)
    from Cons.prems obtain t where t: "rebuild s es = Inr t" "invar t" "lookup t = map_of (rev es)"
      using rebuild_any [of s es] by auto
    then show ?thesis using Cons.IH [OF t(2)] RebuildOp by simp
  qed
qed simp

end

interpretation mem: kv_store_ops mem_ok mem_lookup mem_get mem_put "mem_size E" mem_top_hash
  "mem_hash_at E" mem_rebuild_from_entries "entry_hash E" "overflow_checks E" for E
proof (unfold_locales, goal_cases)
  case (4 s i e)
  then have "bt_next_back (entries s) = Some (i, e)"
    by (intro bt_next_back_top) (auto simp: mem_ok_def mem_lookup_def)
  then show ?case by (simp add: mem_size_def)
next
  case (6 s i e)
  then have "bt_next_back (entries s) = Some (i, e)"
    by (intro bt_next_back_top) (auto simp: mem_ok_def mem_lookup_def)
  then show ?case by (simp add: mem_top_hash_def)
next
  case (9 s es)
  show ?case
    using foldl_bt_insert [of "[]" es]
    by (simp add: mem_ok_def mem_lookup_def mem_rebuild_from_entries_def)
next
  case (11 s es)
  show ?case
    using foldl_bt_insert [of "[]" es]
    by (simp add: mem_ok_def mem_lookup_def mem_rebuild_from_entries_def)
qed (auto simp: mem_ok_def mem_lookup_def mem_get_def mem_put_def mem_size_def mem_top_hash_def
        mem_hash_at_def bt_get_insert bt_next_back_None)

lemma log_shape_empty [simp]: "log_shape Map.empty 0"
  by (simp add: log_shape_def)

lemma mem_new_ok [simp]: "mem_ok mem_new" "mem_lookup mem_new = Map.empty"
  by (simp_all add: mem_new_def mem_ok_def mem_lookup_def log_shape_def)

section \<open>Properties\<close>

text \<open>The store is a map. Any sequence of puts and rebuilds on a new \<open>MemKvStore\<close> succeeds and
  leaves it an ordered map whose contents are those of the same operations on a partial map;
  reads agree with the map, with None for an absent index, and \<open>hash_at\<close> fails exactly there.\<close>

theorem store_refines_map:
  "\<exists>t. ops_run mem_put mem_rebuild_from_entries ops mem_new = Inr t \<and> mem_ok t \<and>
     (\<forall>i. mem_get t i = Inr (map_run ops Map.empty i)) \<and>
     (\<forall>i. mem_hash_at E t i = (case map_run ops Map.empty i of
         None \<Rightarrow> Inl (NoEntryAt i) | Some e \<Rightarrow> entry_hash E e))"
proof -
  obtain t where t: "ops_run mem_put mem_rebuild_from_entries ops mem_new = Inr t" "mem_ok t" "mem_lookup t = map_run ops Map.empty"
    using mem.ops_refine_any [of mem_new ops] by auto
  then have "mem_hash_at E t i = (case map_run ops Map.empty i of
         None \<Rightarrow> Inl (NoEntryAt i) | Some e \<Rightarrow> entry_hash E e)" for i
    using mem.hash_at_Some [OF t(2), of i] mem.hash_at_None [OF t(2), of i]
    by (cases "mem_lookup t i") auto
  then show ?thesis using t mem.get_lookup [OF t(2)] by auto
qed

text \<open>The top hash does not cover the top entry. \<open>top_hash\<close>, which SYNC, CHECKPOINT and LOG
  messages carry, is the \<open>prev_hash\<close> of the top entry: overwriting the top entry of a log by any
  entry with the same \<open>prev_hash\<close> leaves it unchanged.\<close>

theorem top_hash_ignores_top_entry:
  assumes "mem_ok s" and "log_shape (mem_lookup s) n" and "mem_lookup s (n - 1) = Some e"
    and "0 < n" and "prev_hash e' = prev_hash e" and "mem_put s (n - 1) e' = Inr t"
  shows "mem_top_hash t = mem_top_hash s"
proof -
  have t: "mem_ok t" "mem_lookup t = (mem_lookup s)(n - 1 \<mapsto> e')"
    using mem.put_any [OF assms(1), of "n - 1" e'] assms(6) by auto
  have "log_shape (mem_lookup t) n"
    using assms(2,3) unfolding t(2) log_shape_def by (metis fun_upd_apply option.distinct(1))
  from mem.log_top [OF t(1) this assms(4)] mem.log_top [OF assms(1,2,4)] assms(3,5) t(2)
  show ?thesis by (metis fun_upd_same option.inject)
qed

lemma top_hash_ignores_top_entry_witness:
  "\<exists>s t. mem_put s 0 \<lparr>op_hash = 7, entry_result = [], prev_hash = zero_hash\<rparr> = Inr t \<and>
     mem_lookup s \<noteq> mem_lookup t \<and> mem_top_hash t = mem_top_hash s"
proof -
  let ?e = "\<lparr>op_hash = 0, entry_result = [], prev_hash = zero_hash\<rparr>"
  let ?e' = "\<lparr>op_hash = 7, entry_result = [], prev_hash = zero_hash\<rparr>"
  let ?s = "mem_new\<lparr>entries := [(0, ?e)]\<rparr>"
  let ?t = "mem_new\<lparr>entries := [(0, ?e')]\<rparr>"
  have "k < 1 \<longleftrightarrow> k = 0" for k :: u64
    by (auto simp: word_less_nat_alt unat_eq_0)
  then have s: "mem_ok ?s" "log_shape (mem_lookup ?s) 1" "mem_lookup ?s (1 - 1) = Some ?e"
    by (auto simp: log_shape_def mem_ok_def mem_lookup_def bt_ok_def bt_get_def mem_new_def)
  have put: "mem_put ?s (1 - 1) ?e' = Inr ?t" by (simp add: mem_put_def mem_new_def)
  have "mem_lookup ?s 0 \<noteq> mem_lookup ?t 0" by (simp add: mem_lookup_def bt_get_def)
  then have "mem_lookup ?s \<noteq> mem_lookup ?t" by metis
  with top_hash_ignores_top_entry [OF s _ _ put] put show ?thesis by auto
qed

end
