(* ===== verification/Replica_State.thy ===== *)
theory Replica_State
  imports Kv_Store
begin

text \<open>
  The state of one replica (\<open>ReplicaState\<close>, \<open>Replica\<close>), its construction and the leader rule,
  and what the handler theories share: the votes a guard counts, the synthetic log entries that
  alignment and repair write, and the vocabulary of the invariants.
\<close>

section \<open>State\<close>

record replica_state =
  node_id :: node_id
  phase :: phase
  round :: u64
  view :: u64
  start_idx :: u64
  kv_size :: u64
  kv_store :: mem_inner
  chkpt_idx :: u64
  chkpt_hash :: hash
  eta_star :: u64
  in_repair :: bool
  proposed_history_hash :: u64
  sync_msgs :: "message fset"
  ack_msgs :: "message fset"
  chkpt_msgs :: "message fset"
  timeout_msgs :: "message fset"
  log_msgs :: "message fset"
  repair_history_msgs :: "message fset"
  repair_prepare_msgs :: "message fset"
  repair_commit_msgs :: "message fset"
  repair_done_msgs :: "message fset"

record replica =
  state :: replica_state
  config :: config

type_synonym step = "replica \<Rightarrow> (replica \<times> effect list) outcome"

definition initial_state :: "node_id \<Rightarrow> mem_inner \<Rightarrow> replica_state" where
  "initial_state node store =
     \<lparr>node_id = node, phase = Speculative, round = 0, view = 0, start_idx = 0, kv_size = 0,
      kv_store = store, chkpt_idx = 0, chkpt_hash = zero_hash, eta_star = 0, in_repair = False,
      proposed_history_hash = 0,
      sync_msgs = {||}, ack_msgs = {||}, chkpt_msgs = {||}, timeout_msgs = {||}, log_msgs = {||},
      repair_history_msgs = {||}, repair_prepare_msgs = {||}, repair_commit_msgs = {||},
      repair_done_msgs = {||}\<rparr>"

definition replica_new :: "config \<Rightarrow> node_id \<Rightarrow> string \<Rightarrow> replica result" where
  "replica_new cfg node db_path =
     (case mem_open db_path of
        Inl e \<Rightarrow> Inl e
      | Inr store \<Rightarrow> Inr \<lparr>state = initial_state node store, config = cfg\<rparr>)"

text \<open>The replica \<open>replica_new\<close> returns; the in-memory store never fails to open.\<close>

definition fresh_replica :: "config \<Rightarrow> node_id \<Rightarrow> replica" where
  "fresh_replica cfg node = \<lparr>state = initial_state node mem_new, config = cfg\<rparr>"

lemma replica_new_fresh: "replica_new cfg node path = Inr (fresh_replica cfg node)"
  by (simp add: replica_new_def mem_open_def fresh_replica_def)

definition is_leader :: "replica \<Rightarrow> bool" where
  "is_leader r =
     (let n = length (nodes_ordered (config r))
      in if n = 0 then False
         else nodes_ordered (config r) ! (unat (view (state r)) mod n) = node_id (state r))"

section \<open>Votes\<close>

text \<open>
  The patterns of the guards' \<open>matches!\<close> filters. Fields the code leaves open (\<open>..\<close>) are
  left open here.
\<close>

fun sync_matches :: "u64 \<Rightarrow> u64 \<Rightarrow> message \<Rightarrow> bool" where
  "sync_matches rd idx (Sync s r k h e) \<longleftrightarrow> r = rd \<and> k = idx"
| "sync_matches rd idx m \<longleftrightarrow> False"

fun sync_agrees :: "u64 \<Rightarrow> u64 \<Rightarrow> hash \<Rightarrow> message \<Rightarrow> bool" where
  "sync_agrees rd idx lh (Sync s r k h e) \<longleftrightarrow> r = rd \<and> k = idx \<and> h = lh"
| "sync_agrees rd idx lh m \<longleftrightarrow> False"

fun chkpt_matches :: "u64 \<Rightarrow> u64 \<Rightarrow> message \<Rightarrow> bool" where
  "chkpt_matches rd idx (Checkpoint s r k h) \<longleftrightarrow> r = rd \<and> k = idx"
| "chkpt_matches rd idx m \<longleftrightarrow> False"

fun timeout_matches :: "u64 \<Rightarrow> u64 \<Rightarrow> message \<Rightarrow> bool" where
  "timeout_matches rd idx (TimeoutMsg s r k) \<longleftrightarrow> r = rd \<and> k = idx"
| "timeout_matches rd idx m \<longleftrightarrow> False"

fun log_matches :: "u64 \<Rightarrow> u64 \<Rightarrow> message \<Rightarrow> bool" where
  "log_matches vw rd (LogMsg s v r h) \<longleftrightarrow> v = vw \<and> r = rd"
| "log_matches vw rd m \<longleftrightarrow> False"

fun history_matches :: "u64 \<Rightarrow> u64 \<Rightarrow> message \<Rightarrow> bool" where
  "history_matches vw rd (RepairHistory s v r h) \<longleftrightarrow> v = vw \<and> r = rd"
| "history_matches vw rd m \<longleftrightarrow> False"

fun prepare_matches :: "u64 \<Rightarrow> u64 \<Rightarrow> u64 \<Rightarrow> message \<Rightarrow> bool" where
  "prepare_matches vw rd hist (RepairPrepare s v r h) \<longleftrightarrow> v = vw \<and> r = rd \<and> h = hist"
| "prepare_matches vw rd hist m \<longleftrightarrow> False"

fun commit_matches :: "u64 \<Rightarrow> u64 \<Rightarrow> u64 \<Rightarrow> message \<Rightarrow> bool" where
  "commit_matches vw rd hist (RepairCommit s v r h) \<longleftrightarrow> v = vw \<and> r = rd \<and> h = hist"
| "commit_matches vw rd hist m \<longleftrightarrow> False"

fun done_matches :: "u64 \<Rightarrow> u64 \<Rightarrow> message \<Rightarrow> bool" where
  "done_matches vw rd (RepairDone s v r h) \<longleftrightarrow> v = vw \<and> r = rd"
| "done_matches vw rd m \<longleftrightarrow> False"

text \<open>The distinct senders among the messages of a set that match a pattern.\<close>

definition senders :: "(message \<Rightarrow> bool) \<Rightarrow> message fset \<Rightarrow> node_id set" where
  "senders p S = fset ((\<lambda>m. the (sender_of m)) |`| ffilter (\<lambda>m. p m \<and> sender_of m \<noteq> None) S)"

lemma senders_image: "senders p S = (the \<circ> sender_of) ` {m \<in> fset S. p m \<and> sender_of m \<noteq> None}"
  by (auto simp: senders_def image_iff)

lemma senders_Collect: "senders p S = {s. \<exists>m. m |\<in>| S \<and> p m \<and> sender_of m = Some s}"
proof (intro set_eqI iffI)
  fix s assume "s \<in> {s. \<exists>m. m |\<in>| S \<and> p m \<and> sender_of m = Some s}"
  then obtain m where "m |\<in>| S" "p m" "sender_of m = Some s" by blast
  then show "s \<in> senders p S"
    unfolding senders_image by (intro image_eqI [of _ _ m]) simp_all
qed (auto simp: senders_image)

lemma finite_senders [simp]: "finite (senders p S)"
  unfolding senders_image by (intro finite_imageI) simp

lemma senders_empty [simp]: "senders p {||} = {}"
  by (simp add: senders_Collect)

lemma senders_finsert:
  "senders p (finsert m S) =
     (case sender_of m of Some s \<Rightarrow> if p m then insert s (senders p S) else senders p S
                        | None \<Rightarrow> senders p S)"
  by (auto simp: senders_Collect split: option.splits)

lemma senders_mono: "S |\<subseteq>| T \<Longrightarrow> senders p S \<subseteq> senders p T"
  by (auto simp: senders_Collect)

text \<open>
  A pattern counts senders when a sender has at most one matching message: the number of
  matching messages is then the number of senders. Patterns that fix every other field of the
  message have this property; \<open>SYNC\<close>, \<open>CHECKPOINT\<close> and \<open>REPAIR-DONE\<close> patterns have not.
\<close>

definition one_per_sender :: "(message \<Rightarrow> bool) \<Rightarrow> bool" where
  "one_per_sender p \<longleftrightarrow>
     (\<forall>m. p m \<longrightarrow> sender_of m \<noteq> None) \<and>
     (\<forall>m m'. p m \<longrightarrow> p m' \<longrightarrow> sender_of m = sender_of m' \<longrightarrow> m = m')"

lemma senders_le_count: "card (senders p S) \<le> count_matching p S"
proof -
  have "card (senders p S) \<le> card {m \<in> fset S. p m \<and> sender_of m \<noteq> None}"
    unfolding senders_image by (rule card_image_le) simp
  also have "\<dots> \<le> card {m \<in> fset S. p m}" by (rule card_mono) auto
  finally show ?thesis by (simp add: count_matching_card)
qed

lemma count_eq_senders:
  assumes "one_per_sender p"
  shows "count_matching p S = card (senders p S)"
proof -
  let ?M = "{m \<in> fset S. p m}"
  have named: "{m \<in> fset S. p m \<and> sender_of m \<noteq> None} = ?M"
    using assms unfolding one_per_sender_def by blast
  have "inj_on (the \<circ> sender_of) ?M"
  proof (rule inj_onI)
    fix m m' assume m: "m \<in> ?M" "m' \<in> ?M" and eq: "(the \<circ> sender_of) m = (the \<circ> sender_of) m'"
    then have "sender_of m \<noteq> None" "sender_of m' \<noteq> None"
      using assms unfolding one_per_sender_def by blast+
    with eq have "sender_of m = sender_of m'" by auto
    with m show "m = m'" using assms unfolding one_per_sender_def by blast
  qed
  then show ?thesis unfolding count_matching_card senders_image named by (rule card_image [symmetric])
qed

lemma one_per_sender_patterns:
  "one_per_sender (timeout_matches rd idx)"
  "one_per_sender (prepare_matches vw rd hist)"
  "one_per_sender (commit_matches vw rd hist)"
proof -
  have t: "timeout_matches rd idx m \<longleftrightarrow> (\<exists>s. m = TimeoutMsg s rd idx)" for m
    by (cases m) auto
  have p: "prepare_matches vw rd hist m \<longleftrightarrow> (\<exists>s. m = RepairPrepare s vw rd hist)" for m
    by (cases m) auto
  have c: "commit_matches vw rd hist m \<longleftrightarrow> (\<exists>s. m = RepairCommit s vw rd hist)" for m
    by (cases m) auto
  show "one_per_sender (timeout_matches rd idx)"
    "one_per_sender (prepare_matches vw rd hist)"
    "one_per_sender (commit_matches vw rd hist)"
    by (auto simp: one_per_sender_def t p c)
qed

section \<open>Synthetic log entries\<close>

text \<open>
  Alignment and repair rebuild the log with placeholder entries
  \<open>KvEntry { op_hash: k, result: vec![], prev_hash: [k as u8; 32] }\<close>.
\<close>

definition synthetic_entry :: "u64 \<Rightarrow> kv_entry" where
  "synthetic_entry k = \<lparr>op_hash = k, entry_result = [], prev_hash = hash_fill (ucast k)\<rparr>"

section \<open>Well-formedness\<close>

abbreviation repair_phases :: "phase set" where
  "repair_phases \<equiv> {CollectingLogs, PreparePhase, CommitPhase}"

text \<open>The repair flag agrees with the phase.\<close>

definition phase_ok :: "replica_state \<Rightarrow> bool" where
  "phase_ok s \<longleftrightarrow> (in_repair s \<longleftrightarrow> phase s \<in> repair_phases)"

text \<open>The store is an ordered map and holds the indices below \<open>kv_size\<close>.\<close>

definition log_ok :: "replica_state \<Rightarrow> bool" where
  "log_ok s \<longleftrightarrow> mem_ok (kv_store s) \<and> log_shape (mem_lookup (kv_store s)) (kv_size s)"

text \<open>Each message set holds messages of its own kind.\<close>

definition msgs_ok :: "replica_state \<Rightarrow> bool" where
  "msgs_ok s \<longleftrightarrow>
     fBall (sync_msgs s) is_Sync \<and> ack_msgs s = {||} \<and> fBall (chkpt_msgs s) is_Checkpoint \<and>
     fBall (timeout_msgs s) is_TimeoutMsg \<and> fBall (log_msgs s) is_LogMsg \<and>
     fBall (repair_history_msgs s) is_RepairHistory \<and>
     fBall (repair_prepare_msgs s) is_RepairPrepare \<and>
     fBall (repair_commit_msgs s) is_RepairCommit \<and> fBall (repair_done_msgs s) is_RepairDone"

text \<open>A replica in the commit phase holds the certificate it entered with.\<close>

definition prepare_certificate :: "replica \<Rightarrow> bool" where
  "prepare_certificate r \<longleftrightarrow>
     unat (byz_quorum (config r))
       \<le> card (senders (prepare_matches (view (state r)) (round (state r))
                          (proposed_history_hash (state r)))
                (repair_prepare_msgs (state r)))"

definition cert_ok :: "replica \<Rightarrow> bool" where
  "cert_ok r \<longleftrightarrow> (phase (state r) = CommitPhase \<longrightarrow> prepare_certificate r)"

lemma initial_state_ok:
  "phase_ok (initial_state node mem_new)" "log_ok (initial_state node mem_new)"
  "msgs_ok (initial_state node mem_new)" "cert_ok (fresh_replica cfg node)"
  by (simp_all add: phase_ok_def log_ok_def msgs_ok_def cert_ok_def initial_state_def
      fresh_replica_def)

section \<open>Properties\<close>

definition leads :: "config \<Rightarrow> node_id \<Rightarrow> u64 \<Rightarrow> bool" where
  "leads cfg node v = is_leader (state_update (view_update (\<lambda>w. v)) (fresh_replica cfg node))"

lemma leads_iff: "leads cfg node v \<longleftrightarrow> nodes_ordered cfg \<noteq> [] \<and>
    nodes_ordered cfg ! (unat v mod length (nodes_ordered cfg)) = node"
  by (simp add: leads_def is_leader_def fresh_replica_def initial_state_def Let_def)

lemma residue_inj: "d \<le> d' \<Longrightarrow> d' < n \<Longrightarrow> (v + d) mod n = (v + d') mod n \<Longrightarrow> d = (d' :: nat)"
proof -
  assume d: "d \<le> d'" "d' < n" "(v + d) mod n = (v + d') mod n"
  then have "n dvd d' - d" using mod_eq_dvd_iff_nat [of "v + d" "v + d'" n] by simp
  then show "d = d'" using d nat_dvd_not_less [of "d' - d" n] by linarith
qed

lemma one_residue: "i < n \<Longrightarrow> \<exists>!d. d < n \<and> (v + d) mod n = (i :: nat)"
proof (rule ex_ex1I)
  assume i: "i < n"
  let ?d = "(i + (n - v mod n)) mod n"
  have "v mod n < n" using i by simp
  then have "v mod n + (i + (n - v mod n)) = i + n" by linarith
  moreover have "(v + ?d) mod n = (v mod n + (i + (n - v mod n))) mod n" by (simp add: mod_simps)
  ultimately show "\<exists>d. d < n \<and> (v + d) mod n = i" using i by (intro exI [of _ ?d]) simp
next
  fix d d' assume "d < n \<and> (v + d) mod n = i" "d' < n \<and> (v + d') mod n = i"
  then show "d = d'"
    using residue_inj [of d d' n v] residue_inj [of d' d n v] by (cases "d \<le> d'") auto
qed

text \<open>Round-robin leadership. With pairwise different node names, in any view below
  \<open>2 ^ 64 - n\<close> exactly one configured node is the leader, and over \<open>n\<close> consecutive views every
  configured node is the leader of exactly one.\<close>

theorem leader_rotation:
  assumes "distinct (nodes_ordered cfg)" and "node \<in> set (nodes_ordered cfg)"
    and "unat v + length (nodes_ordered cfg) \<le> 2 ^ 64"
  shows "(\<exists>!q. leads cfg q v) \<and>
    (\<exists>!d. d < length (nodes_ordered cfg) \<and> leads cfg node (v + of_nat d))"
proof -
  let ?ns = "nodes_ordered cfg" let ?n = "length ?ns"
  have ne: "?ns \<noteq> []" using assms(2) by auto
  obtain i where i: "i < ?n" "?ns ! i = node" using assms(2) by (auto simp: in_set_conv_nth)
  have view: "unat (v + of_nat d) = unat v + d" if "d < ?n" for d
    using that assms(3) by (simp add: unat_word_ariths unat_of_nat)
  have "leads cfg node (v + of_nat d) \<longleftrightarrow> (unat v + d) mod ?n = i" if "d < ?n" for d
    using that i ne assms(1) by (auto simp: leads_iff view nth_eq_iff_index_eq)
  then have "(\<lambda>d. d < ?n \<and> leads cfg node (v + of_nat d)) = (\<lambda>d. d < ?n \<and> (unat v + d) mod ?n = i)"
    by auto
  moreover have "\<exists>!d. d < ?n \<and> (unat v + d) mod ?n = i"
    using ne i(1) by (intro one_residue) auto
  ultimately have "\<exists>!d. d < ?n \<and> leads cfg node (v + of_nat d)" by simp
  with ne show ?thesis by (auto simp: leads_iff)
qed

lemma leader_rotation_witness: "\<exists>!q. leads six_config q 0"
proof -
  have "distinct (nodes_ordered six_config)" "''r0'' \<in> set (nodes_ordered six_config)"
    by code_simp+
  from leader_rotation [OF this, of 0] show ?thesis by (simp add: six_config_def)
qed

end
