(* ===== verification/Fast_Path.thy ===== *)
theory Fast_Path
  imports Replica_State
begin

text \<open>
  Fast-path speculative execution (\<^verbatim>\<open>fast_path.rs\<close>): the guard, the handler that appends a log
  entry chained to the entry before it, and what one execution does to the log.
\<close>

section \<open>Guard and handler\<close>

definition can_speculate :: "replica \<Rightarrow> message \<Rightarrow> u64 option" where
  "can_speculate r msg =
     (if \<not> is_Speculate msg then None
      else if phase (state r) \<noteq> Speculative then None
      else Some (kv_size (state r)))"

text \<open>The entry \<open>handle_speculate\<close> writes at \<open>log_idx\<close>: an unreadable predecessor counts as
  the zero hash, as for the first entry.\<close>

definition next_entry :: "env \<Rightarrow> mem_inner \<Rightarrow> u64 \<Rightarrow> kv_entry" where
  "next_entry E store log_idx =
     (let prev = (if log_idx > 0
                  then unwrap_or zero_hash (mem_hash_at E store (log_idx - 1))
                  else zero_hash)
      in \<lparr>op_hash = log_idx, entry_result = [], prev_hash = prev\<rparr>)"

definition handle_speculate :: "env \<Rightarrow> replica \<Rightarrow> u64 \<Rightarrow> (replica \<times> effect list) outcome" where
  "handle_speculate E r log_idx =
     (let new_entry = next_entry E (kv_store (state r)) log_idx
      in bind_outcome
           (expect ''kv_store put failed'' (mem_put (kv_store (state r)) log_idx new_entry))
           (\<lambda>store.
         bind_outcome
           (expect ''hash_at immediately after put must succeed'' (mem_hash_at E store log_idx))
           (\<lambda>new_hash.
         bind_outcome (add_u64 (overflow_checks E) (kv_size (state r)) 1)
           (\<lambda>size'.
              Inr (state_update (\<lambda>s. s\<lparr>kv_store := store, kv_size := size'\<rparr>) r,
                   [Broadcast (SpecReply (node_id (state r)) (round (state r)) log_idx new_hash)])))))"

section \<open>The effect of one execution\<close>

lemma handle_speculate_Inr:
  assumes "handle_speculate E r k = Inr (r', es)"
  obtains store h size' where
    "mem_put (kv_store (state r)) k (next_entry E (kv_store (state r)) k) = Inr store"
    "mem_hash_at E store k = Inr h"
    "add_u64 (overflow_checks E) (kv_size (state r)) 1 = Inr size'"
    "r' = state_update (\<lambda>s. s\<lparr>kv_store := store, kv_size := size'\<rparr>) r"
    "es = [Broadcast (SpecReply (node_id (state r)) (round (state r)) k h)]"
  using assms by (auto simp: handle_speculate_def Let_def bind_outcome_Inr_iff expect_Inr_iff)

lemma handle_speculate_phase:
  "handle_speculate E r k = Inr (r', es) \<Longrightarrow> phase (state r') = phase (state r)"
  by (auto simp: handle_speculate_def Let_def bind_outcome_Inr_iff)

text \<open>On a well-formed log the execution succeeds unless the log is full, and writes one entry.\<close>

lemma handle_speculate_ok:
  assumes "encode_total E" and "log_ok (state r)" and "kv_size (state r) \<noteq> - 1"
  obtains store h where
    "handle_speculate E r (kv_size (state r)) =
       Inr (state_update (\<lambda>s. s\<lparr>kv_store := store, kv_size := kv_size (state r) + 1\<rparr>) r,
            [Broadcast (SpecReply (node_id (state r)) (round (state r)) (kv_size (state r)) h)])"
    "mem_ok store" "log_shape (mem_lookup store) (kv_size (state r) + 1)"
    "mem_lookup store = (mem_lookup (kv_store (state r)))
       (kv_size (state r) \<mapsto> next_entry E (kv_store (state r)) (kv_size (state r)))"
    "entry_hash E (next_entry E (kv_store (state r)) (kv_size (state r))) = Inr h"
proof -
  let ?k = "kv_size (state r)" and ?st = "kv_store (state r)"
  let ?e = "next_entry E ?st ?k"
  have st: "mem_ok ?st" "log_shape (mem_lookup ?st) ?k"
    using assms(2) by (simp_all add: log_ok_def)
  obtain store where put: "mem_put ?st ?k ?e = Inr store"
    using mem.put_any [OF st(1)] by blast
  note app = mem.log_append [OF st assms(3) put, of E]
  obtain h where h: "entry_hash E ?e = Inr h"
    using entry_hash_total [OF assms(1)] by blast
  have "handle_speculate E r ?k =
      Inr (state_update (\<lambda>s. s\<lparr>kv_store := store, kv_size := ?k + 1\<rparr>) r,
           [Broadcast (SpecReply (node_id (state r)) (round (state r)) ?k h)])"
    using app h by (simp add: handle_speculate_def Let_def put add_u64_one_ok [OF assms(3)])
  then show ?thesis using app h by (intro that) auto
qed

lemma speculate_log_ok:
  assumes "handle_speculate E r k = Inr (r', es)" and "log_ok (state r)"
    and "k = kv_size (state r)" and "overflow_checks E"
  shows "log_ok (state r')"
proof -
  obtain store h size' where sp:
    "mem_put (kv_store (state r)) k (next_entry E (kv_store (state r)) k) = Inr store"
    "add_u64 (overflow_checks E) (kv_size (state r)) 1 = Inr size'"
    "r' = state_update (\<lambda>s. s\<lparr>kv_store := store, kv_size := size'\<rparr>) r"
    using assms(1) by (rule handle_speculate_Inr)
  have "kv_size (state r) \<noteq> - 1" "size' = kv_size (state r) + 1"
    using sp(2) assms(4) by (auto simp: add_u64_one_checked)
  moreover have "mem_ok store \<and> log_shape (mem_lookup store) (kv_size (state r) + 1)"
    using mem.log_append [OF _ _ calculation(1) sp(1) [unfolded assms(3)], of E] assms(2)
    by (auto simp: log_ok_def)
  ultimately show ?thesis using sp(3) by (simp add: log_ok_def)
qed

section \<open>The hash chain\<close>

text \<open>
  The digest of the entry at an index, with the code's zero hash where there is none, and a log
  in which every entry carries the digest of the entry before it.
\<close>

definition digest_of :: "env \<Rightarrow> kv_entry \<Rightarrow> hash" where
  "digest_of E e = unwrap_or zero_hash (entry_hash E e)"

definition digest_at :: "env \<Rightarrow> (u64 \<Rightarrow> kv_entry option) \<Rightarrow> u64 \<Rightarrow> hash" where
  "digest_at E m k = (case m k of None \<Rightarrow> zero_hash | Some e \<Rightarrow> digest_of E e)"

definition chained :: "env \<Rightarrow> (u64 \<Rightarrow> kv_entry option) \<Rightarrow> u64 \<Rightarrow> bool" where
  "chained E m n \<longleftrightarrow> (\<forall>k < n. \<exists>e. m k = Some e \<and>
     prev_hash e = (if k = 0 then zero_hash else digest_at E m (k - 1)))"

lemma chainedE:
  assumes "chained E m n" and "k < n"
  obtains e where "m k = Some e"
    "prev_hash e = (if k = 0 then zero_hash else digest_at E m (k - 1))"
  using assms unfolding chained_def by blast

lemma chained_empty [simp]: "chained E m 0"
  by (simp add: chained_def)

lemma next_entry_simps [simp]:
  "op_hash (next_entry E s k) = k" "entry_result (next_entry E s k) = []"
  "prev_hash (next_entry E s k) =
     (if k = 0 then zero_hash else digest_at E (mem_lookup s) (k - 1))"
  by (auto simp: next_entry_def Let_def word_gt_0 digest_at_def digest_of_def mem_hash_at_def
           mem_lookup_def split: option.splits)

lemma pred_less_u64: "(k :: u64) \<noteq> 0 \<Longrightarrow> k - 1 < k"
  by (simp add: word_less_nat_alt unat_minus_one unat_gt_0)

lemma chained_append:
  assumes "chained E m n" and "n \<noteq> - 1"
    and "prev_hash e = (if n = 0 then zero_hash else digest_at E m (n - 1))"
  shows "chained E (m(n \<mapsto> e)) (n + 1)"
  unfolding chained_def
proof (intro allI impI)
  fix k assume k: "k < n + 1"
  have keep: "digest_at E (m(n \<mapsto> e)) (k - 1) = digest_at E m (k - 1)" if "k \<noteq> 0"
    using k that less_succ_u64 [OF assms(2), of k] pred_less_u64 [of k] by (auto simp: digest_at_def)
  show "\<exists>e'. (m(n \<mapsto> e)) k = Some e' \<and>
      prev_hash e' = (if k = 0 then zero_hash else digest_at E (m(n \<mapsto> e)) (k - 1))"
  proof (cases "k = n")
    case True
    with assms(3) keep show ?thesis by auto
  next
    case False
    with k have "k < n" using less_succ_u64 [OF assms(2), of k] by simp
    with assms(1) False keep show ?thesis by (auto simp: chained_def)
  qed
qed

lemma same_entry:
  assumes "inj_on (digest_of E) (ran m1 \<union> ran m2)"
    and "m1 k = Some e1" and "m2 k = Some e2" and "digest_at E m1 k = digest_at E m2 k"
  shows "e1 = e2"
  using assms(2-4) by (intro inj_onD [OF assms(1)]) (auto simp: digest_at_def intro: ranI)

text \<open>Two chains with the same digest at an index agree up to that index, unless the digest
  function has a collision among their entries.\<close>

lemma chain_agree:
  assumes "chained E m1 n1" and "chained E m2 n2"
    and "inj_on (digest_of E) (ran m1 \<union> ran m2)"
    and "k < n1" and "k < n2" and "digest_at E m1 k = digest_at E m2 k"
  shows "j \<le> k \<Longrightarrow> m1 j = m2 j"
  using assms(4-6)
proof (induction "unat k" arbitrary: k)
  case 0
  then have "k = 0" "j = 0" by (simp_all add: unat_eq_0 word_le_nat_alt)
  moreover obtain e1 where "m1 0 = Some e1"
    using chainedE [OF assms(1), of k] 0 \<open>k = 0\<close> by metis
  moreover obtain e2 where "m2 0 = Some e2"
    using chainedE [OF assms(2), of k] 0 \<open>k = 0\<close> by metis
  ultimately show ?case using 0 same_entry [OF assms(3)] by simp
next
  case (Suc i)
  then have k0: "k \<noteq> 0" by auto
  obtain e1 where e1: "m1 k = Some e1" "prev_hash e1 = digest_at E m1 (k - 1)"
    using chainedE [OF assms(1) Suc.prems(2)] k0 by metis
  obtain e2 where e2: "m2 k = Some e2" "prev_hash e2 = digest_at E m2 (k - 1)"
    using chainedE [OF assms(2) Suc.prems(3)] k0 by metis
  note e = e1(1) e2(1) e1(2) e2(2)
  have "e1 = e2" by (rule same_entry [OF assms(3) e(1,2) Suc.prems(4)])
  show ?case
  proof (cases "j = k")
    case True
    with e \<open>e1 = e2\<close> show ?thesis by simp
  next
    case False
    have "unat (k - 1) = i" using Suc.hyps(2) k0 by (simp add: unat_minus_one)
    moreover have "j \<le> k - 1"
      using False Suc.prems(1) k0 by (auto simp: word_le_nat_alt unat_minus_one word_less_nat_alt
          le_less)
    ultimately show ?thesis
      using Suc.hyps(1) [of "k - 1"] Suc.prems(2,3) e \<open>e1 = e2\<close> pred_less_u64 [OF k0]
      by (auto intro: order_less_trans)
  qed
qed

section \<open>Properties\<close>

text \<open>C25: One execution. On a well-formed log that is not full, with an encoder that does not fail,
  a SPECULATE in the speculative phase is executed at index \<open>kv_size\<close>: exactly that entry is
  written, with the digest of its predecessor, every other entry is kept, the log stays well
  formed and grows by one, nothing else changes, and the one effect is the SPEC-REPLY with the
  digest of the new entry.\<close>

theorem speculate_appends:
  assumes "encode_total E" and "log_ok (state r)" and "kv_size (state r) \<noteq> - 1"
    and "phase (state r) = Speculative" and "is_Speculate m"
  shows "\<exists>store e. can_speculate r m = Some (kv_size (state r)) \<and>
    handle_speculate E r (kv_size (state r)) =
      Inr (state_update (\<lambda>s. s\<lparr>kv_store := store, kv_size := kv_size (state r) + 1\<rparr>) r,
           [Broadcast (SpecReply (node_id (state r)) (round (state r)) (kv_size (state r)) (digest_of E e))]) \<and>
    mem_ok store \<and>
    mem_lookup store = (mem_lookup (kv_store (state r)))(kv_size (state r) \<mapsto> e) \<and>
    mem_size E store = Inr (kv_size (state r) + 1) \<and>
    op_hash e = kv_size (state r) \<and> entry_result e = [] \<and>
    prev_hash e = (if kv_size (state r) = 0 then zero_hash
                   else digest_at E (mem_lookup (kv_store (state r))) (kv_size (state r) - 1))"
proof -
  let ?k = "kv_size (state r)"
  obtain store h where st: "handle_speculate E r ?k =
       Inr (state_update (\<lambda>s. s\<lparr>kv_store := store, kv_size := ?k + 1\<rparr>) r,
            [Broadcast (SpecReply (node_id (state r)) (round (state r)) ?k h)])"
    "mem_ok store" "log_shape (mem_lookup store) (?k + 1)"
    "mem_lookup store = (mem_lookup (kv_store (state r)))(?k \<mapsto> next_entry E (kv_store (state r)) ?k)"
    "entry_hash E (next_entry E (kv_store (state r)) ?k) = Inr h"
    by (rule handle_speculate_ok [OF assms(1-3)])
  have "can_speculate r m = Some ?k" using assms(4,5) by (simp add: can_speculate_def)
  moreover have "mem_size E store = Inr (?k + 1)" using mem.log_size [OF st(2,3)] .
  moreover have "h = digest_of E (next_entry E (kv_store (state r)) ?k)"
    using st(5) by (simp add: digest_of_def)
  ultimately show ?thesis
    using st(1,2,4) by (intro exI [of _ store] exI [of _ "next_entry E (kv_store (state r)) ?k"]) simp
qed

lemma speculate_appends_witness:
  "\<exists>store r' es. handle_speculate demo_env (fresh_replica six_config ''r0'') 0 = Inr (r', es) \<and>
     kv_store (state r') = store \<and> mem_size demo_env store = Inr 1"
  using speculate_appends [of demo_env "fresh_replica six_config ''r0''" "Speculate ''s'' 0 zero_hash 0"]
  by (auto simp: fresh_replica_def initial_state_def log_ok_def)

text \<open>Equal digests, equal logs. If the entries of two chained logs have the same digest at an
  index, the logs agree at every index up to it, unless two different entries of theirs have
  one digest. So matching SPEC-REPLYs stand for matching logs.\<close>

theorem equal_digests_equal_logs:
  assumes "chained E L m" and "chained E L' n" and "inj_on (digest_of E) (ran L \<union> ran L')"
    and "k < m" and "k < n" and "digest_at E L k = digest_at E L' k"
  shows "\<forall>j \<le> k. L j = L' j"
  using chain_agree [OF assms] by blast

definition demo_log :: "u64 \<Rightarrow> kv_entry option" where
  "demo_log = [0 \<mapsto> \<lparr>op_hash = 0, entry_result = [], prev_hash = zero_hash\<rparr>]"

definition demo_longer_log :: "u64 \<Rightarrow> kv_entry option" where
  "demo_longer_log = demo_log(1 \<mapsto> \<lparr>op_hash = 1, entry_result = [], prev_hash = zero_hash\<rparr>)"

lemma demo_log_facts:
  "chained demo_env demo_log 1" "chained demo_env demo_longer_log 1"
  "inj_on (digest_of demo_env) (ran demo_log \<union> ran demo_longer_log)"
proof -
  have zero: "k = 0" if "k < 1" for k :: u64
    using that by (simp add: word_less_nat_alt unat_eq_0)
  show "chained demo_env demo_log 1" "chained demo_env demo_longer_log 1"
    using zero by (fastforce simp: chained_def demo_log_def demo_longer_log_def)+
  have "digest_of demo_env \<lparr>op_hash = 0, entry_result = [], prev_hash = zero_hash\<rparr> \<noteq>
      digest_of demo_env \<lparr>op_hash = 1, entry_result = [], prev_hash = zero_hash\<rparr>"
    by code_simp
  then show "inj_on (digest_of demo_env) (ran demo_log \<union> ran demo_longer_log)"
    by (auto simp: inj_on_def demo_log_def demo_longer_log_def ran_def split: if_splits)
qed

lemma equal_digests_equal_logs_witness:
  "demo_log 0 = demo_longer_log 0 \<and> demo_log 1 \<noteq> demo_longer_log 1"
proof -
  have "digest_at demo_env demo_log 0 = digest_at demo_env demo_longer_log 0"
    by (simp add: digest_at_def demo_log_def demo_longer_log_def)
  from equal_digests_equal_logs [OF demo_log_facts _ _ this]
  show ?thesis by (simp add: demo_log_def demo_longer_log_def)
qed

end
