(* ===== verification/Checkpoint.thy ===== *)
theory Checkpoint
  imports Replica_State
begin

text \<open>
  The checkpoint sub-protocol (\<^verbatim>\<open>checkpoint.rs\<close>): when a replica broadcasts a SYNC, when the
  SYNCs it holds form a checkpoint, and what recording the checkpoint does.
\<close>

section \<open>Guards and handlers\<close>

definition can_send_sync_on_event :: "replica \<Rightarrow> event \<Rightarrow> u64 option" where
  "can_send_sync_on_event r ev =
     (if ev \<noteq> SyncTimeout then None
      else if phase (state r) \<noteq> Speculative then None
      else if kv_size (state r) = 0 then None
      else Some (kv_size (state r) - 1))"

definition can_send_sync_threshold :: "replica \<Rightarrow> u64 option" where
  "can_send_sync_threshold r =
     (if phase (state r) \<noteq> Speculative then None
      else if kv_size (state r) = 0 then None
      else if kv_size (state r) \<le> chkpt_idx (state r) then None
      else Some (kv_size (state r) - 1))"

definition handle_send_sync :: "replica \<Rightarrow> u64 \<Rightarrow> effect list" where
  "handle_send_sync r log_idx =
     (let log_hash = mem_top_hash (kv_store (state r))
      in [Broadcast (Sync (node_id (state r)) (round (state r)) log_idx log_hash
                       (eta_star (state r)))])"

definition can_form_checkpoint :: "replica \<Rightarrow> u64 option" where
  "can_form_checkpoint r =
     (if phase (state r) \<noteq> Speculative then None
      else if kv_size (state r) = 0 then None
      else let log_idx = kv_size (state r) - 1;
               expected_hash = mem_top_hash (kv_store (state r));
               quorum_count = count_matching (sync_agrees (round (state r)) log_idx expected_hash)
                                (sync_msgs (state r))
           in if quorum_count \<ge> unat (fast_quorum (config r)) then Some log_idx else None)"

definition handle_form_checkpoint :: "replica \<Rightarrow> u64 \<Rightarrow> replica \<times> effect list" where
  "handle_form_checkpoint r log_idx =
     (let log_hash = mem_top_hash (kv_store (state r))
      in (state_update (\<lambda>s. s\<lparr>chkpt_idx := log_idx, chkpt_hash := log_hash\<rparr>) r,
          [Broadcast (Checkpoint (node_id (state r)) (round (state r)) log_idx log_hash)]))"

definition store_sync :: "replica \<Rightarrow> message \<Rightarrow> replica" where
  "store_sync r msg =
     (if is_Sync msg then state_update (sync_msgs_update (finsert msg)) r else r)"

definition on_receive_sync :: "replica \<Rightarrow> message \<Rightarrow> replica \<times> effect list" where
  "on_receive_sync r msg =
     (let r' = store_sync r msg
      in case can_form_checkpoint r' of
           Some log_idx \<Rightarrow> handle_form_checkpoint r' log_idx
         | None \<Rightarrow> (r', []))"

section \<open>Properties\<close>

text \<open>C39: A checkpoint quorum counts messages, not senders. Messages differ when their \<open>eta_star\<close>
  differs, so a replica that holds \<open>fast_quorum\<close> SYNCs of a single sender for its round, top
  index and top hash forms a checkpoint and announces it.\<close>

theorem lone_sender_checkpoint:
  assumes "phase (state r) = Speculative" and "kv_size (state r) \<noteq> 0"
    and "\<And>e. unat e < unat (fast_quorum (config r)) \<Longrightarrow>
      Sync q (round (state r)) (kv_size (state r) - 1) (mem_top_hash (kv_store (state r))) e
        |\<in>| sync_msgs (state r)"
    and "\<not> is_Sync m"
  shows "on_receive_sync r m =
    (state_update (\<lambda>s. s\<lparr>chkpt_idx := kv_size s - 1, chkpt_hash := mem_top_hash (kv_store s)\<rparr>) r,
     [Broadcast (Checkpoint (node_id (state r)) (round (state r)) (kv_size (state r) - 1)
        (mem_top_hash (kv_store (state r))))])"
proof -
  let ?k = "kv_size (state r) - 1" and ?h = "mem_top_hash (kv_store (state r))"
  let ?p = "sync_agrees (round (state r)) ?k ?h"
  let ?fq = "fast_quorum (config r)"
  have "unat ?fq \<le> count_matching ?p (sync_msgs (state r))"
    by (rule count_matching_range [of "Sync q (round (state r)) ?k ?h"])
      (use assms(3) in \<open>simp_all add: inj_def word_less_nat_alt\<close>)
  then have "can_form_checkpoint r = Some ?k"
    using assms(1,2) by (simp add: can_form_checkpoint_def Let_def)
  with assms(4) show ?thesis
    by (simp add: on_receive_sync_def store_sync_def Let_def handle_form_checkpoint_def)
qed

definition demo_sync_replica :: replica where
  "demo_sync_replica = state_update (\<lambda>s. s\<lparr>kv_size := 1,
     kv_store := mem_new\<lparr>entries := [(0, \<lparr>op_hash = 0, entry_result = [], prev_hash = zero_hash\<rparr>)]\<rparr>,
     sync_msgs := fset_of_list (map (Sync ''r5'' 0 0 zero_hash) [0, 1, 2, 3, 4])\<rparr>)
     (fresh_replica six_config ''r0'')"

lemma lone_sender_checkpoint_witness:
  "snd (on_receive_sync demo_sync_replica (TimeoutMsg ''r1'' 0 0)) =
     [Broadcast (Checkpoint ''r0'' 0 0 zero_hash)]"
proof -
  have small: "e \<in> {0, 1, 2, 3, 4}" if "unat e < 5" for e :: u64
  proof -
    have "unat e = unat (0 :: u64) \<or> unat e = unat (1 :: u64) \<or> unat e = unat (2 :: u64) \<or>
        unat e = unat (3 :: u64) \<or> unat e = unat (4 :: u64)" using that by simp linarith
    then show ?thesis unfolding unat_eq_iff by blast
  qed
  show ?thesis
    using lone_sender_checkpoint [of demo_sync_replica "''r5''" "TimeoutMsg ''r1'' 0 0"] small
    by (auto simp: demo_sync_replica_def fresh_replica_def initial_state_def six_config_def
        mem_top_hash_def bt_next_back_def mem_new_def fset_of_list.rep_eq)
qed

text \<open>The SYNC threshold never rests. Right after a checkpoint at the top of the log the
  threshold guard fires again for the same index, since it compares the size of the log with the
  index of the checkpoint; so every message a speculative replica with a non-empty log handles
  makes it broadcast a SYNC.\<close>

theorem sync_after_checkpoint:
  assumes "phase (state r) = Speculative" and "kv_size (state r) \<noteq> 0"
  shows "can_send_sync_threshold (fst (handle_form_checkpoint r (kv_size (state r) - 1)))
    = Some (kv_size (state r) - 1)"
proof -
  have "\<not> kv_size (state r) \<le> kv_size (state r) - 1"
    using assms(2) by (simp add: word_le_nat_alt unat_minus_one not_le unat_gt_0)
  then show ?thesis using assms
    by (simp add: handle_form_checkpoint_def can_send_sync_threshold_def Let_def)
qed

lemma sync_after_checkpoint_witness:
  "can_send_sync_threshold (fst (handle_form_checkpoint demo_sync_replica 0)) = Some 0"
  using sync_after_checkpoint [of demo_sync_replica]
  by (simp add: demo_sync_replica_def fresh_replica_def initial_state_def)

end
