(* ===== verification/Alignment.thy ===== *)
theory Alignment
  imports Replica_State
begin

text \<open>
  The alignment sub-protocol (\<^verbatim>\<open>alignment.rs\<close>): entering it on f+1 CHECKPOINTs, answering state
  requests, and rebuilding the log from a state reply.
\<close>

section \<open>Guards and handlers\<close>

definition can_enter_align :: "replica \<Rightarrow> u64 option" where
  "can_enter_align r =
     (if phase (state r) \<noteq> Speculative then None
      else let idx = chkpt_idx (state r); rd = round (state r);
               sender_count = count_matching (chkpt_matches rd idx) (chkpt_msgs (state r))
           in if sender_count \<ge> unat (f_plus_1 (config r)) then Some idx else None)"

definition handle_enter_align :: "replica \<Rightarrow> u64 \<Rightarrow> replica \<times> effect list" where
  "handle_enter_align r idx =
     (state_update (\<lambda>s. s\<lparr>phase := Aligning\<rparr>) r,
      [Broadcast (StateRequest (node_id (state r)) idx)])"

definition store_chkpt :: "replica \<Rightarrow> message \<Rightarrow> replica" where
  "store_chkpt r msg =
     (if is_Checkpoint msg then state_update (chkpt_msgs_update (finsert msg)) r else r)"

definition on_receive_checkpoint :: "replica \<Rightarrow> message \<Rightarrow> replica \<times> effect list" where
  "on_receive_checkpoint r msg =
     (let r' = store_chkpt r msg
      in case can_enter_align r' of
           Some idx \<Rightarrow> handle_enter_align r' idx
         | None \<Rightarrow> (r', []))"

fun can_state_request :: "message \<Rightarrow> node_id option" where
  "can_state_request (StateRequest from_node idx) = Some from_node"
| "can_state_request msg = None"

definition handle_state_request :: "replica \<Rightarrow> node_id \<Rightarrow> effect list" where
  "handle_state_request r requester =
     [Send requester
        (StateReply (node_id (state r)) (chkpt_idx (state r)) (chkpt_hash (state r)))]"

definition can_state_reply :: "replica \<Rightarrow> message \<Rightarrow> u64 option" where
  "can_state_reply r msg =
     (if phase (state r) \<noteq> Aligning then None
      else case msg of StateReply from_node idx h \<Rightarrow> Some idx | _ \<Rightarrow> None)"

definition handle_state_reply :: "env \<Rightarrow> replica \<Rightarrow> u64 \<Rightarrow> (replica \<times> effect list) outcome" where
  "handle_state_reply E r idx =
     (let es = map (\<lambda>k. (k, synthetic_entry k)) (map of_nat [0..<Suc (unat idx)])
      in bind_outcome
           (expect ''rebuild failed'' (mem_rebuild_from_entries (kv_store (state r)) es))
           (\<lambda>store.
         bind_outcome (add_u64 (overflow_checks E) idx 1)
           (\<lambda>size'.
              Inr (state_update (\<lambda>s. s\<lparr>kv_store := store, phase := Speculative, chkpt_idx := idx,
                     chkpt_hash := unwrap_or zero_hash (mem_hash_at E store idx),
                     kv_size := size', start_idx := idx\<rparr>) r,
                   []))))"

section \<open>Rebuilding the log\<close>

lemma unat_Suc_range: "k \<noteq> - 1 \<Longrightarrow> [0..<Suc (unat k)] = [0..<unat (k + 1 :: u64)]"
  by (simp add: unat_succ_u64)

lemma handle_state_reply_Inr:
  assumes "handle_state_reply E r k = Inr (r', es)" and "mem_ok (kv_store (state r))"
    and "k \<noteq> - 1"
  obtains store where
    "r' = state_update (\<lambda>s. s\<lparr>kv_store := store, phase := Speculative, chkpt_idx := k,
            chkpt_hash := unwrap_or zero_hash (entry_hash E (synthetic_entry k)),
            kv_size := k + 1, start_idx := k\<rparr>) r"
    "es = []" "mem_ok store" "log_shape (mem_lookup store) (k + 1)"
    "\<And>j. j \<le> k \<Longrightarrow> mem_lookup store j = Some (synthetic_entry j)"
proof -
  obtain store where rb: "mem_rebuild_from_entries (kv_store (state r))
      (map (\<lambda>k. (k, synthetic_entry k)) (map of_nat [0..<unat (k + 1)])) = Inr store"
    and r': "r' = state_update (\<lambda>s. s\<lparr>kv_store := store, phase := Speculative, chkpt_idx := k,
            chkpt_hash := unwrap_or zero_hash (mem_hash_at E store k),
            kv_size := k + 1, start_idx := k\<rparr>) r" and es: "es = []"
    using assms(1,3)
    by (auto simp: handle_state_reply_def Let_def bind_outcome_Inr_iff expect_Inr_iff
             add_u64_one_ok unat_Suc_range simp del: upt_Suc map_map)
  note built = mem.rebuild_range [OF assms(2) rb]
  have below: "mem_lookup store j = Some (synthetic_entry j)" if "j \<le> k" for j
    using built that less_succ_u64 [OF assms(3), of j] by blast
  then have "mem_hash_at E store k = entry_hash E (synthetic_entry k)"
    using built by (intro mem.hash_at_Some) auto
  then show ?thesis using that [of store] r' es built below by simp
qed

lemma handle_state_reply_ok:
  assumes "k \<noteq> - 1"
  shows "\<exists>r'. handle_state_reply E r k = Inr (r', [])"
  using assms
  by (simp add: handle_state_reply_def Let_def mem_rebuild_from_entries_def add_u64_one_ok)

lemma handle_state_reply_panic:
  "handle_state_reply E r k = Inl e \<longleftrightarrow>
     overflow_checks E \<and> k = - 1 \<and> e = ArithmeticOverflow"
  by (auto simp: handle_state_reply_def Let_def mem_rebuild_from_entries_def add_u64_one_eq)

section \<open>Properties\<close>

text \<open>C26: Rebuilding from a STATE-REPLY. In the aligning phase a STATE-REPLY for an index below
  \<open>u64::MAX\<close> replaces the log by the synthetic entries \<open>0 \<dots> idx\<close>, whatever the store held and
  whatever sender and hash the reply names; the checkpoint becomes \<open>idx\<close> with the digest of the
  last synthetic entry, the phase becomes speculative, and nothing is sent.\<close>

theorem state_reply_rebuilds:
  assumes "mem_ok (kv_store (state r))" and "phase (state r) = Aligning" and "k \<noteq> - 1"
  shows "\<exists>r'. can_state_reply r (StateReply q k h) = Some k \<and> handle_state_reply E r k = Inr (r', []) \<and>
    mem_ok (kv_store (state r')) \<and>
    (\<forall>j. mem_lookup (kv_store (state r')) j = (if j \<le> k then Some (synthetic_entry j) else None)) \<and>
    phase (state r') = Speculative \<and> kv_size (state r') = k + 1 \<and> start_idx (state r') = k \<and>
    chkpt_idx (state r') = k \<and>
    chkpt_hash (state r') = unwrap_or zero_hash (entry_hash E (synthetic_entry k)) \<and>
    round (state r') = round (state r) \<and> view (state r') = view (state r)"
proof -
  obtain r' where r': "handle_state_reply E r k = Inr (r', [])"
    using handle_state_reply_ok [OF assms(3)] by blast
  from r' assms(1,3) obtain store where st:
    "r' = state_update (\<lambda>s. s\<lparr>kv_store := store, phase := Speculative, chkpt_idx := k,
            chkpt_hash := unwrap_or zero_hash (entry_hash E (synthetic_entry k)),
            kv_size := k + 1, start_idx := k\<rparr>) r"
    "([] :: effect list) = []" "mem_ok store" "log_shape (mem_lookup store) (k + 1)"
    "\<And>j. j \<le> k \<Longrightarrow> mem_lookup store j = Some (synthetic_entry j)"
    by (rule handle_state_reply_Inr) (rule that; blast)
  have above: "mem_lookup store j = None" if "\<not> j \<le> k" for j
    using st(4) that less_succ_u64 [OF assms(3), of j] unfolding log_shape_def by blast
  show ?thesis
    using r' st above assms(2) by (intro exI [of _ r']) (simp add: can_state_reply_def)
qed

lemma state_reply_rebuilds_witness:
  "\<exists>r'. handle_state_reply demo_env (state_update (phase_update (\<lambda>p. Aligning))
          (fresh_replica six_config ''r0'')) 3 = Inr (r', []) \<and> kv_size (state r') = 4"
  using state_reply_rebuilds [of "state_update (phase_update (\<lambda>p. Aligning)) (fresh_replica six_config ''r0'')" 3 "''r1''" zero_hash demo_env]
  by (auto simp: fresh_replica_def initial_state_def)

text \<open>A STATE-REPLY can crash an aligning replica. In a build with overflow checks
  \<open>handle_state_reply\<close> panics for the index \<open>u64::MAX\<close> and for no other.\<close>

theorem state_reply_panics_iff:
  "(\<exists>e. handle_state_reply E r k = Inl e) \<longleftrightarrow> overflow_checks E \<and> k = - 1"
  by (simp add: handle_state_reply_panic)

end
