(* ===== verification/Repair_Entry.thy ===== *)
theory Repair_Entry
  imports Replica_State
begin

text \<open>
  Entering REPAIR (\<^verbatim>\<open>repair_entry.rs\<close>): conflict proofs from SYNCs, timeout proofs from TIMEOUTs,
  and proofs received from other replicas.
\<close>

section \<open>Guards and handlers\<close>

definition can_conflict_proof :: "replica \<Rightarrow> u64 option" where
  "can_conflict_proof r =
     (if phase (state r) \<noteq> Speculative then None
      else if kv_size (state r) = 0 then None
      else if in_repair (state r) then None
      else let log_idx = kv_size (state r) - 1; rd = round (state r);
               expected_hash = mem_top_hash (kv_store (state r));
               total = count_matching (sync_matches rd log_idx) (sync_msgs (state r));
               consist = count_matching (sync_agrees rd log_idx expected_hash)
                           (sync_msgs (state r))
           in if total \<ge> unat (byz_quorum (config r)) \<and> consist < unat (fast_quorum (config r))
              then Some log_idx else None)"

text \<open>The transition into REPAIR that the three entry handlers share.\<close>

definition start_repair :: "replica \<Rightarrow> replica" where
  "start_repair r = state_update (\<lambda>s. s\<lparr>phase := CollectingLogs, in_repair := True\<rparr>) r"

definition own_log_msg :: "replica \<Rightarrow> message" where
  "own_log_msg r =
     LogMsg (node_id (state r)) (view (state r)) (round (state r)) (mem_top_hash (kv_store (state r)))"

definition handle_conflict_proof :: "replica \<Rightarrow> u64 \<Rightarrow> replica \<times> effect list" where
  "handle_conflict_proof r log_idx =
     (start_repair r,
      [Broadcast (ConflictProof (round (state r)) log_idx), Broadcast (own_log_msg r)])"

definition can_chkpt_timeout :: "replica \<Rightarrow> event \<Rightarrow> u64 option" where
  "can_chkpt_timeout r ev =
     (if phase (state r) \<noteq> Speculative then None
      else if in_repair (state r) then None
      else case ev of ChkptTimeout log_idx \<Rightarrow> Some log_idx | _ \<Rightarrow> None)"

definition handle_chkpt_timeout :: "replica \<Rightarrow> u64 \<Rightarrow> effect list" where
  "handle_chkpt_timeout r log_idx =
     [Broadcast (TimeoutMsg (node_id (state r)) (round (state r)) log_idx)]"

definition can_timeout_proof :: "replica \<Rightarrow> u64 option" where
  "can_timeout_proof r =
     (if phase (state r) \<noteq> Speculative then None
      else if in_repair (state r) then None
      else if kv_size (state r) = 0 then None
      else let log_idx = kv_size (state r) - 1; rd = round (state r);
               cnt = count_matching (timeout_matches rd log_idx) (timeout_msgs (state r))
           in if cnt \<ge> unat (f_plus_1 (config r)) then Some log_idx else None)"

definition handle_timeout_proof :: "replica \<Rightarrow> u64 \<Rightarrow> replica \<times> effect list" where
  "handle_timeout_proof r log_idx =
     (start_repair r,
      [Broadcast (TimeoutProof (round (state r)) log_idx), Broadcast (own_log_msg r)])"

definition store_timeout :: "replica \<Rightarrow> message \<Rightarrow> replica" where
  "store_timeout r msg =
     (if is_TimeoutMsg msg then state_update (timeout_msgs_update (finsert msg)) r else r)"

definition on_receive_timeout :: "replica \<Rightarrow> message \<Rightarrow> replica \<times> effect list" where
  "on_receive_timeout r msg =
     (let r' = store_timeout r msg
      in case can_timeout_proof r' of
           Some log_idx \<Rightarrow> handle_timeout_proof r' log_idx
         | None \<Rightarrow> (r', []))"

definition can_enter_repair :: "replica \<Rightarrow> message \<Rightarrow> u64 option" where
  "can_enter_repair r msg =
     (if in_repair (state r) then None
      else if is_TimeoutProof msg \<or> is_ConflictProof msg then Some (round (state r))
      else None)"

definition handle_enter_repair :: "replica \<Rightarrow> u64 \<Rightarrow> replica \<times> effect list" where
  "handle_enter_repair r rd = (start_repair r, [Broadcast (own_log_msg r)])"

end
