(* ===== verification/Repair.thy ===== *)
theory Repair
  imports Replica_State
begin

text \<open>
  REPAIR agreement (\<^verbatim>\<open>repair.rs\<close>): the leader's history proposal, the prepare and commit votes,
  applying the merged history, catching up on REPAIR-DONE, and the view change.
\<close>

section \<open>Proposing a history\<close>

definition can_broadcast_history :: "replica \<Rightarrow> u64 option" where
  "can_broadcast_history r =
     (if phase (state r) \<noteq> CollectingLogs then None
      else if \<not> is_leader r then None
      else let vw = view (state r); rd = round (state r);
               ss = senders (log_matches vw rd) (log_msgs (state r))
           in if card ss \<ge> unat (byz_quorum (config r)) then Some (of_nat (card ss)) else None)"

definition handle_broadcast_history :: "replica \<Rightarrow> u64 \<Rightarrow> replica \<times> effect list" where
  "handle_broadcast_history r hist =
     (state_update (\<lambda>s. s\<lparr>phase := PreparePhase, proposed_history_hash := hist\<rparr>) r,
      [Broadcast (RepairHistory (node_id (state r)) (view (state r)) (round (state r)) hist)])"

definition store_log :: "replica \<Rightarrow> message \<Rightarrow> replica" where
  "store_log r msg =
     (if is_LogMsg msg then state_update (log_msgs_update (finsert msg)) r else r)"

definition on_receive_log_msg :: "replica \<Rightarrow> message \<Rightarrow> replica \<times> effect list" where
  "on_receive_log_msg r msg =
     (let r' = store_log r msg
      in case can_broadcast_history r' of
           Some hist \<Rightarrow> handle_broadcast_history r' hist
         | None \<Rightarrow> (r', []))"

section \<open>Prepare and commit votes\<close>

text \<open>\<open>iter().find_map(..)\<close>: the first match in the order the set is visited.\<close>

fun find_map :: "('a \<Rightarrow> 'b option) \<Rightarrow> 'a list \<Rightarrow> 'b option" where
  "find_map g [] = None"
| "find_map g (x # xs) = (case g x of Some y \<Rightarrow> Some y | None \<Rightarrow> find_map g xs)"

fun history_of :: "u64 \<Rightarrow> u64 \<Rightarrow> message \<Rightarrow> u64 option" where
  "history_of vw rd (RepairHistory s v r h) = (if v = vw \<and> r = rd then Some h else None)"
| "history_of vw rd m = None"

definition can_repair_prepare :: "env \<Rightarrow> replica \<Rightarrow> u64 option" where
  "can_repair_prepare E r =
     (if phase (state r) \<noteq> CollectingLogs \<and> phase (state r) \<noteq> PreparePhase then None
      else find_map (history_of (view (state r)) (round (state r)))
             (iter_msgs E (repair_history_msgs (state r))))"

definition handle_repair_prepare :: "replica \<Rightarrow> u64 \<Rightarrow> replica \<times> effect list" where
  "handle_repair_prepare r hist =
     (state_update (\<lambda>s. s\<lparr>phase := PreparePhase, proposed_history_hash := hist\<rparr>) r,
      [Broadcast (RepairPrepare (node_id (state r)) (view (state r)) (round (state r)) hist)])"

definition store_history :: "replica \<Rightarrow> message \<Rightarrow> replica" where
  "store_history r msg =
     (if is_RepairHistory msg
      then state_update (repair_history_msgs_update (finsert msg)) r else r)"

definition on_receive_repair_history :: "env \<Rightarrow> replica \<Rightarrow> message \<Rightarrow> replica \<times> effect list" where
  "on_receive_repair_history E r msg =
     (let r' = store_history r msg
      in case can_repair_prepare E r' of
           Some hist \<Rightarrow> handle_repair_prepare r' hist
         | None \<Rightarrow> (r', []))"

definition can_repair_commit :: "replica \<Rightarrow> u64 option" where
  "can_repair_commit r =
     (if phase (state r) \<noteq> PreparePhase then None
      else let vw = view (state r); rd = round (state r);
               hist = proposed_history_hash (state r);
               cnt = count_matching (prepare_matches vw rd hist) (repair_prepare_msgs (state r))
           in if cnt \<ge> unat (byz_quorum (config r)) then Some hist else None)"

definition handle_repair_commit :: "replica \<Rightarrow> u64 \<Rightarrow> replica \<times> effect list" where
  "handle_repair_commit r hist =
     (state_update (\<lambda>s. s\<lparr>phase := CommitPhase\<rparr>) r,
      [Broadcast (RepairCommit (node_id (state r)) (view (state r)) (round (state r)) hist)])"

definition store_prepare :: "replica \<Rightarrow> message \<Rightarrow> replica" where
  "store_prepare r msg =
     (if is_RepairPrepare msg
      then state_update (repair_prepare_msgs_update (finsert msg)) r else r)"

definition on_receive_repair_prepare :: "replica \<Rightarrow> message \<Rightarrow> replica \<times> effect list" where
  "on_receive_repair_prepare r msg =
     (let r' = store_prepare r msg
      in case can_repair_commit r' of
           Some hist \<Rightarrow> handle_repair_commit r' hist
         | None \<Rightarrow> (r', []))"

section \<open>Applying the history\<close>

definition can_apply_repair :: "replica \<Rightarrow> u64 option" where
  "can_apply_repair r =
     (if phase (state r) \<noteq> CommitPhase then None
      else let vw = view (state r); rd = round (state r);
               hist = proposed_history_hash (state r);
               cnt = count_matching (commit_matches vw rd hist) (repair_commit_msgs (state r))
           in if cnt \<ge> unat (byz_quorum (config r)) then Some hist else None)"

definition handle_apply_repair :: "env \<Rightarrow> replica \<Rightarrow> u64 \<Rightarrow> (replica \<times> effect list) outcome" where
  "handle_apply_repair E r hist =
     (let merged_size = hist; old_round = round (state r); old_kv_size = kv_size (state r);
          es = map (\<lambda>k. (k, synthetic_entry k)) (map of_nat [0..<unat merged_size])
      in bind_outcome
           (if merged_size > 0
            then expect ''rebuild failed'' (mem_rebuild_from_entries (kv_store (state r)) es)
            else Inr (kv_store (state r)))
           (\<lambda>store.
         bind_outcome (add_u64 (overflow_checks E) old_round 1)
           (\<lambda>round'.
              Inr (state_update (\<lambda>s. s\<lparr>kv_store := store, phase := Speculative, round := round',
                     start_idx := merged_size, kv_size := merged_size, in_repair := False,
                     proposed_history_hash := 0\<rparr>) r,
                   [Broadcast (RepairDone (node_id (state r)) (view (state r)) old_round hist),
                    Broadcast (CommittedReply (node_id (state r)) old_round old_kv_size)]))))"

definition store_commit :: "replica \<Rightarrow> message \<Rightarrow> replica" where
  "store_commit r msg =
     (if is_RepairCommit msg
      then state_update (repair_commit_msgs_update (finsert msg)) r else r)"

definition on_receive_repair_commit ::
    "env \<Rightarrow> replica \<Rightarrow> message \<Rightarrow> (replica \<times> effect list) outcome" where
  "on_receive_repair_commit E r msg =
     (let r' = store_commit r msg
      in case can_apply_repair r' of
           Some hist \<Rightarrow> handle_apply_repair E r' hist
         | None \<Rightarrow> Inr (r', []))"

section \<open>Catching up\<close>

definition can_repair_done_catchup :: "replica \<Rightarrow> u64 option" where
  "can_repair_done_catchup r =
     (if phase (state r) \<notin> {CollectingLogs, PreparePhase, CommitPhase} then None
      else let vw = view (state r); rd = round (state r);
               done_count = count_matching (done_matches vw rd) (repair_done_msgs (state r));
               has_hist = fBex (repair_history_msgs (state r)) (history_matches vw rd)
           in if done_count \<ge> unat (f_plus_1 (config r)) \<and> has_hist then Some rd else None)"

definition handle_repair_done_catchup ::
    "env \<Rightarrow> replica \<Rightarrow> u64 \<Rightarrow> (replica \<times> effect list) outcome" where
  "handle_repair_done_catchup E r rd =
     bind_outcome (add_u64 (overflow_checks E) (round (state r)) 1)
       (\<lambda>round'.
          Inr (state_update (\<lambda>s. s\<lparr>phase := Speculative, round := round',
                 start_idx := kv_size s, in_repair := False, proposed_history_hash := 0\<rparr>) r,
               []))"

definition store_done :: "replica \<Rightarrow> message \<Rightarrow> replica" where
  "store_done r msg =
     (if is_RepairDone msg then state_update (repair_done_msgs_update (finsert msg)) r else r)"

definition on_receive_repair_done ::
    "env \<Rightarrow> replica \<Rightarrow> message \<Rightarrow> (replica \<times> effect list) outcome" where
  "on_receive_repair_done E r msg =
     (let r' = store_done r msg
      in case can_repair_done_catchup r' of
           Some rd \<Rightarrow> handle_repair_done_catchup E r' rd
         | None \<Rightarrow> Inr (r', []))"

section \<open>View change\<close>

definition can_view_change :: "env \<Rightarrow> replica \<Rightarrow> event \<Rightarrow> u64 option outcome" where
  "can_view_change E r ev =
     (if phase (state r) \<noteq> CollectingLogs then Inr None
      else if ev = RepairViewTimeout
           then bind_outcome (add_u64 (overflow_checks E) (view (state r)) 1) (\<lambda>v. Inr (Some v))
           else Inr None)"

definition handle_view_change :: "replica \<Rightarrow> u64 \<Rightarrow> replica \<times> effect list" where
  "handle_view_change r new_view =
     (state_update (\<lambda>s. s\<lparr>view := new_view\<rparr>) r,
      [Broadcast (LogMsg (node_id (state r)) new_view (round (state r))
                    (mem_top_hash (kv_store (state r))))])"

section \<open>The effect of applying a history\<close>

text \<open>The log that a repair leaves: synthetic entries at the indices below \<open>h\<close>, whatever it held before.\<close>

definition synthetic_log :: "u64 \<Rightarrow> mem_inner \<Rightarrow> bool" where
  "synthetic_log h s \<longleftrightarrow> mem_ok s \<and>
     mem_lookup s = (\<lambda>j. if j < h then Some (synthetic_entry j) else None)"

lemma rebuild_synthetic:
  assumes "mem_rebuild_from_entries s (map (\<lambda>k. (k, synthetic_entry k)) (map of_nat [0..<unat h])) = Inr t"
  shows "synthetic_log h t"
proof -
  let ?es = "map (\<lambda>k. (k, synthetic_entry k)) (map of_nat [0..<unat h])"
  have "bt_ok (entries t)" "bt_get (entries t) = map_of (rev ?es)"
    using assms foldl_bt_insert [of "[]" ?es] by (auto simp: mem_rebuild_from_entries_def simp del: map_map)
  moreover have "map_of (rev ?es) = (Some \<circ> synthetic_entry) |` {k. k < h}"
    by (subst rev_map) (simp only: map_of_map_restrict set_rev set_range_u64)
  ultimately show ?thesis
    by (simp add: synthetic_log_def mem_ok_def mem_lookup_def restrict_map_def fun_eq_iff)
qed

lemma handle_apply_repair_Inr:
  assumes "handle_apply_repair E r h = Inr (r', es)" and "mem_ok (kv_store (state r))"
  obtains store round' where
    "add_u64 (overflow_checks E) (round (state r)) 1 = Inr round'"
    "r' = state_update (\<lambda>s. s\<lparr>kv_store := store, phase := Speculative, round := round',
            start_idx := h, kv_size := h, in_repair := False, proposed_history_hash := 0\<rparr>) r"
    "es = [Broadcast (RepairDone (node_id (state r)) (view (state r)) (round (state r)) h),
           Broadcast (CommittedReply (node_id (state r)) (round (state r)) (kv_size (state r)))]"
    "mem_ok store" "h = 0 \<Longrightarrow> store = kv_store (state r)"
    "h \<noteq> 0 \<Longrightarrow> log_shape (mem_lookup store) h"
    "\<And>j. h \<noteq> 0 \<Longrightarrow> j < h \<Longrightarrow> mem_lookup store j = Some (synthetic_entry j)"
proof (cases "h = 0")
  case True
  with assms that show ?thesis
    by (auto simp: handle_apply_repair_def Let_def bind_outcome_Inr_iff)
next
  case False
  obtain store round' where rb: "mem_rebuild_from_entries (kv_store (state r))
      (map (\<lambda>k. (k, synthetic_entry k)) (map of_nat [0..<unat h])) = Inr store"
    and "add_u64 (overflow_checks E) (round (state r)) 1 = Inr round'"
    and "r' = state_update (\<lambda>s. s\<lparr>kv_store := store, phase := Speculative, round := round',
            start_idx := h, kv_size := h, in_repair := False, proposed_history_hash := 0\<rparr>) r"
    and "es = [Broadcast (RepairDone (node_id (state r)) (view (state r)) (round (state r)) h),
           Broadcast (CommittedReply (node_id (state r)) (round (state r)) (kv_size (state r)))]"
    using assms(1) False
    by (auto simp: handle_apply_repair_def Let_def bind_outcome_Inr_iff expect_Inr_iff word_gt_0
             simp del: map_map)
  then show ?thesis
    using that [of round' store] mem.rebuild_range [OF assms(2) rb] False by simp
qed

section \<open>Properties\<close>

text \<open>C20: Applying a repaired history. A replica in the commit phase that holds REPAIR-COMMITs of a
  Byzantine quorum for its non-zero history \<open>h\<close> rebuilds its log as the \<open>h\<close> synthetic entries
  \<open>0 \<dots> h - 1\<close>, returns to the speculative phase in the next round, leaves REPAIR, and
  broadcasts REPAIR-DONE and then COMMITTED-REPLY for the round it finished.\<close>

theorem apply_repair_effect:
  assumes "mem_ok (kv_store (state r))" and "phase (state r) = CommitPhase"
    and "proposed_history_hash (state r) = h" and "h \<noteq> 0" and "round (state r) \<noteq> - 1"
    and "unat (byz_quorum (config r)) \<le>
      card {s. RepairCommit s (view (state r)) (round (state r)) h |\<in>| repair_commit_msgs (state r)}"
  shows "\<exists>r'. can_apply_repair r = Some h \<and> handle_apply_repair E r h = Inr (r',
      [Broadcast (RepairDone (node_id (state r)) (view (state r)) (round (state r)) h),
       Broadcast (CommittedReply (node_id (state r)) (round (state r)) (kv_size (state r)))]) \<and>
    (\<forall>j. mem_lookup (kv_store (state r')) j = (if j < h then Some (synthetic_entry j) else None)) \<and>
    kv_size (state r') = h \<and> start_idx (state r') = h \<and> phase (state r') = Speculative \<and>
    round (state r') = round (state r) + 1 \<and> view (state r') = view (state r) \<and>
    \<not> in_repair (state r') \<and> proposed_history_hash (state r') = 0"
proof -
  have "commit_matches v rd h m \<longleftrightarrow> (\<exists>s. m = RepairCommit s v rd h)" for v rd m
    by (cases m) auto
  then have "senders (commit_matches v rd h) S = {s. RepairCommit s v rd h |\<in>| S}" for v rd S
    by (auto simp: senders_Collect)
  then have guard: "can_apply_repair r = Some h"
    using assms(2,3,6) one_per_sender_patterns(3)
    by (simp add: can_apply_repair_def Let_def count_eq_senders)
  have "\<exists>w. handle_apply_repair E r h = Inr w"
    using assms(5) by (simp add: handle_apply_repair_def Let_def mem_rebuild_from_entries_def
        add_u64_one_ok)
  then obtain r' es where run: "handle_apply_repair E r h = Inr (r', es)" by auto
  from run assms(1) obtain store round' where st:
    "add_u64 (overflow_checks E) (round (state r)) 1 = Inr round'"
    "r' = state_update (\<lambda>s. s\<lparr>kv_store := store, phase := Speculative, round := round',
            start_idx := h, kv_size := h, in_repair := False, proposed_history_hash := 0\<rparr>) r"
    "es = [Broadcast (RepairDone (node_id (state r)) (view (state r)) (round (state r)) h),
           Broadcast (CommittedReply (node_id (state r)) (round (state r)) (kv_size (state r)))]"
    "h \<noteq> 0 \<Longrightarrow> log_shape (mem_lookup store) h"
    "\<And>j. h \<noteq> 0 \<Longrightarrow> j < h \<Longrightarrow> mem_lookup store j = Some (synthetic_entry j)"
    by (rule handle_apply_repair_Inr) blast
  have above: "mem_lookup store j = None" if "\<not> j < h" for j
    using st(4) [OF assms(4)] that unfolding log_shape_def by blast
  have "round' = round (state r) + 1" using add_u64_Inr [OF st(1)] .
  then show ?thesis
    using guard run st(2,3,5) above assms(4) by (intro exI [of _ r']) simp
qed

definition demo_commit_replica :: replica where
  "demo_commit_replica = state_update (\<lambda>s. s\<lparr>phase := CommitPhase, in_repair := True,
     proposed_history_hash := 5,
     repair_commit_msgs := fset_of_list (map (\<lambda>i. RepairCommit (node_name i) 0 0 5) [0..<5])\<rparr>)
     (fresh_replica six_config ''r0'')"

lemma apply_repair_effect_witness:
  "\<exists>r' es. handle_apply_repair demo_env demo_commit_replica 5 = Inr (r', es) \<and>
     kv_size (state r') = 5 \<and> round (state r') = 1"
proof -
  have "{s. RepairCommit s 0 0 5 |\<in>| fset_of_list (map (\<lambda>i. RepairCommit (node_name i) 0 0 5) [0..<5])}
      = set (map node_name [0..<5])"
    by (auto simp: fset_of_list.rep_eq)
  then have "card {s. RepairCommit s 0 0 5 |\<in>| fset_of_list (map (\<lambda>i. RepairCommit (node_name i) 0 0 5) [0..<5])} = 5"
    by (simp only: distinct_card distinct_node_names distinct_upt length_map length_upt)
  then show ?thesis
    using apply_repair_effect [of demo_commit_replica 5 demo_env]
    by (auto simp: demo_commit_replica_def fresh_replica_def initial_state_def six_config_def)
qed

text \<open>The empty history. Applying the history 0 sets \<open>kv_size\<close> to 0 but does not touch the
  store, so a replica with a non-empty log is left with a store whose size is not \<open>kv_size\<close>.\<close>

theorem apply_empty_history:
  assumes "round (state r) \<noteq> - 1" and "log_ok (state r)" and "kv_size (state r) \<noteq> 0"
  shows "\<exists>r' es. handle_apply_repair E r 0 = Inr (r', es) \<and> kv_size (state r') = 0 \<and>
    kv_store (state r') = kv_store (state r) \<and> mem_size E (kv_store (state r')) \<noteq> Inr 0 \<and>
    \<not> log_ok (state r')"
proof -
  have "mem_size E (kv_store (state r)) = Inr (kv_size (state r))"
    using assms(2) mem.log_size by (auto simp: log_ok_def)
  moreover have "mem_lookup (kv_store (state r)) 0 \<noteq> None"
    using assms(2,3) by (auto simp: log_ok_def log_shape_def word_gt_0)
  ultimately show ?thesis
    using assms(1,3)
    by (auto simp: handle_apply_repair_def Let_def add_u64_one_ok log_ok_def log_shape_def)
qed

lemma apply_empty_history_witness:
  "\<exists>r r' es. handle_apply_repair demo_env r 0 = Inr (r', es) \<and> \<not> log_ok (state r')"
proof -
  let ?e = "\<lparr>op_hash = 0, entry_result = [], prev_hash = zero_hash\<rparr>"
  let ?r = "state_update (\<lambda>s. s\<lparr>kv_size := 1, kv_store := mem_new\<lparr>entries := [(0, ?e)]\<rparr>\<rparr>)
     (fresh_replica six_config ''r0'')"
  have "k < 1 \<longleftrightarrow> k = 0" for k :: u64
    by (auto simp: word_less_nat_alt unat_eq_0)
  then have "log_ok (state ?r)"
    by (auto simp: log_ok_def log_shape_def mem_ok_def mem_lookup_def bt_ok_def bt_get_def mem_new_def
        fresh_replica_def)
  then show ?thesis
    using apply_empty_history [of ?r demo_env]
    by (auto simp: fresh_replica_def initial_state_def)
qed

definition demo_lagging_replica :: replica where
  "demo_lagging_replica = state_update (\<lambda>s. s\<lparr>phase := CollectingLogs, in_repair := True,
     repair_history_msgs := {|RepairHistory ''r0'' 0 0 5|},
     repair_done_msgs := {|RepairDone ''r3'' 0 0 0, RepairDone ''r3'' 0 0 1|}\<rparr>)
     (fresh_replica six_config ''r0'')"

text \<open>C40: Catching up on one sender's word. REPAIR-DONEs are counted per message and their history
  is not looked at, so \<open>f + 1\<close> of them from a single sender, with different histories, and any
  REPAIR-HISTORY of the view and round take a replica in any repair phase out of REPAIR and into
  the next round, with the log and \<open>kv_size\<close> it had: no history is adopted.\<close>

theorem lone_sender_catchup:
  assumes "phase (state r) \<in> {CollectingLogs, PreparePhase, CommitPhase}" and "round (state r) \<noteq> - 1"
    and "RepairHistory p (view (state r)) (round (state r)) g |\<in>| repair_history_msgs (state r)"
    and "\<And>h. h < f_plus_1 (config r) \<Longrightarrow>
      RepairDone q (view (state r)) (round (state r)) h |\<in>| repair_done_msgs (state r)"
    and "\<not> is_RepairDone m"
  shows "on_receive_repair_done E r m = Inr
    (state_update (\<lambda>s. s\<lparr>phase := Speculative, round := round s + 1, start_idx := kv_size s,
        in_repair := False, proposed_history_hash := 0\<rparr>) r, [])"
proof -
  have "unat (f_plus_1 (config r)) \<le>
      count_matching (done_matches (view (state r)) (round (state r))) (repair_done_msgs (state r))"
    by (rule count_matching_range [of "RepairDone q (view (state r)) (round (state r))"])
      (use assms(4) in \<open>simp_all add: inj_def\<close>)
  moreover have "fBex (repair_history_msgs (state r)) (history_matches (view (state r)) (round (state r)))"
    using assms(3) by (intro fBexI [of _ "RepairHistory p (view (state r)) (round (state r)) g"]) simp_all
  ultimately have "can_repair_done_catchup r = Some (round (state r))"
    using assms(1) by (simp add: can_repair_done_catchup_def Let_def)
  with assms(2,5) show ?thesis
    by (simp add: on_receive_repair_done_def store_done_def Let_def handle_repair_done_catchup_def
        add_u64_one_ok)
qed

lemma lone_sender_catchup_witness:
  "\<exists>r'. on_receive_repair_done demo_env demo_lagging_replica (TimeoutProof 0 0) = Inr (r', []) \<and>
     round (state r') = 1 \<and> kv_size (state r') = 0"
proof -
  have small: "h = 0 \<or> h = 1" if "h < 2" for h :: u64
  proof -
    have "unat h = unat (0 :: u64) \<or> unat h = unat (1 :: u64)"
      using that by (simp add: word_less_nat_alt) linarith
    then show ?thesis unfolding unat_eq_iff .
  qed
  show ?thesis
    using lone_sender_catchup [of demo_lagging_replica "''r0''" 5 "''r3''" "TimeoutProof 0 0" demo_env] small
    by (auto simp: demo_lagging_replica_def fresh_replica_def initial_state_def six_config_def)
qed

text \<open>The leader is not checked. A replica that collects logs or prepares accepts a
  REPAIR-HISTORY of its view and round from any sender: with one such message stored it
  prepares the history the message carries.\<close>

theorem history_from_anyone:
  assumes "iter_ok E" and "phase (state r) \<in> {CollectingLogs, PreparePhase}"
    and "repair_history_msgs (state r) = {||}"
  shows "on_receive_repair_history E r (RepairHistory q (view (state r)) (round (state r)) h) =
    (state_update (\<lambda>s. s\<lparr>phase := PreparePhase, proposed_history_hash := h,
        repair_history_msgs := {|RepairHistory q (view (state r)) (round (state r)) h|}\<rparr>) r,
     [Broadcast (RepairPrepare (node_id (state r)) (view (state r)) (round (state r)) h)])"
proof -
  have "iter_msgs E {|m|} = [m]" for m
  proof -
    have "set (iter_msgs E {|m|}) = {m}" "distinct (iter_msgs E {|m|})"
      using assms(1) unfolding iter_ok_def by (metis fset_of_list.rep_eq fset_simps)+
    then show ?thesis
      by (cases "iter_msgs E {|m|}") (auto simp: subset_singleton_iff)
  qed
  then show ?thesis
    using assms(2,3)
    by (auto simp: on_receive_repair_history_def store_history_def Let_def can_repair_prepare_def
        handle_repair_prepare_def)
qed

lemma history_from_anyone_witness:
  "snd (on_receive_repair_history demo_env (state_update (phase_update (\<lambda>p. CollectingLogs))
     (fresh_replica six_config ''r1'')) (RepairHistory ''r4'' 0 0 99)) =
   [Broadcast (RepairPrepare ''r1'' 0 0 99)]"
  using history_from_anyone [of demo_env "state_update (phase_update (\<lambda>p. CollectingLogs))
     (fresh_replica six_config ''r1'')" "''r4''" 99]
  by (simp add: fresh_replica_def initial_state_def)

end
