(* ===== verification/Replica.thy ===== *)
theory Replica
  imports Fast_Path Checkpoint Alignment Repair_Entry Repair
begin

text \<open>
  The dispatcher (\<^verbatim>\<open>replica.rs\<close>): \<open>process_message\<close> tries every guard in a fixed order and
  \<open>handle_event\<close> does the same for timers.
\<close>

section \<open>Dispatch\<close>

definition message_steps :: "env \<Rightarrow> message \<Rightarrow> step list" where
  "message_steps E msg =
     [\<lambda>r. when_some (can_speculate r msg) (handle_speculate E r) r,
      \<lambda>r. when_some (can_send_sync_threshold r) (\<lambda>k. Inr (r, handle_send_sync r k)) r,
      \<lambda>r. Inr (on_receive_sync r msg),
      \<lambda>r. Inr (on_receive_checkpoint r msg),
      \<lambda>r. when_some (can_conflict_proof r) (\<lambda>k. Inr (handle_conflict_proof r k)) r,
      \<lambda>r. Inr (on_receive_timeout r msg),
      \<lambda>r. when_some (can_enter_repair r msg) (\<lambda>rd. Inr (handle_enter_repair r rd)) r,
      \<lambda>r. when_some (can_state_request msg) (\<lambda>q. Inr (r, handle_state_request r q)) r,
      \<lambda>r. when_some (can_state_reply r msg) (handle_state_reply E r) r,
      \<lambda>r. Inr (on_receive_log_msg r msg),
      \<lambda>r. Inr (on_receive_repair_history E r msg),
      \<lambda>r. Inr (on_receive_repair_prepare r msg),
      \<lambda>r. on_receive_repair_commit E r msg,
      \<lambda>r. on_receive_repair_done E r msg]"

definition process_message :: "env \<Rightarrow> message \<Rightarrow> step" where
  "process_message E msg = run_steps (message_steps E msg)"

definition event_steps :: "env \<Rightarrow> event \<Rightarrow> step list" where
  "event_steps E ev =
     [\<lambda>r. when_some (can_send_sync_on_event r ev) (\<lambda>k. Inr (r, handle_send_sync r k)) r,
      \<lambda>r. when_some (can_chkpt_timeout r ev) (\<lambda>k. Inr (r, handle_chkpt_timeout r k)) r,
      \<lambda>r. bind_outcome (can_view_change E r ev)
            (\<lambda>g. when_some g (\<lambda>v. Inr (handle_view_change r v)) r)]"

definition handle_event :: "env \<Rightarrow> event \<Rightarrow> step" where
  "handle_event E ev = run_steps (event_steps E ev)"

text \<open>\<open>ReplicaInput\<close> of \<^verbatim>\<open>node.rs\<close>: what a replica's queue holds, and a run over a queue.\<close>

datatype replica_input = InMessage message | InEvent event

fun handle_input :: "env \<Rightarrow> replica_input \<Rightarrow> step" where
  "handle_input E (InMessage msg) = process_message E msg"
| "handle_input E (InEvent ev) = handle_event E ev"

definition replica_run :: "env \<Rightarrow> replica_input list \<Rightarrow> step" where
  "replica_run E inputs = run_steps (map (handle_input E) inputs)"

definition input_msgs :: "replica_input list \<Rightarrow> message set" where
  "input_msgs inputs = {m. InMessage m \<in> set inputs}"

lemma input_msgs_code [code]:
  "input_msgs inputs = set (concat (map (\<lambda>i. case i of InMessage m \<Rightarrow> [m] | InEvent ev \<Rightarrow> []) inputs))"
  by (auto simp: input_msgs_def split: replica_input.splits)

end
