(* ===== verification/Transitions.thy ===== *)
theory Transitions
  imports Replica
begin

text \<open>
  The replica as a transition system. A transition is one guard that fires with its handler, or
  the storing of one delivered message; this is the shape the protocol's specification gives a
  replica (a set of listen/handle pairs). The dispatcher's runs are sequences of transitions,
  so a law that every transition satisfies holds of every run of a replica, whatever the
  network and the timers deliver.
\<close>

section \<open>The transition relation\<close>

text \<open>\<open>M\<close> is the set of messages that may be delivered.\<close>

inductive transition :: "env \<Rightarrow> message set \<Rightarrow> replica \<Rightarrow> effect list \<Rightarrow> replica \<Rightarrow> bool"
  for E :: env and M :: "message set" where
  recv_sync: "m \<in> M \<Longrightarrow> transition E M r [] (store_sync r m)"
| recv_chkpt: "m \<in> M \<Longrightarrow> transition E M r [] (store_chkpt r m)"
| recv_timeout: "m \<in> M \<Longrightarrow> transition E M r [] (store_timeout r m)"
| recv_log: "m \<in> M \<Longrightarrow> transition E M r [] (store_log r m)"
| recv_history: "m \<in> M \<Longrightarrow> transition E M r [] (store_history r m)"
| recv_prepare: "m \<in> M \<Longrightarrow> transition E M r [] (store_prepare r m)"
| recv_commit: "m \<in> M \<Longrightarrow> transition E M r [] (store_commit r m)"
| recv_done: "m \<in> M \<Longrightarrow> transition E M r [] (store_done r m)"
| speculate: "m \<in> M \<Longrightarrow> can_speculate r m = Some k \<Longrightarrow> handle_speculate E r k = Inr (r', es) \<Longrightarrow>
    transition E M r es r'"
| sync_threshold: "can_send_sync_threshold r = Some k \<Longrightarrow>
    transition E M r (handle_send_sync r k) r"
| sync_timer: "can_send_sync_on_event r ev = Some k \<Longrightarrow>
    transition E M r (handle_send_sync r k) r"
| form_checkpoint: "can_form_checkpoint r = Some k \<Longrightarrow> handle_form_checkpoint r k = (r', es) \<Longrightarrow>
    transition E M r es r'"
| enter_align: "can_enter_align r = Some k \<Longrightarrow> handle_enter_align r k = (r', es) \<Longrightarrow>
    transition E M r es r'"
| conflict_proof: "can_conflict_proof r = Some k \<Longrightarrow> handle_conflict_proof r k = (r', es) \<Longrightarrow>
    transition E M r es r'"
| chkpt_timeout: "can_chkpt_timeout r ev = Some k \<Longrightarrow>
    transition E M r (handle_chkpt_timeout r k) r"
| timeout_proof: "can_timeout_proof r = Some k \<Longrightarrow> handle_timeout_proof r k = (r', es) \<Longrightarrow>
    transition E M r es r'"
| enter_repair: "m \<in> M \<Longrightarrow> can_enter_repair r m = Some rd \<Longrightarrow>
    handle_enter_repair r rd = (r', es) \<Longrightarrow> transition E M r es r'"
| state_request: "m \<in> M \<Longrightarrow> can_state_request m = Some q \<Longrightarrow>
    transition E M r (handle_state_request r q) r"
| state_reply: "m \<in> M \<Longrightarrow> can_state_reply r m = Some k \<Longrightarrow>
    handle_state_reply E r k = Inr (r', es) \<Longrightarrow> transition E M r es r'"
| broadcast_history: "can_broadcast_history r = Some h \<Longrightarrow>
    handle_broadcast_history r h = (r', es) \<Longrightarrow> transition E M r es r'"
| repair_prepare: "can_repair_prepare E r = Some h \<Longrightarrow> handle_repair_prepare r h = (r', es) \<Longrightarrow>
    transition E M r es r'"
| repair_commit: "can_repair_commit r = Some h \<Longrightarrow> handle_repair_commit r h = (r', es) \<Longrightarrow>
    transition E M r es r'"
| apply_repair: "can_apply_repair r = Some h \<Longrightarrow> handle_apply_repair E r h = Inr (r', es) \<Longrightarrow>
    transition E M r es r'"
| repair_done_catchup: "can_repair_done_catchup r = Some rd \<Longrightarrow>
    handle_repair_done_catchup E r rd = Inr (r', es) \<Longrightarrow> transition E M r es r'"
| view_change: "can_view_change E r ev = Inr (Some v) \<Longrightarrow> handle_view_change r v = (r', es) \<Longrightarrow>
    transition E M r es r'"

inductive transitions :: "env \<Rightarrow> message set \<Rightarrow> replica \<Rightarrow> effect list \<Rightarrow> replica \<Rightarrow> bool"
  for E :: env and M :: "message set" where
  none: "transitions E M r [] r"
| more: "transition E M r es r' \<Longrightarrow> transitions E M r' fs r'' \<Longrightarrow> transitions E M r (es @ fs) r''"

lemma transitions_one: "transition E M r es r' \<Longrightarrow> transitions E M r es r'"
  using transitions.more [OF _ transitions.none, of E M r es r'] by simp

lemma transitions_trans:
  "transitions E M r es r' \<Longrightarrow> transitions E M r' fs r'' \<Longrightarrow> transitions E M r (es @ fs) r''"
  by (induction rule: transitions.induct) (auto intro: transitions.more)

lemma transitions_two:
  "transition E M r [] r' \<Longrightarrow> transition E M r' es r'' \<Longrightarrow> transitions E M r es r''"
  using transitions_trans [OF transitions_one transitions_one, of E M r "[]" r' es r''] by simp

section \<open>Runs of the dispatcher are sequences of transitions\<close>

lemma when_some_transitions:
  assumes "when_some g h r = Inr (r', es)"
    and "\<And>x. g = Some x \<Longrightarrow> h x = Inr (r', es) \<Longrightarrow> transition E M r es r'"
  shows "transitions E M r es r'"
  using assms by (cases g) (auto intro: transitions.none transitions_one)

lemma receive_transitions:
  assumes "(case g of Some x \<Rightarrow> h x | None \<Rightarrow> Inr (r1, [])) = Inr (r', es)"
    and "transition E M r [] r1"
    and "\<And>x. g = Some x \<Longrightarrow> h x = Inr (r', es) \<Longrightarrow> transition E M r1 es r'"
  shows "transitions E M r es r'"
  using assms by (cases g) (auto intro: transitions_two transitions_one)

lemma receive_transitions_pure:
  assumes "(case g of Some x \<Rightarrow> h x | None \<Rightarrow> (r1, [])) = (r', es)"
    and "transition E M r [] r1"
    and "\<And>x. g = Some x \<Longrightarrow> h x = (r', es) \<Longrightarrow> transition E M r1 es r'"
  shows "transitions E M r es r'"
  using assms by (cases g) (auto intro: transitions_two transitions_one)

lemmas receive_defs = on_receive_sync_def on_receive_checkpoint_def on_receive_timeout_def
  on_receive_log_msg_def on_receive_repair_history_def on_receive_repair_prepare_def
  on_receive_repair_commit_def on_receive_repair_done_def

lemma message_step_transitions:
  assumes "f \<in> set (message_steps E m)" and "f r = Inr (r', es)"
  shows "transitions E (insert m M) r es r'"
  using assms unfolding message_steps_def
  by (auto simp: receive_defs Let_def
      elim!: when_some_transitions receive_transitions receive_transitions_pure
      intro: transition.intros)

lemma event_step_transitions:
  assumes "f \<in> set (event_steps E ev)" and "f r = Inr (r', es)"
  shows "transitions E M r es r'"
  using assms unfolding event_steps_def
  by (auto simp: bind_outcome_Inr_iff elim!: when_some_transitions intro: transition.intros)

interpretation msg: step_contract "\<lambda>r r' es. transitions E (insert m M) r es r'"
  "message_steps E m" for E m M
  by unfold_locales (auto intro: transitions.none transitions_trans message_step_transitions)

interpretation timer: step_contract "\<lambda>r r' es. transitions E M r es r'" "event_steps E ev" for E ev M
  by unfold_locales (auto intro: transitions.none transitions_trans event_step_transitions)

lemma process_message_transitions:
  "process_message E m r = Inr (r', es) \<Longrightarrow> m \<in> M \<Longrightarrow> transitions E M r es r'"
  using msg.run_ok [of E m r r' es M] by (simp add: process_message_def insert_absorb)

lemma handle_event_transitions:
  "handle_event E ev r = Inr (r', es) \<Longrightarrow> transitions E M r es r'"
  unfolding handle_event_def by (rule timer.run_ok)

lemma handle_input_transitions:
  "handle_input E i r = Inr (r', es) \<Longrightarrow> input_msgs [i] \<subseteq> M \<Longrightarrow> transitions E M r es r'"
  by (cases i)
     (auto simp: input_msgs_def intro: handle_event_transitions process_message_transitions)

interpretation queue: step_contract "\<lambda>r r' es. transitions E (input_msgs inputs \<union> M) r es r'"
  "map (handle_input E) inputs" for E inputs M
proof (unfold_locales, goal_cases)
  case (3 f r r' es)
  then obtain i where "i \<in> set inputs" and "f = handle_input E i" by auto
  with 3(2) show ?case by (auto simp: input_msgs_def intro!: handle_input_transitions)
qed (auto intro: transitions.none transitions_trans)

lemma replica_run_transitions:
  "replica_run E inputs r = Inr (r', es) \<Longrightarrow> input_msgs inputs \<subseteq> M \<Longrightarrow> transitions E M r es r'"
  using queue.run_ok [of E inputs r r' es M] by (simp add: replica_run_def Un_absorb1)

section \<open>Laws of transitions\<close>

locale transition_law =
  fixes E :: env and M :: "message set"
    and R :: "replica \<Rightarrow> replica \<Rightarrow> effect list \<Rightarrow> bool"
  assumes idle: "R r r []"
    and sequel: "R r s es \<Longrightarrow> R s t fs \<Longrightarrow> R r t (es @ fs)"
    and each: "transition E M r es r' \<Longrightarrow> R r r' es"
begin

lemma transitions_law: "transitions E M r es r' \<Longrightarrow> R r r' es"
  by (induction rule: transitions.induct) (auto intro: idle sequel each)

lemma message_law: "process_message E m r = Inr (r', es) \<Longrightarrow> m \<in> M \<Longrightarrow> R r r' es"
  by (rule transitions_law, rule process_message_transitions)

lemma run_law: "replica_run E inputs r = Inr (r', es) \<Longrightarrow> input_msgs inputs \<subseteq> M \<Longrightarrow> R r r' es"
  by (rule transitions_law, rule replica_run_transitions)

end

end
