(* ===== verification/Invariants.thy ===== *)
theory Invariants
  imports Transitions
begin

text \<open>
  Laws of the transition relation: fields that never change, message sets that only grow,
  rounds and views that never go back, the agreement of the repair flag with the phase, the
  certificate behind a commit, the shape of the log, and the authenticity of what is sent. Each
  law is proved once per transition and carried to every run by \<open>transition_law\<close>.
\<close>

lemmas store_defs = store_sync_def store_chkpt_def store_timeout_def store_log_def
  store_history_def store_prepare_def store_commit_def store_done_def

lemmas handler_defs = handle_speculate_def handle_send_sync_def handle_form_checkpoint_def
  handle_enter_align_def handle_state_request_def handle_state_reply_def
  handle_conflict_proof_def handle_chkpt_timeout_def handle_timeout_proof_def
  handle_enter_repair_def handle_broadcast_history_def handle_repair_prepare_def
  handle_repair_commit_def handle_apply_repair_def handle_repair_done_catchup_def
  handle_view_change_def start_repair_def own_log_msg_def

lemmas step_simps = store_defs handler_defs Let_def bind_outcome_Inr_iff

section \<open>Guards and phases\<close>

lemma can_speculate_phase: "can_speculate r m = Some k \<Longrightarrow>
    is_Speculate m \<and> phase (state r) = Speculative \<and> k = kv_size (state r)"
  by (auto simp: can_speculate_def split: if_splits)

lemma can_form_checkpoint_phase: "can_form_checkpoint r = Some k \<Longrightarrow>
    phase (state r) = Speculative \<and> kv_size (state r) \<noteq> 0 \<and> k = kv_size (state r) - 1"
  by (auto simp: can_form_checkpoint_def Let_def split: if_splits)

lemma can_enter_align_phase: "can_enter_align r = Some k \<Longrightarrow>
    phase (state r) = Speculative \<and> k = chkpt_idx (state r)"
  by (auto simp: can_enter_align_def Let_def split: if_splits)

lemma can_conflict_proof_phase: "can_conflict_proof r = Some k \<Longrightarrow>
    phase (state r) = Speculative \<and> kv_size (state r) \<noteq> 0 \<and> k = kv_size (state r) - 1"
  by (auto simp: can_conflict_proof_def Let_def split: if_splits)

lemma can_timeout_proof_phase: "can_timeout_proof r = Some k \<Longrightarrow>
    phase (state r) = Speculative \<and> kv_size (state r) \<noteq> 0 \<and> k = kv_size (state r) - 1"
  by (auto simp: can_timeout_proof_def Let_def split: if_splits)

lemma can_state_reply_phase: "can_state_reply r m = Some k \<Longrightarrow>
    phase (state r) = Aligning \<and> (\<exists>s h. m = StateReply s k h)"
  by (auto simp: can_state_reply_def split: if_splits message.splits)

lemma can_broadcast_history_phase: "can_broadcast_history r = Some h \<Longrightarrow>
    phase (state r) = CollectingLogs \<and> is_leader r \<and>
    unat (byz_quorum (config r))
      \<le> card (senders (log_matches (view (state r)) (round (state r))) (log_msgs (state r))) \<and>
    h = of_nat (card (senders (log_matches (view (state r)) (round (state r)))
                  (log_msgs (state r))))"
  by (auto simp: can_broadcast_history_def Let_def split: if_splits)

lemma can_repair_prepare_phase: "can_repair_prepare E r = Some h \<Longrightarrow>
    phase (state r) \<in> {CollectingLogs, PreparePhase} \<and>
    find_map (history_of (view (state r)) (round (state r)))
             (iter_msgs E (repair_history_msgs (state r))) = Some h"
  by (auto simp: can_repair_prepare_def split: if_splits)

lemma can_repair_commit_phase: "can_repair_commit r = Some h \<Longrightarrow>
    phase (state r) = PreparePhase \<and> h = proposed_history_hash (state r) \<and>
    prepare_certificate r"
  by (auto simp: can_repair_commit_def prepare_certificate_def Let_def one_per_sender_patterns
           count_eq_senders split: if_splits)

lemma can_apply_repair_phase: "can_apply_repair r = Some h \<Longrightarrow>
    phase (state r) = CommitPhase \<and> h = proposed_history_hash (state r) \<and>
    unat (byz_quorum (config r))
      \<le> card (senders (commit_matches (view (state r)) (round (state r)) h)
                (repair_commit_msgs (state r)))"
  by (auto simp: can_apply_repair_def Let_def one_per_sender_patterns count_eq_senders
           split: if_splits)

lemma can_repair_done_catchup_phase: "can_repair_done_catchup r = Some rd \<Longrightarrow>
    phase (state r) \<in> repair_phases \<and> rd = round (state r)"
  by (auto simp: can_repair_done_catchup_def Let_def split: if_splits)

lemma can_view_change_phase: "can_view_change E r ev = Inr (Some v) \<Longrightarrow>
    phase (state r) = CollectingLogs \<and> ev = RepairViewTimeout \<and>
    add_u64 (overflow_checks E) (view (state r)) 1 = Inr v"
  by (auto simp: can_view_change_def bind_outcome_Inr_iff split: if_splits)

lemma can_enter_repair_phase: "can_enter_repair r m = Some rd \<Longrightarrow>
    \<not> in_repair (state r) \<and> (is_TimeoutProof m \<or> is_ConflictProof m) \<and> rd = round (state r)"
  by (auto simp: can_enter_repair_def split: if_splits)

lemmas guard_phases = can_speculate_phase can_form_checkpoint_phase can_enter_align_phase
  can_conflict_proof_phase can_timeout_proof_phase can_state_reply_phase
  can_broadcast_history_phase can_repair_prepare_phase can_repair_commit_phase
  can_apply_repair_phase can_repair_done_catchup_phase can_view_change_phase
  can_enter_repair_phase

section \<open>Fields that never change\<close>

definition frame :: "replica \<Rightarrow> replica \<Rightarrow> bool" where
  "frame r r' \<longleftrightarrow> config r' = config r \<and> node_id (state r') = node_id (state r) \<and>
     eta_star (state r') = eta_star (state r) \<and> ack_msgs (state r') = ack_msgs (state r)"

lemma transition_frame: "transition E M r es r' \<Longrightarrow> frame r r'"
  by (induction rule: transition.induct) (auto simp: frame_def step_simps)

interpretation frame: transition_law E M "\<lambda>r r' es. frame r r'" for E M
  by unfold_locales (auto simp: frame_def transition_frame dest: transition_frame)

section \<open>Message sets only grow\<close>

definition grows :: "replica_state \<Rightarrow> replica_state \<Rightarrow> bool" where
  "grows s s' \<longleftrightarrow>
     sync_msgs s |\<subseteq>| sync_msgs s' \<and> chkpt_msgs s |\<subseteq>| chkpt_msgs s' \<and>
     timeout_msgs s |\<subseteq>| timeout_msgs s' \<and> log_msgs s |\<subseteq>| log_msgs s' \<and>
     repair_history_msgs s |\<subseteq>| repair_history_msgs s' \<and>
     repair_prepare_msgs s |\<subseteq>| repair_prepare_msgs s' \<and>
     repair_commit_msgs s |\<subseteq>| repair_commit_msgs s' \<and>
     repair_done_msgs s |\<subseteq>| repair_done_msgs s'"

lemma grows_refl [simp]: "grows s s"
  by (simp add: grows_def)

lemma grows_trans: "grows s t \<Longrightarrow> grows t u \<Longrightarrow> grows s u"
  unfolding grows_def by (meson order_trans)

lemma transition_grows: "transition E M r es r' \<Longrightarrow> grows (state r) (state r')"
  by (induction rule: transition.induct) (auto simp: grows_def step_simps)

interpretation grow: transition_law E M "\<lambda>r r' es. grows (state r) (state r')" for E M
  by unfold_locales (auto intro: grows_trans transition_grows)

section \<open>Message sets hold delivered messages of their kind\<close>

definition delivered :: "message set \<Rightarrow> replica_state \<Rightarrow> bool" where
  "delivered M s \<longleftrightarrow> msgs_ok s \<and>
     fset (sync_msgs s) \<union> fset (chkpt_msgs s) \<union> fset (timeout_msgs s) \<union> fset (log_msgs s) \<union>
     fset (repair_history_msgs s) \<union> fset (repair_prepare_msgs s) \<union>
     fset (repair_commit_msgs s) \<union> fset (repair_done_msgs s) \<subseteq> M"

lemma transition_delivered:
  "transition E M r es r' \<Longrightarrow> delivered M (state r) \<Longrightarrow> delivered M (state r')"
  by (induction rule: transition.induct) (auto simp: delivered_def msgs_ok_def step_simps)

interpretation deliver: transition_law E M "\<lambda>r r' es. delivered M (state r) \<longrightarrow> delivered M (state r')"
  for E M
  by unfold_locales (auto intro: transition_delivered)

section \<open>Phase and repair flag\<close>

lemma transition_phase_ok:
  "transition E M r es r' \<Longrightarrow> phase_ok (state r) \<Longrightarrow> phase_ok (state r')"
  by (induction rule: transition.induct)
     (auto simp: phase_ok_def step_simps dest: can_enter_align_phase can_state_reply_phase
        can_broadcast_history_phase can_repair_prepare_phase can_repair_commit_phase)

interpretation phase: transition_law E M "\<lambda>r r' es. phase_ok (state r) \<longrightarrow> phase_ok (state r')"
  for E M
  by unfold_locales (auto intro: transition_phase_ok)

section \<open>Rounds and views\<close>

definition advances :: "env \<Rightarrow> replica_state \<Rightarrow> replica_state \<Rightarrow> bool" where
  "advances E s s' \<longleftrightarrow> overflow_checks E \<longrightarrow> round s \<le> round s' \<and> view s \<le> view s'"

lemma add_u64_checked_mono: "add_u64 True a 1 = Inr b \<Longrightarrow> a \<le> b"
  by (auto simp: add_u64_one_checked word_le_nat_alt unat_succ_u64)

lemma transition_advances: "transition E M r es r' \<Longrightarrow> advances E (state r) (state r')"
  by (induction rule: transition.induct)
     (auto simp: advances_def step_simps dest!: can_view_change_phase add_u64_checked_mono)

interpretation advance: transition_law E M "\<lambda>r r' es. advances E (state r) (state r')" for E M
  by unfold_locales (auto simp: advances_def dest: transition_advances intro: order_trans)

section \<open>Certificates\<close>

lemma prepare_certificate_store:
  "prepare_certificate r \<Longrightarrow> prepare_certificate (store_prepare r m)"
  unfolding prepare_certificate_def store_prepare_def
  by (auto elim!: order_trans intro!: card_mono senders_mono)

lemma transition_cert_ok: "transition E M r es r' \<Longrightarrow> cert_ok r \<Longrightarrow> cert_ok r'"
proof (induction rule: transition.induct)
  case (recv_prepare m r)
  then show ?case
    using prepare_certificate_store [of r m] by (auto simp: cert_ok_def store_prepare_def)
qed (auto simp: cert_ok_def prepare_certificate_def step_simps
       dest: can_repair_commit_phase can_view_change_phase)

interpretation cert: transition_law E M "\<lambda>r r' es. cert_ok r \<longrightarrow> cert_ok r'" for E M
  by unfold_locales (auto intro: transition_cert_ok)

section \<open>The log\<close>

text \<open>
  What the log invariant needs of the environment and the network: a build with overflow
  checks, a faithful iteration order, LOG messages from at most \<open>2 ^ 64 - 1\<close> configured nodes, a
  positive quorum, and no REPAIR-HISTORY that carries the hash 0.
\<close>

definition sound_net :: "env \<Rightarrow> message set \<Rightarrow> config \<Rightarrow> bool" where
  "sound_net E M cfg \<longleftrightarrow>
     overflow_checks E \<and> iter_ok E \<and> byz_quorum cfg \<noteq> 0 \<and> length (nodes_ordered cfg) < 2 ^ 64 \<and>
     (\<forall>s v rd h. LogMsg s v rd h \<in> M \<longrightarrow> s \<in> set (nodes_ordered cfg)) \<and>
     (\<forall>s v rd. RepairHistory s v rd 0 \<notin> M)"

definition log_inv :: "message set \<Rightarrow> config \<Rightarrow> replica \<Rightarrow> bool" where
  "log_inv M cfg r \<longleftrightarrow> config r = cfg \<and> delivered M (state r) \<and> log_ok (state r) \<and>
     (phase (state r) \<in> {PreparePhase, CommitPhase} \<longrightarrow> proposed_history_hash (state r) \<noteq> 0)"

lemma find_map_Some: "find_map g xs = Some y \<Longrightarrow> \<exists>x \<in> set xs. g x = Some y"
  by (induction xs) (auto split: option.splits)

lemma history_of_Some: "history_of vw rd m = Some h \<longleftrightarrow> (\<exists>s. m = RepairHistory s vw rd h)"
  by (cases m) auto

lemma iter_ok_set: "iter_ok E \<Longrightarrow> set (iter_msgs E S) = fset S"
  unfolding iter_ok_def by (metis fset_of_list.rep_eq)

lemma can_repair_prepare_source:
  assumes "iter_ok E" and "can_repair_prepare E r = Some h"
  shows "\<exists>s. RepairHistory s (view (state r)) (round (state r)) h |\<in>| repair_history_msgs (state r)"
  using find_map_Some [of "history_of (view (state r)) (round (state r))"
      "iter_msgs E (repair_history_msgs (state r))" h] can_repair_prepare_phase [OF assms(2)]
  by (auto simp: history_of_Some iter_ok_set [OF assms(1)])

lemma proposed_nonzero:
  assumes "sound_net E M cfg" and "log_inv M cfg r" and "can_broadcast_history r = Some h"
  shows "h \<noteq> 0"
proof -
  let ?S = "senders (log_matches (view (state r)) (round (state r))) (log_msgs (state r))"
  have "?S \<subseteq> set (nodes_ordered cfg)"
  proof
    fix s assume "s \<in> ?S"
    then obtain m where m: "m |\<in>| log_msgs (state r)" "log_matches (view (state r)) (round (state r)) m"
      "sender_of m = Some s" by (auto simp: senders_Collect)
    then have "m \<in> M" using assms(2) by (auto simp: log_inv_def delivered_def)
    with m assms(1) show "s \<in> set (nodes_ordered cfg)"
      by (cases m) (auto simp: sound_net_def)
  qed
  then have "card ?S \<le> length (nodes_ordered cfg)"
    by (meson List.finite_set card_length card_mono le_trans)
  then have small: "card ?S < 2 ^ 64" using assms(1) by (auto simp: sound_net_def)
  have "unat (byz_quorum cfg) \<le> card ?S" and h: "h = of_nat (card ?S)"
    using can_broadcast_history_phase [OF assms(3)] assms(2) by (auto simp: log_inv_def)
  moreover have "0 < unat (byz_quorum cfg)" using assms(1) by (simp add: sound_net_def unat_gt_0)
  ultimately have "0 < card ?S" by linarith
  moreover have "unat h = card ?S" using small unfolding h by (simp add: unat_of_nat)
  ultimately show ?thesis by auto
qed

lemma transition_log_inv:
  assumes "sound_net E M cfg" and "transition E M r es r'" and "log_inv M cfg r"
  shows "log_inv M cfg r'"
proof -
  have "config r' = cfg" and "delivered M (state r')"
    using transition_frame [OF assms(2)] transition_delivered [OF assms(2)] assms(3)
    by (auto simp: frame_def log_inv_def)
  moreover have "log_ok (state r') \<and> (phase (state r') \<in> {PreparePhase, CommitPhase} \<longrightarrow>
      proposed_history_hash (state r') \<noteq> 0)"
    using assms(2) assms(1,3)
  proof (induction rule: transition.induct)
    case (speculate m r k r' es)
    have k: "phase (state r) = Speculative" "k = kv_size (state r)"
      using can_speculate_phase [OF speculate(2)] by auto
    have "log_ok (state r')"
      by (rule speculate_log_ok [OF speculate(3) _ k(2)])
         (use speculate(4,5) in \<open>simp_all add: log_inv_def sound_net_def\<close>)
    then show ?case using k(1) handle_speculate_phase [OF speculate(3)] by simp
  next
    case (state_reply m r k r' es)
    have ok: "mem_ok (kv_store (state r))" and chk: "overflow_checks E"
      using state_reply(4,5) by (auto simp: log_inv_def log_ok_def sound_net_def)
    have "k \<noteq> - 1" using state_reply(3) chk handle_state_reply_panic [of E r k] by auto
    with state_reply(3) ok obtain store where
      "r' = state_update (\<lambda>s. s\<lparr>kv_store := store, phase := Speculative, chkpt_idx := k,
            chkpt_hash := unwrap_or zero_hash (entry_hash E (synthetic_entry k)),
            kv_size := k + 1, start_idx := k\<rparr>) r"
      "mem_ok store" "log_shape (mem_lookup store) (k + 1)"
      by (rule handle_state_reply_Inr)
    then show ?case by (simp add: log_ok_def)
  next
    case (broadcast_history r h r' es)
    then show ?case using proposed_nonzero [of E M cfg r h]
      by (auto simp: log_inv_def log_ok_def handle_broadcast_history_def)
  next
    case (repair_prepare r h r' es)
    then obtain s where "RepairHistory s (view (state r)) (round (state r)) h \<in> M"
      using can_repair_prepare_source [of E r h]
      by (auto simp: sound_net_def log_inv_def delivered_def)
    with repair_prepare show ?case
      by (auto simp: log_inv_def log_ok_def sound_net_def handle_repair_prepare_def)
  next
    case (apply_repair r h r' es)
    have ok: "mem_ok (kv_store (state r))" and "h \<noteq> 0"
      using apply_repair can_apply_repair_phase [OF apply_repair(1)]
      by (auto simp: log_inv_def log_ok_def)
    from apply_repair(2) ok obtain store round' where
      "r' = state_update (\<lambda>s. s\<lparr>kv_store := store, phase := Speculative, round := round',
            start_idx := h, kv_size := h, in_repair := False, proposed_history_hash := 0\<rparr>) r"
      "mem_ok store" "h \<noteq> 0 \<Longrightarrow> log_shape (mem_lookup store) h"
      by (rule handle_apply_repair_Inr) blast
    with \<open>h \<noteq> 0\<close> show ?case by (simp add: log_ok_def)
  qed (auto simp: log_inv_def log_ok_def step_simps dest: can_repair_commit_phase)
  ultimately show ?thesis by (simp add: log_inv_def)
qed

interpretation log: transition_law E M
  "\<lambda>r r' es. sound_net E M cfg \<longrightarrow> log_inv M cfg r \<longrightarrow> log_inv M cfg r'" for E M cfg
  by unfold_locales (auto intro: transition_log_inv)

section \<open>What a replica sends\<close>

text \<open>The round a message is stamped with.\<close>

fun round_of :: "message \<Rightarrow> u64 option" where
  "round_of (Speculate s r h e) = Some r"
| "round_of (SpecReply s r k h) = Some r"
| "round_of (Sync s r k h e) = Some r"
| "round_of (Checkpoint s r k h) = Some r"
| "round_of (StateRequest s k) = None"
| "round_of (StateReply s k h) = None"
| "round_of (TimeoutMsg s r k) = Some r"
| "round_of (TimeoutProof r k) = Some r"
| "round_of (ConflictProof r k) = Some r"
| "round_of (LogMsg s v r h) = Some r"
| "round_of (RepairHistory s v r h) = Some r"
| "round_of (RepairPrepare s v r h) = Some r"
| "round_of (RepairCommit s v r h) = Some r"
| "round_of (RepairDone s v r h) = Some r"
| "round_of (CommittedReply s r k) = Some r"

text \<open>
  An effect is authentic for a replica that passed from \<open>s\<close> to \<open>s'\<close>: it names no other sender,
  it is no sequencer message, and its round is one the replica was in.
\<close>

definition authentic :: "env \<Rightarrow> replica_state \<Rightarrow> replica_state \<Rightarrow> effect \<Rightarrow> bool" where
  "authentic E s s' e \<longleftrightarrow>
     sender_of (effect_message e) \<in> {None, Some (node_id s)} \<and> \<not> is_Speculate (effect_message e) \<and>
     (overflow_checks E \<longrightarrow> (\<forall>rd. round_of (effect_message e) = Some rd \<longrightarrow>
        round s \<le> rd \<and> rd \<le> round s'))"

definition sends_authentic :: "env \<Rightarrow> replica \<Rightarrow> replica \<Rightarrow> effect list \<Rightarrow> bool" where
  "sends_authentic E r r' es \<longleftrightarrow> frame r r' \<and> advances E (state r) (state r') \<and>
     (\<forall>e \<in> set es. authentic E (state r) (state r') e)"

lemma transition_sends_authentic:
  assumes "transition E M r es r'"
  shows "sends_authentic E r r' es"
proof -
  have "\<forall>e \<in> set es. authentic E (state r) (state r') e"
    using assms
    by (induction rule: transition.induct)
       (auto simp: authentic_def step_simps dest!: add_u64_checked_mono)
  then show ?thesis
    using transition_frame [OF assms] transition_advances [OF assms]
    by (simp add: sends_authentic_def)
qed

lemma authentic_widen:
  assumes "authentic E s s' e" and "advances E t s" and "advances E s' t'" and "node_id t = node_id s"
  shows "authentic E t t' e"
  using assms by (auto simp: authentic_def advances_def intro: order_trans)

interpretation send: transition_law E M "sends_authentic E" for E M
proof (unfold_locales, goal_cases)
  case (2 r s es t fs)
  have adv: "advances E (state r) (state s)" "advances E (state s) (state t)"
    and fr: "frame r s" "frame s t"
    using 2 by (simp_all add: sends_authentic_def)
  have "authentic E (state r) (state t) e" if "e \<in> set es \<union> set fs" for e
    using that 2 adv fr authentic_widen [of E "state r" "state s" e "state r" "state t"]
      authentic_widen [of E "state s" "state t" e "state r" "state t"]
    by (auto simp: sends_authentic_def frame_def advances_def)
  then show ?case using adv fr by (auto simp: sends_authentic_def frame_def advances_def)
next
  case (3 r es r')
  then show ?case by (rule transition_sends_authentic)
qed (simp add: sends_authentic_def frame_def advances_def)

end
