(* ===== verification/Control.thy ===== *)
theory Control
  imports Invariants
begin

text \<open>
  The protocol's control automaton, as the phases of the specification (\<^verbatim>\<open>aspen.qnt\<close>) give it: the
  phase, round, view and proposed history of a replica, and the repair votes it casts on the way.
  Logs, message sets, quorums and checkpoints are abstracted away. Every transition of a replica
  is a step of the automaton, so what holds of the automaton's traces holds of the messages a
  replica sends.
\<close>

section \<open>The automaton\<close>

record control =
  c_phase :: phase
  c_round :: u64
  c_view :: u64
  c_history :: u64

text \<open>The votes: the repair messages without their senders and log digests, with view, round and
  history.\<close>

datatype vote = VLog u64 u64 | VHistory u64 u64 u64 | VPrepare u64 u64 u64 | VCommit u64 u64 u64
  | VDone u64 u64 u64

definition control_new :: control where
  "control_new = \<lparr>c_phase = Speculative, c_round = 0, c_view = 0, c_history = 0\<rparr>"

inductive control_step :: "bool \<Rightarrow> control \<Rightarrow> vote list \<Rightarrow> control \<Rightarrow> bool" for chk :: bool where
  stay: "control_step chk c [] c"
| align: "c_phase c = Speculative \<Longrightarrow> control_step chk c [] (c\<lparr>c_phase := Aligning\<rparr>)"
| aligned: "c_phase c = Aligning \<Longrightarrow> control_step chk c [] (c\<lparr>c_phase := Speculative\<rparr>)"
| enter: "c_phase c \<in> {Speculative, Aligning} \<Longrightarrow>
    control_step chk c [VLog (c_view c) (c_round c)] (c\<lparr>c_phase := CollectingLogs\<rparr>)"
| propose: "c_phase c = CollectingLogs \<Longrightarrow>
    control_step chk c [VHistory (c_view c) (c_round c) h] (c\<lparr>c_phase := PreparePhase, c_history := h\<rparr>)"
| prepare: "c_phase c \<in> {CollectingLogs, PreparePhase} \<Longrightarrow>
    control_step chk c [VPrepare (c_view c) (c_round c) h] (c\<lparr>c_phase := PreparePhase, c_history := h\<rparr>)"
| commit: "c_phase c = PreparePhase \<Longrightarrow>
    control_step chk c [VCommit (c_view c) (c_round c) (c_history c)] (c\<lparr>c_phase := CommitPhase\<rparr>)"
| finish: "c_phase c = CommitPhase \<Longrightarrow> add_u64 chk (c_round c) 1 = Inr rd \<Longrightarrow>
    control_step chk c [VDone (c_view c) (c_round c) (c_history c)]
      (c\<lparr>c_phase := Speculative, c_round := rd, c_history := 0\<rparr>)"
| catch_up: "c_phase c \<in> repair_phases \<Longrightarrow> add_u64 chk (c_round c) 1 = Inr rd \<Longrightarrow>
    control_step chk c [] (c\<lparr>c_phase := Speculative, c_round := rd, c_history := 0\<rparr>)"
| change_view: "c_phase c = CollectingLogs \<Longrightarrow> add_u64 chk (c_view c) 1 = Inr v \<Longrightarrow>
    control_step chk c [VLog v (c_round c)] (c\<lparr>c_view := v\<rparr>)"

inductive control_run :: "bool \<Rightarrow> control \<Rightarrow> vote list \<Rightarrow> control \<Rightarrow> bool" for chk :: bool where
  halt: "control_run chk c [] c"
| go: "control_step chk c vs c' \<Longrightarrow> control_run chk c' ws c'' \<Longrightarrow> control_run chk c (vs @ ws) c''"

lemma control_run_trans:
  "control_run chk c vs c' \<Longrightarrow> control_run chk c' ws c'' \<Longrightarrow> control_run chk c (vs @ ws) c''"
  by (induction rule: control_run.induct) (auto intro: control_run.go)

lemma control_run_one: "control_step chk c vs c' \<Longrightarrow> control_run chk c vs c'"
  using control_run.go [OF _ control_run.halt, of chk c vs c'] by simp

section \<open>Refinement\<close>

definition control_of :: "replica \<Rightarrow> control" where
  "control_of r = \<lparr>c_phase = phase (state r), c_round = round (state r), c_view = view (state r),
     c_history = proposed_history_hash (state r)\<rparr>"

fun votes_in :: "message \<Rightarrow> vote list" where
  "votes_in (LogMsg s v rd h) = [VLog v rd]"
| "votes_in (RepairHistory s v rd h) = [VHistory v rd h]"
| "votes_in (RepairPrepare s v rd h) = [VPrepare v rd h]"
| "votes_in (RepairCommit s v rd h) = [VCommit v rd h]"
| "votes_in (RepairDone s v rd h) = [VDone v rd h]"
| "votes_in m = []"

definition votes_of :: "effect list \<Rightarrow> vote list" where
  "votes_of es = concat (map (\<lambda>e. votes_in (effect_message e)) es)"

lemma votes_of_simps [simp]:
  "votes_of [] = []" "votes_of (e # es) = votes_in (effect_message e) @ votes_of es"
  "votes_of (es @ fs) = votes_of es @ votes_of fs"
  by (simp_all add: votes_of_def)

lemma VLog_in: "VLog v rd \<in> set (votes_in m) \<longleftrightarrow> (\<exists>s h. m = LogMsg s v rd h)"
  by (cases m) auto

lemma control_of_fresh: "control_of (fresh_replica cfg node) = control_new"
  by (simp add: control_of_def control_new_def fresh_replica_def initial_state_def)

text \<open>The steps of the automaton, stated on a replica.\<close>

lemma enter_control:
  assumes "phase (state r) \<in> {Speculative, Aligning}"
  shows "control_step chk (control_of r) [VLog (view (state r)) (round (state r))] (control_of (start_repair r))"
  using control_step.enter [of "control_of r" chk] assms
  by (simp add: control_of_def start_repair_def)

lemma next_round_control:
  assumes "add_u64 chk (round (state r)) 1 = Inr rd"
    and "control_of r' = (control_of r)\<lparr>c_phase := Speculative, c_round := rd, c_history := 0\<rparr>"
  shows "phase (state r) = CommitPhase \<Longrightarrow> control_step chk (control_of r)
      [VDone (view (state r)) (round (state r)) (proposed_history_hash (state r))] (control_of r')"
    and "phase (state r) \<in> repair_phases \<Longrightarrow> control_step chk (control_of r) [] (control_of r')"
  using control_step.finish [of "control_of r" chk rd] control_step.catch_up [of "control_of r" chk rd]
    assms by (auto simp: control_of_def)

lemma transition_control:
  assumes "transition E M r es r'" and "phase_ok (state r)"
  shows "control_step (overflow_checks E) (control_of r) (votes_of es) (control_of r')"
  using assms
proof (induction rule: transition.induct)
  case (speculate m r k r' es)
  then have "control_of r' = control_of r" and "votes_of es = []"
    by (auto simp: handle_speculate_def Let_def bind_outcome_Inr_iff control_of_def)
  then show ?case by (simp add: control_step.stay)
next
  case (form_checkpoint r k r' es)
  then have "control_of r' = control_of r" and "votes_of es = []"
    by (auto simp: handle_form_checkpoint_def Let_def control_of_def)
  then show ?case by (simp add: control_step.stay)
next
  case (enter_align r k r' es)
  then show ?case
    using control_step.align [of "control_of r"] can_enter_align_phase [OF enter_align(1)]
    by (auto simp: handle_enter_align_def control_of_def)
next
  case (conflict_proof r k r' es)
  then show ?case
    using enter_control [of r] can_conflict_proof_phase [OF conflict_proof(1)]
    by (auto simp: handle_conflict_proof_def own_log_msg_def)
next
  case (timeout_proof r k r' es)
  then show ?case
    using enter_control [of r] can_timeout_proof_phase [OF timeout_proof(1)]
    by (auto simp: handle_timeout_proof_def own_log_msg_def)
next
  case (enter_repair m r rd r' es)
  have "phase (state r) \<in> {Speculative, Aligning}"
    using can_enter_repair_phase [OF enter_repair(2)] enter_repair(4)
    by (cases "phase (state r)") (auto simp: phase_ok_def)
  with enter_repair(3) show ?case
    using enter_control [of r] by (auto simp: handle_enter_repair_def own_log_msg_def)
next
  case (state_reply m r k r' es)
  then show ?case
    using control_step.aligned [of "control_of r"] can_state_reply_phase [OF state_reply(2)]
    by (auto simp: handle_state_reply_def Let_def bind_outcome_Inr_iff control_of_def)
next
  case (broadcast_history r h r' es)
  then show ?case
    using control_step.propose [of "control_of r" _ h] can_broadcast_history_phase [OF broadcast_history(1)]
    by (auto simp: handle_broadcast_history_def control_of_def)
next
  case (repair_prepare r h r' es)
  then show ?case
    using control_step.prepare [of "control_of r" _ h] can_repair_prepare_phase [OF repair_prepare(1)]
    by (auto simp: handle_repair_prepare_def control_of_def)
next
  case (repair_commit r h r' es)
  then show ?case
    using control_step.commit [of "control_of r"] can_repair_commit_phase [OF repair_commit(1)]
    by (auto simp: handle_repair_commit_def control_of_def)
next
  case (apply_repair r h r' es)
  obtain rd where rd: "add_u64 (overflow_checks E) (round (state r)) 1 = Inr rd"
    "control_of r' = (control_of r)\<lparr>c_phase := Speculative, c_round := rd, c_history := 0\<rparr>"
    "votes_of es = [VDone (view (state r)) (round (state r)) h]"
    using apply_repair(2) by (auto simp: handle_apply_repair_def Let_def bind_outcome_Inr_iff control_of_def)
  with next_round_control(1) [OF rd(1,2)] can_apply_repair_phase [OF apply_repair(1)]
  show ?case by simp
next
  case (repair_done_catchup r rd r' es)
  obtain rd' where rd': "add_u64 (overflow_checks E) (round (state r)) 1 = Inr rd'"
    "control_of r' = (control_of r)\<lparr>c_phase := Speculative, c_round := rd', c_history := 0\<rparr>" "es = []"
    using repair_done_catchup(2) by (auto simp: handle_repair_done_catchup_def bind_outcome_Inr_iff control_of_def)
  with next_round_control(2) [OF rd'(1,2)] can_repair_done_catchup_phase [OF repair_done_catchup(1)]
  show ?case by simp
next
  case (view_change r ev v r' es)
  then show ?case
    using control_step.change_view [of "control_of r" _ v] can_view_change_phase [OF view_change(1)]
    by (auto simp: handle_view_change_def control_of_def)
qed (auto simp: store_defs handle_send_sync_def handle_chkpt_timeout_def handle_state_request_def
       control_of_def intro: control_step.stay)

definition control_refines :: "bool \<Rightarrow> replica \<Rightarrow> replica \<Rightarrow> effect list \<Rightarrow> bool" where
  "control_refines chk r r' es \<longleftrightarrow> (phase_ok (state r) \<longrightarrow>
     phase_ok (state r') \<and> control_run chk (control_of r) (votes_of es) (control_of r'))"

interpretation ctl: transition_law E M "control_refines (overflow_checks E)" for E M
proof (unfold_locales, goal_cases)
  case (2 r s es t fs)
  then show ?case using control_run_trans by (fastforce simp: control_refines_def)
next
  case (3 r es r')
  then show ?case
    using transition_control [OF 3] transition_phase_ok [OF 3] control_run_one
    by (simp add: control_refines_def)
qed (simp add: control_refines_def control_run.halt)

lemma run_control:
  assumes "replica_run E inputs (fresh_replica cfg node) = Inr (r', es)"
  shows "control_run (overflow_checks E) control_new (votes_of es) (control_of r')"
proof -
  have "phase_ok (state (fresh_replica cfg node))"
    by (simp add: phase_ok_def fresh_replica_def initial_state_def)
  then show ?thesis
    using ctl.run_law [OF assms subset_refl] by (simp add: control_refines_def control_of_fresh)
qed

section \<open>The order of votes\<close>

text \<open>What must come before a vote, given the set of the votes cast so far.\<close>

fun preceded :: "vote set \<Rightarrow> vote \<Rightarrow> bool" where
  "preceded S (VLog v rd) \<longleftrightarrow> True"
| "preceded S (VHistory v rd h) \<longleftrightarrow> VLog v rd \<in> S"
| "preceded S (VPrepare v rd h) \<longleftrightarrow> VLog v rd \<in> S"
| "preceded S (VCommit v rd h) \<longleftrightarrow> VPrepare v rd h \<in> S \<or> VHistory v rd h \<in> S"
| "preceded S (VDone v rd h) \<longleftrightarrow> VCommit v rd h \<in> S"

fun in_order :: "vote set \<Rightarrow> vote list \<Rightarrow> bool" where
  "in_order S [] \<longleftrightarrow> True"
| "in_order S (x # xs) \<longleftrightarrow> preceded S x \<and> in_order (insert x S) xs"

text \<open>The votes behind a control state.\<close>

definition votes_ok :: "vote set \<Rightarrow> control \<Rightarrow> bool" where
  "votes_ok S c \<longleftrightarrow>
     (c_phase c \<in> repair_phases \<longrightarrow> VLog (c_view c) (c_round c) \<in> S) \<and>
     (c_phase c \<in> {PreparePhase, CommitPhase} \<longrightarrow>
        VPrepare (c_view c) (c_round c) (c_history c) \<in> S \<or>
        VHistory (c_view c) (c_round c) (c_history c) \<in> S) \<and>
     (c_phase c = CommitPhase \<longrightarrow> VCommit (c_view c) (c_round c) (c_history c) \<in> S)"

lemma in_order_append: "in_order S (xs @ ys) \<longleftrightarrow> in_order S xs \<and> in_order (S \<union> set xs) ys"
  by (induction S xs rule: in_order.induct) auto

lemma in_order_split: "in_order S (xs @ x # ys) \<Longrightarrow> preceded (S \<union> set xs) x"
  by (simp add: in_order_append)

lemma control_step_votes:
  "control_step chk c vs c' \<Longrightarrow> votes_ok S c \<Longrightarrow> in_order S vs \<and> votes_ok (S \<union> set vs) c'"
  by (induction rule: control_step.induct) (auto simp: votes_ok_def)

lemma control_run_votes:
  "control_run chk c vs c' \<Longrightarrow> votes_ok S c \<Longrightarrow> in_order S vs"
proof (induction arbitrary: S rule: control_run.induct)
  case (go c vs c' ws c'')
  then show ?case using control_step_votes [OF go(1,4)] by (simp add: in_order_append)
qed simp

lemma votes_ok_new: "votes_ok {} control_new"
  by (simp add: votes_ok_def control_new_def)

text \<open>The rounds a replica has left: each was announced by a LOG.\<close>

definition rounds_ok :: "vote set \<Rightarrow> control \<Rightarrow> bool" where
  "rounds_ok S c \<longleftrightarrow> (\<forall>rd < c_round c. \<exists>v. VLog v rd \<in> S)"

lemma rounds_ok_next:
  assumes "rounds_ok S c" and "VLog v (c_round c) \<in> S" and "add_u64 chk (c_round c) 1 = Inr rd"
    and "c_round c' = rd"
  shows "rounds_ok S c'"
proof (cases "c_round c = - 1")
  case True
  then have "c_round c' = 0" using add_u64_Inr [OF assms(3)] assms(4) by simp
  then show ?thesis by (simp add: rounds_ok_def)
next
  case False
  then have "rd' < c_round c' \<longleftrightarrow> rd' < c_round c \<or> rd' = c_round c" for rd'
    using add_u64_Inr [OF assms(3)] assms(4) by (auto simp: less_succ_u64)
  then show ?thesis using assms(1,2) by (auto simp: rounds_ok_def)
qed

lemma rounds_ok_mono: "rounds_ok S c \<Longrightarrow> S \<subseteq> T \<Longrightarrow> c_round c' = c_round c \<Longrightarrow> rounds_ok T c'"
  unfolding rounds_ok_def by fastforce

lemma control_step_rounds:
  assumes "control_step chk c vs c'" and "votes_ok S c" and "rounds_ok S c"
  shows "rounds_ok (S \<union> set vs) c'"
  using assms(1)
proof (cases rule: control_step.cases)
  case (finish rd)
  then have "VLog (c_view c) (c_round c) \<in> S \<union> set vs" using assms(2) by (simp add: votes_ok_def)
  moreover have "rounds_ok (S \<union> set vs) c" by (rule rounds_ok_mono [OF assms(3)]) simp_all
  ultimately show ?thesis using rounds_ok_next [of "S \<union> set vs" c "c_view c" chk rd c'] finish by simp
next
  case (catch_up rd)
  then have "VLog (c_view c) (c_round c) \<in> S" using assms(2) by (auto simp: votes_ok_def)
  with rounds_ok_next [OF assms(3)] catch_up show ?thesis by simp
qed (auto intro!: rounds_ok_mono [OF assms(3)])

lemma control_run_rounds:
  "control_run chk c vs c' \<Longrightarrow> votes_ok S c \<Longrightarrow> rounds_ok S c \<Longrightarrow> rounds_ok (S \<union> set vs) c'"
proof (induction arbitrary: S rule: control_run.induct)
  case (go c vs c' ws c'')
  then show ?case
    using go.IH [of "S \<union> set vs"] control_step_votes [OF go(1,4)] control_step_rounds [OF go(1,4,5)]
    by (simp add: Un_assoc)
qed simp

end
