(* ===== verification/Rocks_Store.thy ===== *)
theory Rocks_Store
  imports Kv_Store
begin

text \<open>
  The optional backend \<open>RocksKvStore\<close> (module \<^verbatim>\<open>rocks\<close> of \<^verbatim>\<open>kv_store.rs\<close>, feature
  \<^verbatim>\<open>rocksdb-backend\<close>). The RocksDB library and bincode's integer codecs are arguments: records
  of functions, whose documented behaviour is stated by \<open>rocks_laws\<close> and \<open>codec_ok\<close>. A call that
  can fail returns the database with the result, since a failing call may follow one that has
  already written.
\<close>

section \<open>Keys\<close>

type_synonym bytes = "u8 list"

text \<open>\<open>u64::to_be_bytes\<close>, and the number a byte list denotes.\<close>

definition be_bytes :: "u64 \<Rightarrow> bytes" where
  "be_bytes w = map (\<lambda>k. ucast (drop_bit (8 * k) w)) (rev [0..<8])"

fun be_value :: "bytes \<Rightarrow> nat" where
  "be_value [] = 0"
| "be_value (b # bs) = unat b * 256 ^ length bs + be_value bs"

lemma unat_byte: "unat (ucast (drop_bit n w) :: u8) = unat (w :: u64) div 2 ^ n mod 256"
  by (simp add: unat_drop_bit_eq unsigned_ucast_eq take_bit_eq_mod drop_bit_eq_div [where 'a = nat, symmetric])

lemma be_value_digits:
  fixes w :: u64
  shows "be_value (map (\<lambda>k. ucast (drop_bit (8 * k) w)) (rev [0..<n])) = unat w mod 256 ^ n"
proof (induction n)
  case 0
  then show ?case by simp
next
  case (Suc n)
  have "unat w mod 256 ^ Suc n = 256 ^ n * (unat w div 256 ^ n mod 256) + unat w mod 256 ^ n"
    using mod_mult2_eq [of "unat w" "256 ^ n" 256] by (simp add: mult.commute)
  moreover have "(2 :: nat) ^ (8 * n) = 256 ^ n" by (simp add: power_mult)
  then have "unat (ucast (drop_bit (8 * n) w) :: u8) = unat w div 256 ^ n mod 256"
    using unat_byte [of "8 * n" w] by simp
  ultimately show ?case using Suc by (simp add: mult.commute [of _ "256 ^ n"])
qed

lemma be_value_be_bytes: "be_value (be_bytes w) = unat w"
  using be_value_digits [of w 8] unat_u64_less [of w] by (simp add: be_bytes_def)

lemma length_be_bytes [simp]: "length (be_bytes w) = 8"
  by (simp add: be_bytes_def)

lemma be_bytes_inject [simp]: "be_bytes a = be_bytes b \<longleftrightarrow> a = b"
  by (metis be_value_be_bytes unat_eq_iff)

lemma be_value_less: "be_value bs < 256 ^ length bs"
proof (induction bs)
  case (Cons b bs)
  have "unat b < 256" using unsigned_less [of b, where 'a = nat] by simp
  then have "Suc (unat b) * 256 ^ length bs \<le> 256 * 256 ^ length bs"
    by (intro mult_le_mono1) simp
  moreover have "256 ^ length (b # bs) = 256 * (256 :: nat) ^ length bs" by simp
  ultimately show ?case using Cons unfolding be_value.simps mult_Suc by linarith
qed simp

text \<open>Lexicographic comparison of equally long byte lists is comparison of the numbers.\<close>

lemma be_value_mono: "length bs = length cs \<Longrightarrow> bs < cs \<longleftrightarrow> be_value bs < be_value cs"
proof (induction bs cs rule: list_induct2)
  case (Cons b bs c cs)
  have bound: "be_value bs < 256 ^ length cs" "be_value cs < 256 ^ length cs"
    using be_value_less [of bs] be_value_less [of cs] Cons.hyps by simp_all
  have step: "x * m + p < y * m + q" if "x < y" "p < m" for x y m p q :: nat
  proof -
    have "Suc x * m \<le> y * m" using that(1) by (intro mult_le_mono1) simp
    then show ?thesis using that(2) by simp
  qed
  show ?case
  proof (cases "b = c")
    case True
    then show ?thesis using Cons by simp
  next
    case False
    then consider "unat b < unat c" | "unat c < unat b"
      by (metis linorder_neqE_nat unat_eq_iff)
    then show ?thesis
      using step [of "unat b" "unat c" "be_value bs" "256 ^ length cs" "be_value cs"]
        step [of "unat c" "unat b" "be_value cs" "256 ^ length cs" "be_value bs"] bound Cons.hyps False
      by cases (auto simp: word_less_nat_alt)
  qed
qed simp

lemma be_bytes_mono: "be_bytes a < be_bytes b \<longleftrightarrow> a < b"
  by (simp add: be_value_mono be_value_be_bytes word_less_nat_alt)

lemma be_bytes_mono_eq: "be_bytes a \<le> be_bytes b \<longleftrightarrow> a \<le> b"
  using be_bytes_mono [of b a] by (meson not_le)

section \<open>The libraries\<close>

text \<open>
  What the module calls of RocksDB, on a database value \<open>'db\<close>: \<open>DB::open_cf_descriptors\<close>,
  \<open>cf_handle\<close>, \<open>get\<close>, \<open>get_cf\<close>, \<open>put_cf\<close>, \<open>write\<close> of a batch, \<open>delete_range_cf\<close> and the first
  item of \<open>iterator(IteratorMode::End)\<close>; and bincode on the types that only this module encodes
  or decodes.
\<close>

datatype batch_op = BatchPut bytes bytes | BatchPutCf string bytes bytes

record rocks_options =
  create_if_missing :: bool
  create_missing_column_families :: bool

record 'db rocks_api =
  db_open :: "rocks_options \<Rightarrow> string \<Rightarrow> string list \<Rightarrow> string + 'db"
  db_has_cf :: "'db \<Rightarrow> string \<Rightarrow> bool"
  db_get :: "'db \<Rightarrow> bytes \<Rightarrow> string + bytes option"
  db_get_cf :: "'db \<Rightarrow> string \<Rightarrow> bytes \<Rightarrow> string + bytes option"
  db_put_cf :: "'db \<Rightarrow> string \<Rightarrow> bytes \<Rightarrow> bytes \<Rightarrow> 'db \<times> (string + unit)"
  db_write :: "'db \<Rightarrow> batch_op list \<Rightarrow> 'db \<times> (string + unit)"
  db_delete_range_cf :: "'db \<Rightarrow> string \<Rightarrow> bytes \<Rightarrow> bytes \<Rightarrow> 'db \<times> (string + unit)"
  db_iter_end :: "'db \<Rightarrow> (string + bytes \<times> bytes) option"

record codec =
  enc_u64 :: "u64 \<Rightarrow> string + bytes"
  dec_u64 :: "bytes \<Rightarrow> string + u64"
  enc_hash :: "hash \<Rightarrow> string + bytes"
  dec_hash :: "bytes \<Rightarrow> string + hash"
  dec_entry :: "bytes \<Rightarrow> string + kv_entry"

text \<open>The helpers \<open>encode\<close> and \<open>decode\<close> at these types, and \<open>?\<close> on a RocksDB error.\<close>

definition encode_with :: "('a \<Rightarrow> string + bytes) \<Rightarrow> 'a \<Rightarrow> bytes result" where
  "encode_with enc v = (case enc v of
     Inl e \<Rightarrow> Inl (BincodeEncode (''bincode encode: '' @ e)) | Inr bs \<Rightarrow> Inr bs)"

definition decode_with :: "(bytes \<Rightarrow> string + 'a) \<Rightarrow> bytes \<Rightarrow> 'a result" where
  "decode_with dec bs = (case dec bs of
     Inl e \<Rightarrow> Inl (BincodeDecode (''bincode decode: '' @ e)) | Inr v \<Rightarrow> Inr v)"

definition db_error :: "string + 'a \<Rightarrow> 'a result" where
  "db_error r = (case r of Inl e \<Rightarrow> Inl (RocksDb e) | Inr v \<Rightarrow> Inr v)"

definition db_result :: "'db \<times> (string + unit) \<Rightarrow> 'db \<times> unit result" where
  "db_result r = (fst r, db_error (snd r))"

text \<open>\<open>?\<close> after a call that reads (the value inside a possible panic), and in an update of \<open>db\<close>.\<close>

definition try_read :: "'a result outcome \<Rightarrow> ('a \<Rightarrow> 'b result outcome) \<Rightarrow> 'b result outcome" where
  "try_read x k = bind_outcome x (\<lambda>r. case r of Inl e \<Rightarrow> Inr (Inl e) | Inr v \<Rightarrow> k v)"

definition try_update :: "'db \<Rightarrow> 'a result outcome \<Rightarrow> ('a \<Rightarrow> ('db \<times> unit result) outcome) \<Rightarrow>
    ('db \<times> unit result) outcome" where
  "try_update db x k = bind_outcome x (\<lambda>r. case r of Inl e \<Rightarrow> Inr (db, Inl e) | Inr v \<Rightarrow> k v)"

lemma try_simps [simp]:
  "try_read (Inr (Inr v)) k = k v"
  "try_read (Inr (Inl e)) k = Inr (Inl e)"
  "try_read (Inl p) k = Inl p"
  "try_update db (Inr (Inr v)) l = l v"
  "try_update db (Inr (Inl e)) l = Inr (db, Inl e)"
  "try_update db (Inl p) l = Inl p"
  by (simp_all add: try_read_def try_update_def)

section \<open>RocksKvStore\<close>

definition ascii :: "string \<Rightarrow> bytes" where
  "ascii s = map of_char s"

definition META_KV_SIZE :: bytes where "META_KV_SIZE = ascii ''kv_size''"

definition META_CHKPT_IDX :: bytes where "META_CHKPT_IDX = ascii ''chkpt_idx''"

definition META_CHKPT_HASH :: bytes where "META_CHKPT_HASH = ascii ''chkpt_hash''"

definition entry_key :: "u64 \<Rightarrow> bytes" where
  "entry_key idx = be_bytes idx"

definition rocks_open :: "'db rocks_api \<Rightarrow> string \<Rightarrow> 'db result" where
  "rocks_open A path =
     (case db_open A \<lparr>create_if_missing = True, create_missing_column_families = True\<rparr> path
        [''default'', ''meta''] of
        Inl e \<Rightarrow> Inl (OpenFailed (''failed to open RocksDB: '' @ e))
      | Inr db \<Rightarrow> Inr db)"

definition cf_expect :: "'db rocks_api \<Rightarrow> 'db \<Rightarrow> string \<Rightarrow> string \<Rightarrow> string result outcome" where
  "cf_expect A db cf msg = (if db_has_cf A db cf then Inr (Inr cf) else Inl (ExpectFailed msg))"

definition meta_cf :: "'db rocks_api \<Rightarrow> 'db \<Rightarrow> string result outcome" where
  "meta_cf A db = cf_expect A db ''meta'' ''meta CF always present''"

definition read_meta_u64 :: "codec \<Rightarrow> 'db rocks_api \<Rightarrow> 'db \<Rightarrow> bytes \<Rightarrow> u64 result outcome" where
  "read_meta_u64 C A db key =
     try_read (meta_cf A db) (\<lambda>cf.
     try_read (Inr (db_error (db_get_cf A db cf key))) (\<lambda>found.
       Inr (case found of Some v \<Rightarrow> decode_with (dec_u64 C) v | None \<Rightarrow> Inr 0)))"

definition write_meta_u64 ::
    "codec \<Rightarrow> 'db rocks_api \<Rightarrow> 'db \<Rightarrow> bytes \<Rightarrow> u64 \<Rightarrow> ('db \<times> unit result) outcome" where
  "write_meta_u64 C A db key value =
     try_update db (Inr (encode_with (enc_u64 C) value)) (\<lambda>encoded.
     try_update db (meta_cf A db) (\<lambda>cf.
       Inr (db_result (db_put_cf A db cf key encoded))))"

definition rocks_get_chkpt_idx :: "codec \<Rightarrow> 'db rocks_api \<Rightarrow> 'db \<Rightarrow> u64 result outcome" where
  "rocks_get_chkpt_idx C A db = read_meta_u64 C A db META_CHKPT_IDX"

definition rocks_set_chkpt_idx ::
    "codec \<Rightarrow> 'db rocks_api \<Rightarrow> 'db \<Rightarrow> u64 \<Rightarrow> ('db \<times> unit result) outcome" where
  "rocks_set_chkpt_idx C A db idx = write_meta_u64 C A db META_CHKPT_IDX idx"

definition rocks_get_chkpt_hash :: "codec \<Rightarrow> 'db rocks_api \<Rightarrow> 'db \<Rightarrow> hash result outcome" where
  "rocks_get_chkpt_hash C A db =
     try_read (meta_cf A db) (\<lambda>cf.
     try_read (Inr (db_error (db_get_cf A db cf META_CHKPT_HASH))) (\<lambda>found.
       Inr (case found of Some v \<Rightarrow> decode_with (dec_hash C) v | None \<Rightarrow> Inr zero_hash)))"

definition rocks_set_chkpt_hash ::
    "codec \<Rightarrow> 'db rocks_api \<Rightarrow> 'db \<Rightarrow> hash \<Rightarrow> ('db \<times> unit result) outcome" where
  "rocks_set_chkpt_hash C A db h =
     try_update db (Inr (encode_with (enc_hash C) h)) (\<lambda>encoded.
     try_update db (meta_cf A db) (\<lambda>cf.
       Inr (db_result (db_put_cf A db cf META_CHKPT_HASH encoded))))"

definition rocks_get :: "codec \<Rightarrow> 'db rocks_api \<Rightarrow> 'db \<Rightarrow> u64 \<Rightarrow> kv_entry option result" where
  "rocks_get C A db idx =
     (case db_error (db_get A db (entry_key idx)) of
        Inl e \<Rightarrow> Inl e
      | Inr None \<Rightarrow> Inr None
      | Inr (Some bytes) \<Rightarrow>
          (case decode_with (dec_entry C) bytes of Inl e \<Rightarrow> Inl e | Inr v \<Rightarrow> Inr (Some v)))"

definition rocks_put ::
    "env \<Rightarrow> codec \<Rightarrow> 'db rocks_api \<Rightarrow> 'db \<Rightarrow> u64 \<Rightarrow> kv_entry \<Rightarrow> ('db \<times> unit result) outcome" where
  "rocks_put E C A db idx entry =
     try_update db (Inr (encode E entry)) (\<lambda>value.
     try_update db (read_meta_u64 C A db META_KV_SIZE) (\<lambda>current_size.
     bind_outcome (add_u64 (overflow_checks E) idx 1) (\<lambda>next.
       let batch = [BatchPut (entry_key idx) value];
           new_size = max current_size next
       in if current_size < new_size
          then try_update db (Inr (encode_with (enc_u64 C) new_size)) (\<lambda>size_bytes.
               try_update db (meta_cf A db) (\<lambda>cf.
                 Inr (db_result (db_write A db (batch @ [BatchPutCf cf META_KV_SIZE size_bytes])))))
          else Inr (db_result (db_write A db batch)))))"

definition rocks_size :: "codec \<Rightarrow> 'db rocks_api \<Rightarrow> 'db \<Rightarrow> u64 outcome" where
  "rocks_size C A db =
     bind_outcome (read_meta_u64 C A db META_KV_SIZE) (\<lambda>r. Inr (unwrap_or 0 r))"

definition rocks_top_hash :: "codec \<Rightarrow> 'db rocks_api \<Rightarrow> 'db \<Rightarrow> hash" where
  "rocks_top_hash C A db =
     (case db_iter_end A db of
        Some (Inr (key, value)) \<Rightarrow>
          (case decode_with (dec_entry C) value of Inr entry \<Rightarrow> prev_hash entry | Inl e \<Rightarrow> zero_hash)
      | _ \<Rightarrow> zero_hash)"

definition rocks_hash_at :: "env \<Rightarrow> codec \<Rightarrow> 'db rocks_api \<Rightarrow> 'db \<Rightarrow> u64 \<Rightarrow> hash result" where
  "rocks_hash_at E C A db idx =
     (case rocks_get C A db idx of
        Inl e \<Rightarrow> Inl e
      | Inr None \<Rightarrow> Inl (NoEntryAt idx)
      | Inr (Some entry) \<Rightarrow> entry_hash E entry)"

text \<open>The loop of \<open>rebuild_from_entries\<close>: \<open>max_idx\<close> and the batch so far.\<close>

fun rebuild_loop :: "env \<Rightarrow> (u64 \<times> kv_entry) list \<Rightarrow> u64 \<Rightarrow> batch_op list \<Rightarrow>
    (u64 \<times> batch_op list) result outcome" where
  "rebuild_loop E [] max_idx batch = Inr (Inr (max_idx, batch))"
| "rebuild_loop E ((idx, entry) # es) max_idx batch =
     try_read (Inr (encode E entry)) (\<lambda>value.
     bind_outcome (add_u64 (overflow_checks E) idx 1) (\<lambda>next.
       rebuild_loop E es (if max_idx < next then next else max_idx)
         (batch @ [BatchPut (entry_key idx) value])))"

definition rocks_rebuild_from_entries :: "env \<Rightarrow> codec \<Rightarrow> 'db rocks_api \<Rightarrow> 'db \<Rightarrow>
    (u64 \<times> kv_entry) list \<Rightarrow> ('db \<times> unit result) outcome" where
  "rocks_rebuild_from_entries E C A db es =
     try_update db (cf_expect A db ''default'' ''default CF'') (\<lambda>cf.
       let (db1, deleted) = db_result (db_delete_range_cf A db cf (be_bytes 0) (be_bytes (- 1)))
       in try_update db1 (Inr deleted) (\<lambda>_.
          try_update db1 (rebuild_loop E es 0 []) (\<lambda>(max_idx, batch).
          try_update db1 (Inr (encode_with (enc_u64 C) max_idx)) (\<lambda>size_bytes.
          try_update db1 (meta_cf A db1) (\<lambda>cf.
            Inr (db_result (db_write A db1 (batch @ [BatchPutCf cf META_KV_SIZE size_bytes]))))))))"

section \<open>What the libraries promise\<close>

text \<open>
  A view of a database: the calls succeed on a \<open>healthy\<close> one (the disk does not fail), and the two
  column families are byte maps. RocksDB documents atomic batches applied in order, a half-open
  range for \<open>delete_range_cf\<close>, and the bytewise lexicographic order of keys for iteration.
\<close>

record 'db rocks_view =
  healthy :: "'db \<Rightarrow> bool"
  dat :: "'db \<Rightarrow> bytes \<Rightarrow> bytes option"
  mta :: "'db \<Rightarrow> bytes \<Rightarrow> bytes option"

fun batch_dat :: "batch_op list \<Rightarrow> (bytes \<Rightarrow> bytes option) \<Rightarrow> bytes \<Rightarrow> bytes option" where
  "batch_dat [] m = m"
| "batch_dat (BatchPut k v # b) m = batch_dat b (m(k \<mapsto> v))"
| "batch_dat (BatchPutCf cf k v # b) m = batch_dat b (if cf = ''default'' then m(k \<mapsto> v) else m)"

fun batch_mta :: "batch_op list \<Rightarrow> (bytes \<Rightarrow> bytes option) \<Rightarrow> bytes \<Rightarrow> bytes option" where
  "batch_mta [] m = m"
| "batch_mta (BatchPut k v # b) m = batch_mta b m"
| "batch_mta (BatchPutCf cf k v # b) m = batch_mta b (if cf = ''meta'' then m(k \<mapsto> v) else m)"

fun known_cf :: "batch_op \<Rightarrow> bool" where
  "known_cf (BatchPut k v) \<longleftrightarrow> True"
| "known_cf (BatchPutCf cf k v) \<longleftrightarrow> cf = ''default'' \<or> cf = ''meta''"

lemma batch_dat_append: "batch_dat (b @ c) m = batch_dat c (batch_dat b m)"
  by (induction b m rule: batch_dat.induct) (simp_all del: fun_upd_apply)

lemma batch_mta_append: "batch_mta (b @ c) m = batch_mta c (batch_mta b m)"
  by (induction b m rule: batch_mta.induct) (simp_all del: fun_upd_apply)

definition becomes :: "'db rocks_view \<Rightarrow> 'db \<times> (string + unit) \<Rightarrow> (bytes \<Rightarrow> bytes option) \<Rightarrow>
    (bytes \<Rightarrow> bytes option) \<Rightarrow> bool" where
  "becomes V r d m \<longleftrightarrow>
     snd r = Inr () \<and> healthy V (fst r) \<and> dat V (fst r) = d \<and> mta V (fst r) = m"

definition rocks_laws :: "'db rocks_api \<Rightarrow> 'db rocks_view \<Rightarrow> bool" where
  "rocks_laws A V \<longleftrightarrow> (\<forall>db. healthy V db \<longrightarrow>
     db_has_cf A db ''default'' \<and> db_has_cf A db ''meta'' \<and>
     (\<forall>k. db_get A db k = Inr (dat V db k)) \<and>
     (\<forall>k. db_get_cf A db ''meta'' k = Inr (mta V db k)) \<and>
     (\<forall>k v. becomes V (db_put_cf A db ''meta'' k v) (dat V db) ((mta V db)(k \<mapsto> v))) \<and>
     (\<forall>b. list_all known_cf b \<longrightarrow>
        becomes V (db_write A db b) (batch_dat b (dat V db)) (batch_mta b (mta V db))) \<and>
     (\<forall>lo hi. becomes V (db_delete_range_cf A db ''default'' lo hi)
        (\<lambda>k. if lo \<le> k \<and> k < hi then None else dat V db k) (mta V db)) \<and>
     (dat V db = Map.empty \<longrightarrow> db_iter_end A db = None) \<and>
     (\<forall>k v. dat V db k = Some v \<and> (\<forall>j > k. dat V db j = None) \<longrightarrow>
        db_iter_end A db = Some (Inr (k, v))))"

definition codec_ok :: "env \<Rightarrow> codec \<Rightarrow> bool" where
  "codec_ok E C \<longleftrightarrow>
     (\<forall>e. \<exists>bs. bincode_encode E e = Inr bs \<and> dec_entry C bs = Inr e) \<and>
     (\<forall>w. \<exists>bs. enc_u64 C w = Inr bs \<and> dec_u64 C bs = Inr w) \<and>
     (\<forall>h. \<exists>bs. enc_hash C h = Inr bs \<and> dec_hash C bs = Inr h)"

lemma rocks_lawsD:
  assumes "rocks_laws A V" and "healthy V db"
  shows "db_has_cf A db ''default''" "db_has_cf A db ''meta''"
    "db_get A db k = Inr (dat V db k)"
    "db_get_cf A db ''meta'' k = Inr (mta V db k)"
    "becomes V (db_put_cf A db ''meta'' k v) (dat V db) ((mta V db)(k \<mapsto> v))"
    "list_all known_cf b \<Longrightarrow>
       becomes V (db_write A db b) (batch_dat b (dat V db)) (batch_mta b (mta V db))"
    "becomes V (db_delete_range_cf A db ''default'' lo hi)
       (\<lambda>k. if lo \<le> k \<and> k < hi then None else dat V db k) (mta V db)"
    "dat V db = Map.empty \<Longrightarrow> db_iter_end A db = None"
    "dat V db k = Some v \<Longrightarrow> (\<And>j. k < j \<Longrightarrow> dat V db j = None) \<Longrightarrow>
       db_iter_end A db = Some (Inr (k, v))"
  using assms unfolding rocks_laws_def by blast+

lemma codec_entry:
  assumes "codec_ok E C"
  obtains bs where "encode E e = Inr bs" and "decode_with (dec_entry C) bs = Inr e"
proof -
  from assms obtain bs where "bincode_encode E e = Inr bs" "dec_entry C bs = Inr e"
    unfolding codec_ok_def by blast
  then show ?thesis using that [of bs] by (simp add: encode_def decode_with_def)
qed

lemma codec_u64:
  assumes "codec_ok E C"
  obtains bs where "encode_with (enc_u64 C) w = Inr bs" and "decode_with (dec_u64 C) bs = Inr w"
proof -
  from assms obtain bs where "enc_u64 C w = Inr bs" "dec_u64 C bs = Inr w"
    unfolding codec_ok_def by blast
  then show ?thesis using that [of bs] by (simp add: encode_with_def decode_with_def)
qed

lemma codec_hash:
  assumes "codec_ok E C"
  obtains bs where "encode_with (enc_hash C) h = Inr bs" and "decode_with (dec_hash C) bs = Inr h"
proof -
  from assms obtain bs where "enc_hash C h = Inr bs" "dec_hash C bs = Inr h"
    unfolding codec_ok_def by blast
  then show ?thesis using that [of bs] by (simp add: encode_with_def decode_with_def)
qed

lemma becomesE:
  assumes "becomes V r d m"
  obtains t where "r = (t, Inr ())" and "healthy V t" and "dat V t = d" and "mta V t = m"
  using assms by (cases r) (auto simp: becomes_def)

lemma db_result_ok [simp]: "db_result (t, Inr ()) = (t, Inr ())" "db_error (Inr x) = Inr x"
  by (simp_all add: db_result_def db_error_def)

section \<open>The log in the database\<close>

text \<open>A byte map that represents a map of entries.\<close>

definition represents :: "codec \<Rightarrow> (bytes \<Rightarrow> bytes option) \<Rightarrow> (u64 \<Rightarrow> kv_entry option) \<Rightarrow> bool" where
  "represents C d l \<longleftrightarrow>
     (\<forall>k bs. d k = Some bs \<longrightarrow>
        (\<exists>i e. k = entry_key i \<and> decode_with (dec_entry C) bs = Inr e \<and> l i = Some e)) \<and>
     (\<forall>i e. l i = Some e \<longrightarrow>
        (\<exists>bs. d (entry_key i) = Some bs \<and> decode_with (dec_entry C) bs = Inr e))"

lemma entry_key_inject [simp]: "entry_key i = entry_key j \<longleftrightarrow> i = j"
  by (simp add: entry_key_def)

lemma represents_empty [simp]: "represents C Map.empty Map.empty"
  by (simp add: represents_def)

lemma represents_put:
  assumes "represents C d l" and "decode_with (dec_entry C) bs = Inr e"
  shows "represents C (d(entry_key i \<mapsto> bs)) (l(i \<mapsto> e))"
proof -
  have "\<exists>j e'. k = entry_key j \<and> decode_with (dec_entry C) bs' = Inr e' \<and> (l(i \<mapsto> e)) j = Some e'"
    if "(d(entry_key i \<mapsto> bs)) k = Some bs'" for k bs'
  proof (cases "k = entry_key i")
    case True
    then show ?thesis using that assms(2) by auto
  next
    case False
    then have "d k = Some bs'" using that by simp
    with assms(1) obtain j e' where "k = entry_key j" "decode_with (dec_entry C) bs' = Inr e'" "l j = Some e'"
      unfolding represents_def by blast
    with False show ?thesis by (intro exI [of _ j] exI [of _ e']) auto
  qed
  moreover have "\<exists>bs'. (d(entry_key i \<mapsto> bs)) (entry_key j) = Some bs' \<and> decode_with (dec_entry C) bs' = Inr e'"
    if "(l(i \<mapsto> e)) j = Some e'" for j e'
  proof (cases "j = i")
    case False
    then have "l j = Some e'" using that by simp
    with assms(1) False show ?thesis unfolding represents_def by simp
  qed (use that assms(2) in simp)
  ultimately show ?thesis unfolding represents_def by blast
qed

lemma represents_Some:
  assumes "represents C d l" and "d (entry_key i) = Some bs"
  obtains e where "decode_with (dec_entry C) bs = Inr e" and "l i = Some e"
proof -
  from assms obtain j e where "entry_key i = entry_key j"
    and "decode_with (dec_entry C) bs = Inr e" "l j = Some e"
    unfolding represents_def by blast
  then show ?thesis using that by simp
qed

lemma represents_None:
  assumes "represents C d l"
  shows "d (entry_key i) = None \<longleftrightarrow> l i = None"
proof (cases "d (entry_key i)")
  case None
  then have "l i \<noteq> Some e" for e using assms unfolding represents_def by fastforce
  with None show ?thesis by (cases "l i") auto
qed (use represents_Some [OF assms] in fastforce)

text \<open>The number stored under \<open>kv_size\<close>: one above the highest occupied index.\<close>

definition top_index :: "(u64 \<Rightarrow> kv_entry option) \<Rightarrow> u64 \<Rightarrow> bool" where
  "top_index l n \<longleftrightarrow> (\<forall>i. l i \<noteq> None \<longrightarrow> i < n) \<and> (n \<noteq> 0 \<longrightarrow> l (n - 1) \<noteq> None)"

lemma top_index_empty [simp]: "top_index Map.empty n \<longleftrightarrow> n = 0"
  by (auto simp: top_index_def)

lemma top_index_put:
  assumes "top_index l n" and "i \<noteq> - 1"
  shows "top_index (l(i \<mapsto> e)) (max n (i + 1))"
proof -
  have "j < max n (i + 1)" if "(l(i \<mapsto> e)) j \<noteq> None" for j
    using that assms by (cases "j = i") (auto simp: top_index_def less_succ_u64 less_max_iff_disj)
  moreover have "(l(i \<mapsto> e)) (max n (i + 1) - 1) \<noteq> None" if "max n (i + 1) \<noteq> 0"
    using that assms by (cases "n \<le> i + 1") (auto simp: top_index_def max_def)
  ultimately show ?thesis unfolding top_index_def by blast
qed

lemma top_index_unique:
  assumes "top_index l n" and "l i = Some e" and "\<And>j. i < j \<Longrightarrow> l j = None"
  shows "i \<noteq> - 1 \<and> n = i + 1"
proof -
  have less: "i < n" using assms(1,2) by (simp add: top_index_def)
  then have i: "i \<noteq> - 1" by (rule less_not_max_u64)
  have "n \<noteq> 0" using less by auto
  then have "l (n - 1) \<noteq> None" using assms(1) by (simp add: top_index_def)
  then have "\<not> i < n - 1" using assms(3) [of "n - 1"] by argo
  moreover have "unat (n - 1) = unat n - 1" using \<open>n \<noteq> 0\<close> by (rule unat_minus_one)
  ultimately have "unat n \<le> Suc (unat i)" unfolding word_less_nat_alt by linarith
  moreover have "unat i < unat n" using less by (simp only: word_less_nat_alt)
  ultimately have "unat n = unat (i + 1)" unfolding unat_succ_u64 [OF i] by linarith
  then have "n = i + 1" by (simp only: unat_eq_iff)
  with i show ?thesis by blast
qed

lemma rebuild_loop_ok:
  assumes "codec_ok E C" and "represents C d l" and "top_index l mx"
    and "\<And>i e. (i, e) \<in> set es \<Longrightarrow> i \<noteq> - 1"
  shows "\<exists>mx' b'. rebuild_loop E es mx b = Inr (Inr (mx', b @ b')) \<and>
     represents C (batch_dat b' d) (l ++ map_of (rev es)) \<and> top_index (l ++ map_of (rev es)) mx' \<and>
     (\<forall>m. batch_mta b' m = m) \<and> list_all known_cf b'"
  using assms(2-4)
proof (induction es arbitrary: d l mx b)
  case Nil
  then show ?case by (intro exI [of _ mx] exI [of _ "[]"]) simp
next
  case (Cons x es)
  obtain i e where x: "x = (i, e)" by (cases x)
  have i: "i \<noteq> - 1" using Cons.prems(3) [of i e] x by simp
  obtain bs where bs: "encode E e = Inr bs" "decode_with (dec_entry C) bs = Inr e"
    using codec_entry [OF assms(1)] by blast
  let ?b = "BatchPut (entry_key i) bs"
  have "\<exists>mx' b'. rebuild_loop E es (max mx (i + 1)) (b @ [?b]) = Inr (Inr (mx', (b @ [?b]) @ b')) \<and>
     represents C (batch_dat b' (d(entry_key i \<mapsto> bs))) (l(i \<mapsto> e) ++ map_of (rev es)) \<and>
     top_index (l(i \<mapsto> e) ++ map_of (rev es)) mx' \<and> (\<forall>m. batch_mta b' m = m) \<and> list_all known_cf b'"
    using Cons.prems(3)
    by (intro Cons.IH represents_put [OF Cons.prems(1) bs(2)] top_index_put [OF Cons.prems(2) i]) auto
  then obtain mx' b' where b': "rebuild_loop E es (max mx (i + 1)) (b @ [?b]) = Inr (Inr (mx', b @ ?b # b'))"
     "represents C (batch_dat b' (d(entry_key i \<mapsto> bs))) (l(i \<mapsto> e) ++ map_of (rev es))"
     "top_index (l(i \<mapsto> e) ++ map_of (rev es)) mx'" "\<forall>m. batch_mta b' m = m" "list_all known_cf b'"
    by auto
  have "l ++ map_of (rev es @ [(i, e)]) = l(i \<mapsto> e) ++ map_of (rev es)"
    by (rule ext) (simp add: map_add_def split: option.splits)
  moreover have "(if mx < i + 1 then i + 1 else mx) = max mx (i + 1)" by (auto simp: max_def)
  ultimately show ?case
    using b' bs(1) x i
    by (intro exI [of _ mx'] exI [of _ "?b # b'"]) (simp add: add_u64_one_ok del: fun_upd_apply)
qed

definition rocks_lookup :: "codec \<Rightarrow> 'db rocks_view \<Rightarrow> 'db \<Rightarrow> u64 \<Rightarrow> kv_entry option" where
  "rocks_lookup C V db i = (case dat V db (entry_key i) of None \<Rightarrow> None
     | Some bs \<Rightarrow> (case decode_with (dec_entry C) bs of Inl e \<Rightarrow> None | Inr e \<Rightarrow> Some e))"

definition stored_size :: "codec \<Rightarrow> 'db rocks_view \<Rightarrow> 'db \<Rightarrow> u64 \<Rightarrow> bool" where
  "stored_size C V db n \<longleftrightarrow> (case mta V db META_KV_SIZE of None \<Rightarrow> n = 0
     | Some bs \<Rightarrow> decode_with (dec_u64 C) bs = Inr n)"

definition rocks_inv :: "env \<Rightarrow> codec \<Rightarrow> 'db rocks_api \<Rightarrow> 'db rocks_view \<Rightarrow> 'db \<Rightarrow> bool" where
  "rocks_inv E C A V db \<longleftrightarrow> rocks_laws A V \<and> codec_ok E C \<and> healthy V db \<and>
     represents C (dat V db) (rocks_lookup C V db) \<and>
     (\<exists>n. stored_size C V db n \<and> top_index (rocks_lookup C V db) n)"

lemma rocks_lookup_eq:
  assumes "represents C (dat V db) l"
  shows "rocks_lookup C V db = l"
proof
  fix i
  show "rocks_lookup C V db i = l i"
  proof (cases "dat V db (entry_key i)")
    case None
    then show ?thesis using represents_None [OF assms, of i] by (simp add: rocks_lookup_def)
  next
    case (Some bs)
    obtain e where "decode_with (dec_entry C) bs = Inr e" "l i = Some e"
      by (rule represents_Some [OF assms Some])
    with Some show ?thesis by (simp add: rocks_lookup_def)
  qed
qed

lemma rocks_invI:
  assumes "rocks_laws A V" and "codec_ok E C" and "healthy V db" and "represents C (dat V db) l"
    and "stored_size C V db n" and "top_index l n"
  shows "rocks_inv E C A V db" and "rocks_lookup C V db = l"
  using assms rocks_lookup_eq [OF assms(4)] unfolding rocks_inv_def by auto

lemma rocks_invD:
  assumes "rocks_inv E C A V db"
  obtains n where "rocks_laws A V" and "codec_ok E C" and "healthy V db"
    and "represents C (dat V db) (rocks_lookup C V db)" and "stored_size C V db n"
    and "top_index (rocks_lookup C V db) n"
  using assms unfolding rocks_inv_def by blast

lemma read_size:
  assumes "rocks_laws A V" and "healthy V db" and "stored_size C V db n"
  shows "read_meta_u64 C A db META_KV_SIZE = Inr (Inr n)"
  using assms rocks_lawsD(2,4) [OF assms(1,2)]
  by (auto simp: read_meta_u64_def meta_cf_def cf_expect_def stored_size_def split: option.splits)

section \<open>The store contract\<close>

text \<open>The database after an update that completed without a panic or an error.\<close>

definition completed :: "('db \<times> unit result) outcome \<Rightarrow> 'db result" where
  "completed r = (case r of Inl p \<Rightarrow> Inl (RocksDb ''panic'')
     | Inr (t, Inl e) \<Rightarrow> Inl e | Inr (t, Inr u) \<Rightarrow> Inr t)"

lemma completed_iff: "completed r = Inr t \<longleftrightarrow> r = Inr (t, Inr ())"
  by (auto simp: completed_def split: sum.splits prod.splits)

lemma rocks_get_lookup:
  assumes "rocks_inv E C A V db"
  shows "rocks_get C A db i = Inr (rocks_lookup C V db i)"
proof -
  obtain n where laws: "rocks_laws A V" "healthy V db"
    and rep: "represents C (dat V db) (rocks_lookup C V db)"
    by (rule rocks_invD [OF assms])
  note get = rocks_lawsD(3) [OF laws, of "entry_key i"]
  show ?thesis
  proof (cases "dat V db (entry_key i)")
    case None
    then show ?thesis using get by (simp add: rocks_get_def rocks_lookup_def)
  next
    case (Some bs)
    obtain e where "decode_with (dec_entry C) bs = Inr e"
      by (rule represents_Some [OF rep Some])
    with Some show ?thesis using get by (simp add: rocks_get_def rocks_lookup_def)
  qed
qed

lemma rocks_put_ok:
  assumes inv: "rocks_inv E C A V db" and i: "i \<noteq> - 1"
  shows "\<exists>t. rocks_put E C A db i e = Inr (t, Inr ()) \<and> rocks_inv E C A V t \<and>
    rocks_lookup C V t = (rocks_lookup C V db)(i \<mapsto> e)"
proof -
  obtain n where laws: "rocks_laws A V" "healthy V db" and C: "codec_ok E C"
    and rep: "represents C (dat V db) (rocks_lookup C V db)" and n: "stored_size C V db n"
    and top: "top_index (rocks_lookup C V db) n"
    by (rule rocks_invD [OF inv])
  obtain bs where bs: "encode E e = Inr bs" "decode_with (dec_entry C) bs = Inr e"
    using codec_entry [OF C] by blast
  obtain sz where sz: "encode_with (enc_u64 C) (max n (i + 1)) = Inr sz"
    "decode_with (dec_u64 C) sz = Inr (max n (i + 1))"
    using codec_u64 [OF C] by blast
  let ?p = "BatchPut (entry_key i) bs" and ?s = "BatchPutCf ''meta'' META_KV_SIZE sz"
  let ?b = "if n < max n (i + 1) then [?p, ?s] else [?p]"
  have "becomes V (db_write A db ?b) ((dat V db)(entry_key i \<mapsto> bs)) (batch_mta ?b (mta V db))"
    using rocks_lawsD(6) [OF laws, of ?b] by (cases "n < max n (i + 1)") simp_all
  then obtain t where t: "db_write A db ?b = (t, Inr ())" "healthy V t"
    "dat V t = (dat V db)(entry_key i \<mapsto> bs)" "mta V t = batch_mta ?b (mta V db)"
    by (rule becomesE)
  have put: "rocks_put E C A db i e = Inr (t, Inr ())"
    using t(1) bs(1) sz(1) read_size [OF laws n] rocks_lawsD(2) [OF laws]
    by (cases "n < max n (i + 1)")
       (simp_all add: rocks_put_def Let_def add_u64_one_ok [OF i] meta_cf_def cf_expect_def)
  have rep': "represents C (dat V t) ((rocks_lookup C V db)(i \<mapsto> e))"
    unfolding t(3) by (rule represents_put [OF rep bs(2)])
  have "stored_size C V t (max n (i + 1))"
  proof (cases "n < max n (i + 1)")
    case True
    then show ?thesis using sz(2) t(4) by (simp add: stored_size_def)
  next
    case False
    then have "max n (i + 1) = n" by (auto simp: max_def)
    then show ?thesis using n t(4) False by (simp add: stored_size_def)
  qed
  then show ?thesis
    using put rocks_invI [OF laws(1) C t(2) rep' _ top_index_put [OF top i]] by blast
qed

lemma rocks_rebuild_ok:
  assumes inv: "rocks_inv E C A V db" and es: "\<And>i e. (i, e) \<in> set es \<Longrightarrow> i \<noteq> - 1"
  shows "\<exists>t. rocks_rebuild_from_entries E C A db es = Inr (t, Inr ()) \<and> rocks_inv E C A V t \<and>
    rocks_lookup C V t = map_of (rev es)"
proof -
  obtain n where laws: "rocks_laws A V" "healthy V db" and C: "codec_ok E C"
    and rep: "represents C (dat V db) (rocks_lookup C V db)"
    and top: "top_index (rocks_lookup C V db) n"
    by (rule rocks_invD [OF inv])
  obtain db1 where db1: "db_delete_range_cf A db ''default'' (be_bytes 0) (be_bytes (- 1)) = (db1, Inr ())"
    "healthy V db1" "dat V db1 = (\<lambda>k. if be_bytes 0 \<le> k \<and> k < be_bytes (- 1) then None else dat V db k)"
    by (rule becomesE [OF rocks_lawsD(7) [OF laws]])
  have empty: "dat V db1 = Map.empty"
  proof
    fix k
    show "dat V db1 k = None"
    proof (cases "dat V db k")
      case (Some bs)
      then obtain i e where i: "k = entry_key i" "rocks_lookup C V db i = Some e"
        using rep unfolding represents_def by blast
      then have "i < n" using top by (simp add: top_index_def)
      then have "i < - 1" using less_not_max_u64 [of i n] by (simp add: word_order.not_eq_extremum)
      with i(1) show ?thesis by (simp add: db1(3) entry_key_def be_bytes_mono be_bytes_mono_eq)
    qed (simp add: db1(3))
  qed
  obtain mx b where b: "rebuild_loop E es 0 [] = Inr (Inr (mx, b))"
    "represents C (batch_dat b Map.empty) (map_of (rev es))" "top_index (map_of (rev es)) mx"
    "\<forall>m. batch_mta b m = m" "list_all known_cf b"
    using rebuild_loop_ok [OF C represents_empty, of 0 es "[]"] es by auto
  obtain sz where sz: "encode_with (enc_u64 C) mx = Inr sz" "decode_with (dec_u64 C) sz = Inr mx"
    using codec_u64 [OF C] by blast
  let ?b = "b @ [BatchPutCf ''meta'' META_KV_SIZE sz]"
  have "becomes V (db_write A db1 ?b) (batch_dat b Map.empty) ((mta V db1)(META_KV_SIZE \<mapsto> sz))"
    using rocks_lawsD(6) [OF laws(1) db1(2), of ?b] b(4,5) empty
    by (simp add: batch_dat_append batch_mta_append del: fun_upd_apply)
  then obtain t where t: "db_write A db1 ?b = (t, Inr ())" "healthy V t"
    "dat V t = batch_dat b Map.empty" "mta V t = (mta V db1)(META_KV_SIZE \<mapsto> sz)"
    by (rule becomesE)
  have "rocks_rebuild_from_entries E C A db es = Inr (t, Inr ())"
    using t(1) b(1) sz(1) db1(1) rocks_lawsD(1,2) [OF laws] rocks_lawsD(2) [OF laws(1) db1(2)]
    by (simp add: rocks_rebuild_from_entries_def meta_cf_def cf_expect_def Let_def)
  moreover have "stored_size C V t mx" using t(4) sz(2) by (simp add: stored_size_def)
  moreover have "represents C (dat V t) (map_of (rev es))" using b(2) t(3) by simp
  ultimately show ?thesis using rocks_invI [OF laws(1) C t(2) _ _ b(3)] by blast
qed

lemma rocks_size_eq:
  assumes "rocks_laws A V" and "healthy V db" and "stored_size C V db n"
  shows "rocks_size C A db = Inr n"
  using read_size [OF assms] by (simp add: rocks_size_def)

lemma rocks_size_empty:
  assumes "rocks_inv E C A V db" and "rocks_lookup C V db = Map.empty"
  shows "rocks_size C A db = Inr 0"
  using rocks_invD [OF assms(1)] rocks_size_eq assms(2) by (metis top_index_empty)

lemma rocks_size_top:
  assumes "rocks_inv E C A V db" and "rocks_lookup C V db i = Some e"
    and "\<And>j. i < j \<Longrightarrow> rocks_lookup C V db j = None"
  shows "rocks_size C A db = add_u64 chk i 1"
proof -
  obtain n where laws: "rocks_laws A V" "healthy V db" and n: "stored_size C V db n"
    and top: "top_index (rocks_lookup C V db) n"
    by (rule rocks_invD [OF assms(1)])
  have "i \<noteq> - 1" "n = i + 1" using top_index_unique [OF top assms(2,3)] by auto
  with rocks_size_eq [OF laws n] show ?thesis by (simp add: add_u64_one_ok)
qed

lemma rocks_top_empty:
  assumes "rocks_inv E C A V db" and "rocks_lookup C V db = Map.empty"
  shows "rocks_top_hash C A db = zero_hash"
proof -
  obtain n where laws: "rocks_laws A V" "healthy V db"
    and rep: "represents C (dat V db) (rocks_lookup C V db)"
    by (rule rocks_invD [OF assms(1)])
  have "dat V db k = None" for k
    using rep assms(2) unfolding represents_def by (cases "dat V db k") auto
  then have "dat V db = Map.empty" by (rule ext)
  with rocks_lawsD(8) [OF laws] show ?thesis by (simp add: rocks_top_hash_def)
qed

lemma rocks_top_top:
  assumes "rocks_inv E C A V db" and "rocks_lookup C V db i = Some e"
    and above: "\<And>j. i < j \<Longrightarrow> rocks_lookup C V db j = None"
  shows "rocks_top_hash C A db = prev_hash e"
proof -
  obtain n where laws: "rocks_laws A V" "healthy V db"
    and rep: "represents C (dat V db) (rocks_lookup C V db)"
    by (rule rocks_invD [OF assms(1)])
  obtain bs where bs: "dat V db (entry_key i) = Some bs" "decode_with (dec_entry C) bs = Inr e"
    using rep assms(2) unfolding represents_def by blast
  have "dat V db k = None" if "entry_key i < k" for k
  proof (cases "dat V db k")
    case (Some bs')
    then obtain j e' where j: "k = entry_key j" "rocks_lookup C V db j = Some e'"
      using rep unfolding represents_def by blast
    with that have "i < j" by (simp add: entry_key_def be_bytes_mono)
    from above [OF this] j(2) show ?thesis by simp
  qed simp
  from rocks_lawsD(9) [OF laws bs(1) this] bs(2) show ?thesis by (simp add: rocks_top_hash_def)
qed

interpretation rocks: log_store "rocks_inv E C A V" "rocks_lookup C V" "rocks_get C A"
  "\<lambda>db i e. completed (rocks_put E C A db i e)" "rocks_size C A" "rocks_top_hash C A"
  "rocks_hash_at E C A" "\<lambda>db es. completed (rocks_rebuild_from_entries E C A db es)"
  "entry_hash E" "overflow_checks E" for E C A V
proof (unfold_locales, goal_cases)
  case (1 s i)
  then show ?case by (rule rocks_get_lookup)
next
  case (2 s i e)
  then show ?case using rocks_put_ok [of E C A V s i e] by (simp add: completed_iff)
next
  case (3 s)
  then show ?case by (rule rocks_size_empty)
next
  case (4 s i e)
  then show ?case by (rule rocks_size_top)
next
  case (5 s)
  then show ?case by (rule rocks_top_empty)
next
  case (6 s i e)
  then show ?case by (rule rocks_top_top)
next
  case (7 s i e)
  then show ?case by (simp add: rocks_hash_at_def rocks_get_lookup)
next
  case (8 s i)
  then show ?case by (simp add: rocks_hash_at_def rocks_get_lookup)
next
  case (9 s es)
  then show ?case using rocks_rebuild_ok [of E C A V s es] by (simp add: completed_iff)
qed

text \<open>The boundary: an unchecked put at \<open>u64::MAX\<close>, and the key that clearing leaves.\<close>

lemma rocks_put_last:
  assumes laws: "rocks_laws A V" "healthy V db" and n: "stored_size C V db n"
    and bs: "encode E e = Inr bs" and "\<not> overflow_checks E"
  shows "\<exists>t. rocks_put E C A db (- 1) e = Inr (t, Inr ()) \<and> healthy V t \<and>
    dat V t (entry_key (- 1)) = Some bs \<and> stored_size C V t n"
proof -
  let ?p = "[BatchPut (entry_key (- 1)) bs]"
  have "becomes V (db_write A db ?p) ((dat V db)(entry_key (- 1) \<mapsto> bs)) (mta V db)"
    using rocks_lawsD(6) [OF laws, of ?p] by simp
  then obtain t where t: "db_write A db ?p = (t, Inr ())" "healthy V t"
    "dat V t = (dat V db)(entry_key (- 1) \<mapsto> bs)" "mta V t = mta V db"
    by (rule becomesE)
  with assms read_size [OF laws n] show ?thesis
    by (simp add: rocks_put_def add_u64_one_eq Let_def stored_size_def)
qed

lemma rocks_clear:
  assumes laws: "rocks_laws A V" and C: "codec_ok E C" and ok: "healthy V t"
  shows "\<exists>u. rocks_rebuild_from_entries E C A t [] = Inr (u, Inr ()) \<and> healthy V u \<and>
    dat V u (entry_key (- 1)) = dat V t (entry_key (- 1)) \<and> stored_size C V u 0"
proof -
  obtain z where z: "encode_with (enc_u64 C) 0 = Inr z" "decode_with (dec_u64 C) z = Inr 0"
    using codec_u64 [OF C] by blast
  obtain d where d: "db_delete_range_cf A t ''default'' (be_bytes 0) (be_bytes (- 1)) = (d, Inr ())"
    "healthy V d" "dat V d = (\<lambda>k. if be_bytes 0 \<le> k \<and> k < be_bytes (- 1) then None else dat V t k)"
    by (rule becomesE [OF rocks_lawsD(7) [OF laws ok]])
  let ?s = "[BatchPutCf ''meta'' META_KV_SIZE z]"
  have "becomes V (db_write A d ?s) (dat V d) ((mta V d)(META_KV_SIZE \<mapsto> z))"
    using rocks_lawsD(6) [OF laws d(2), of ?s] by simp
  then obtain u where u: "db_write A d ?s = (u, Inr ())" "healthy V u" "dat V u = dat V d"
    "mta V u = (mta V d)(META_KV_SIZE \<mapsto> z)"
    by (rule becomesE)
  have "rocks_rebuild_from_entries E C A t [] = Inr (u, Inr ())"
    using u(1) d(1) z(1) rocks_lawsD(1) [OF laws ok] rocks_lawsD(2) [OF laws d(2)]
    by (simp add: rocks_rebuild_from_entries_def cf_expect_def meta_cf_def Let_def)
  then show ?thesis using u d(3) z(2) by (auto simp: stored_size_def entry_key_def)
qed

section \<open>A database in memory\<close>

text \<open>A database that keeps the laws, for concrete runs: two association lists.\<close>

type_synonym mem_db = "(bytes \<times> bytes) list \<times> (bytes \<times> bytes) list"

fun demo_apply :: "batch_op \<Rightarrow> mem_db \<Rightarrow> mem_db" where
  "demo_apply (BatchPut k v) (d, m) = ((k, v) # d, m)"
| "demo_apply (BatchPutCf cf k v) (d, m) =
     (if cf = ''meta'' then (d, (k, v) # m) else if cf = ''default'' then ((k, v) # d, m) else (d, m))"

definition demo_api :: "mem_db rocks_api" where
  "demo_api = \<lparr>db_open = (\<lambda>opts path cfs. Inr ([], [])),
     db_has_cf = (\<lambda>db cf. cf = ''default'' \<or> cf = ''meta''),
     db_get = (\<lambda>db k. Inr (map_of (fst db) k)),
     db_get_cf = (\<lambda>db cf k. Inr (map_of (if cf = ''meta'' then snd db else fst db) k)),
     db_put_cf = (\<lambda>db cf k v. (demo_apply (BatchPutCf cf k v) db, Inr ())),
     db_write = (\<lambda>db b. (fold demo_apply b db, Inr ())),
     db_delete_range_cf = (\<lambda>db cf lo hi.
       let keep = filter (\<lambda>(k, v). \<not> (lo \<le> k \<and> k < hi))
       in (if cf = ''meta'' then (fst db, keep (snd db)) else (keep (fst db), snd db), Inr ())),
     db_iter_end = (\<lambda>db. if fst db = [] then None
       else let k = Max (set (map fst (fst db))) in Some (Inr (k, the (map_of (fst db) k))))\<rparr>"

definition demo_view :: "mem_db rocks_view" where
  "demo_view = \<lparr>healthy = (\<lambda>db. True), dat = (\<lambda>db. map_of (fst db)), mta = (\<lambda>db. map_of (snd db))\<rparr>"

definition demo_codec :: codec where
  "demo_codec = \<lparr>enc_u64 = (\<lambda>w. Inr (be_bytes w)), dec_u64 = (\<lambda>bs. Inr (of_nat (be_value bs))),
     enc_hash = (\<lambda>h. Inr (hash_bytes h)), dec_hash = (\<lambda>bs. Inr (Hash_of bs)),
     dec_entry = (\<lambda>bs. Inr \<lparr>op_hash = of_nat (be_value (take 8 bs)), entry_result = drop 40 bs,
       prev_hash = Hash_of (take 32 (drop 8 bs))\<rparr>)\<rparr>"

definition wire_env :: env where
  "wire_env = demo_env\<lparr>bincode_encode :=
     (\<lambda>e. Inr (be_bytes (op_hash e) @ hash_bytes (prev_hash e) @ entry_result e))\<rparr>"

lemma demo_codec_ok: "codec_ok wire_env demo_codec"
  by (simp add: codec_ok_def wire_env_def demo_codec_def be_value_be_bytes hash_bytes_inverse)

lemma demo_batch:
  "map_of (fst (fold demo_apply b db)) = batch_dat b (map_of (fst db)) \<and>
   map_of (snd (fold demo_apply b db)) = batch_mta b (map_of (snd db))"
proof (induction b arbitrary: db)
  case (Cons x b)
  obtain d m where "db = (d, m)" by (cases db)
  then show ?case using Cons.IH by (cases x) (simp_all del: fun_upd_apply)
qed simp

lemma map_of_filter_keys:
  "map_of (filter (\<lambda>(k, v). P k) d) = (\<lambda>k. if P k then map_of d k else None)"
  by (induction d) (auto simp: fun_eq_iff)

lemma demo_laws: "rocks_laws demo_api demo_view"
proof -
  have last: "Max (fst ` set d) = k \<and> d \<noteq> []"
    if "map_of d k = Some v" "\<forall>j > k. map_of d j = None" for d :: "(bytes \<times> bytes) list" and k v
  proof -
    have "k \<in> fst ` set d" using that(1) by (metis map_of_eq_None_iff option.distinct(1))
    moreover have "j \<le> k" if "j \<in> fst ` set d" for j
      using that \<open>\<forall>j > k. map_of d j = None\<close> by (metis map_of_eq_None_iff not_le)
    ultimately show ?thesis using Max_eqI [of "fst ` set d" k] by auto
  qed
  have "db_iter_end demo_api db = Some (Inr (k, v))"
    if "map_of (fst db) k = Some v" "\<forall>j > k. map_of (fst db) j = None" for db k v
    using last [OF that] that(1) by (simp add: demo_api_def)
  moreover have "db_iter_end demo_api db = None" if "map_of (fst db) = Map.empty" for db
    using that by (simp add: demo_api_def)
  ultimately show ?thesis
    unfolding rocks_laws_def
    by (simp add: demo_view_def becomes_def)
       (auto simp: demo_api_def demo_view_def demo_batch map_of_filter_keys intro!: ext)
qed

lemma demo_new:
  "rocks_laws demo_api demo_view \<and> codec_ok wire_env demo_codec \<and> healthy demo_view ([], []) \<and>
   dat demo_view ([], []) = Map.empty \<and> mta demo_view ([], []) = Map.empty"
  using demo_laws demo_codec_ok by (simp add: demo_view_def)

lemma new_database_inv:
  assumes "rocks_laws A V" and "codec_ok E C" and "healthy V db"
    and "dat V db = Map.empty" and "mta V db = Map.empty"
  shows "rocks_inv E C A V db" and "rocks_lookup C V db = Map.empty"
  using rocks_invI [OF assms(1-3), of Map.empty 0] assms(4,5) by (simp_all add: stored_size_def)

lemma demo_new_inv: "rocks_inv wire_env demo_codec demo_api demo_view ([], [])"
  by (rule new_database_inv) (use demo_new in blast)+

section \<open>Equal observations\<close>

text \<open>A database and an in-memory store that every operation of the trait observes alike.\<close>

definition same_store :: "env \<Rightarrow> codec \<Rightarrow> 'db rocks_api \<Rightarrow> 'db \<Rightarrow> mem_inner \<Rightarrow> bool" where
  "same_store E C A db s \<longleftrightarrow>
     (\<forall>i. rocks_get C A db i = mem_get s i \<and> rocks_hash_at E C A db i = mem_hash_at E s i) \<and>
     rocks_size C A db = mem_size E s \<and> rocks_top_hash C A db = mem_top_hash s"

lemma same_storeI:
  assumes "rocks_inv E C A V db" and "mem_ok s" and "rocks_lookup C V db = mem_lookup s"
  shows "same_store E C A db s"
proof -
  have "rocks_get C A db i = mem_get s i" for i
    using rocks.get_lookup [OF assms(1)] mem.get_lookup [OF assms(2)] assms(3) by simp
  moreover have "rocks_hash_at E C A db i = mem_hash_at E s i" for i
    using rocks.hash_at_Some [OF assms(1), of i] rocks.hash_at_None [OF assms(1), of i]
      mem.hash_at_Some [OF assms(2), of i] mem.hash_at_None [OF assms(2), of i] assms(3)
    by (cases "mem_lookup s i") simp_all
  moreover have "rocks_size C A db = mem_size E s \<and> rocks_top_hash C A db = mem_top_hash s"
  proof (rule rocks.observed [OF assms(1)], goal_cases)
    case 1
    with assms(3) show ?case using mem.size_empty [OF assms(2)] mem.top_empty [OF assms(2)] by simp
  next
    case (2 i e)
    then have "mem_lookup s i = Some e" "\<And>j. i < j \<Longrightarrow> mem_lookup s j = None"
      using assms(3) by simp_all
    with 2 show ?case using mem.size_top [OF assms(2)] mem.top_top [OF assms(2)] by simp
  qed
  ultimately show ?thesis by (simp add: same_store_def)
qed

text \<open>Updates of the two stores, from the same contents.\<close>

lemma stores_updated:
  assumes "rocks_inv E C A V db" and "mem_ok s" and "rocks_lookup C V db = mem_lookup s"
    and "list_all op_in_range ops" and "ops_run mem_put mem_rebuild_from_entries ops s = Inr s'"
  obtains db' where "ops_run (\<lambda>db i e. completed (rocks_put E C A db i e))
      (\<lambda>db es. completed (rocks_rebuild_from_entries E C A db es)) ops db = Inr db'"
    and "rocks_inv E C A V db'" and "mem_ok s'" and "rocks_lookup C V db' = mem_lookup s'"
    and "same_store E C A db' s'"
proof -
  have s': "mem_ok s'" "mem_lookup s' = map_run ops (mem_lookup s)"
    using mem.ops_refine [OF assms(2,4)] assms(5) by auto
  obtain db' where db': "ops_run (\<lambda>db i e. completed (rocks_put E C A db i e))
      (\<lambda>db es. completed (rocks_rebuild_from_entries E C A db es)) ops db = Inr db'"
    "rocks_inv E C A V db'" "rocks_lookup C V db' = mem_lookup s'"
    using rocks.ops_refine [OF assms(1,4)] assms(3) s'(2) by auto
  show ?thesis by (rule that [OF db'(1,2) s'(1) db'(3) same_storeI [OF db'(2) s'(1) db'(3)]])
qed

text \<open>Every log is the contents of an in-memory store.\<close>

lemma store_with:
  obtains s where "mem_ok s" and "mem_lookup s = l"
proof -
  let ?es = "map (\<lambda>k. (k, the (l k))) (sorted_list_of_set (dom l))"
  have fin: "finite (dom l)" by (rule finite_subset [OF subset_UNIV]) simp
  obtain s where s: "mem_ok s" "mem_lookup s = map_of (rev ?es)"
    using mem.rebuild_any [OF mem_new_ok(1), of ?es] by blast
  have "map_of (rev ?es) = (Some \<circ> (\<lambda>k. the (l k))) |` dom l"
    by (subst rev_map) (simp only: map_of_map_restrict set_rev set_sorted_list_of_set [OF fin])
  also have "\<dots> = l"
  proof
    fix k show "((Some \<circ> (\<lambda>k. the (l k))) |` dom l) k = l k" by (cases "l k") (auto simp: restrict_map_def)
  qed
  finally show ?thesis using that s by simp
qed

section \<open>Properties\<close>

text \<open>C21: The two backends agree. Starting from a new \<open>MemKvStore\<close> and a new database, any sequence of
  puts and rebuilds at indices other than \<open>u64::MAX\<close> succeeds on both, and afterwards every
  observation of the trait \<open>KvStoreOps\<close> (\<open>get\<close>, \<open>hash_at\<close>, \<open>size\<close>, \<open>top_hash\<close>) gives the same.\<close>

theorem backends_agree:
  assumes "rocks_laws A V" and "codec_ok E C" and "healthy V db"
    and "dat V db = Map.empty" and "mta V db = Map.empty" and "list_all op_in_range ops"
  shows "\<exists>s t. ops_run mem_put mem_rebuild_from_entries ops mem_new = Inr s \<and>
     ops_run (\<lambda>db i e. completed (rocks_put E C A db i e))
       (\<lambda>db es. completed (rocks_rebuild_from_entries E C A db es)) ops db = Inr t \<and>
     (\<forall>i. rocks_get C A t i = mem_get s i \<and> rocks_hash_at E C A t i = mem_hash_at E s i) \<and>
     rocks_size C A t = mem_size E s \<and> rocks_top_hash C A t = mem_top_hash s"
proof -
  note new = new_database_inv [OF assms(1-5)]
  obtain s where s: "ops_run mem_put mem_rebuild_from_entries ops mem_new = Inr s"
    using mem.ops_refine [OF mem_new_ok(1) assms(6)] by auto
  obtain t where "ops_run (\<lambda>db i e. completed (rocks_put E C A db i e))
       (\<lambda>db es. completed (rocks_rebuild_from_entries E C A db es)) ops db = Inr t"
    "same_store E C A t s"
    by (rule stores_updated [OF new(1) mem_new_ok(1) _ assms(6) s]) (simp_all add: new(2))
  with s show ?thesis unfolding same_store_def by blast
qed

lemma backends_agree_witness:
  "\<exists>s t. ops_run mem_put mem_rebuild_from_entries
       [PutOp 4 \<lparr>op_hash = 7, entry_result = [1], prev_hash = zero_hash\<rparr>] mem_new = Inr s \<and>
     ops_run (\<lambda>db i e. completed (rocks_put wire_env demo_codec demo_api db i e))
       (\<lambda>db es. completed (rocks_rebuild_from_entries wire_env demo_codec demo_api db es))
       [PutOp 4 \<lparr>op_hash = 7, entry_result = [1], prev_hash = zero_hash\<rparr>] ([], []) = Inr t \<and>
     rocks_get demo_codec demo_api t 4 = mem_get s 4 \<and>
     rocks_size demo_codec demo_api t = mem_size wire_env s"
proof -
  let ?ops = "[PutOp 4 \<lparr>op_hash = 7, entry_result = [1], prev_hash = zero_hash\<rparr>]"
  have "list_all op_in_range ?ops" by simp
  from backends_agree [OF _ _ _ _ _ this, of demo_api demo_view wire_env demo_codec "([], [])"] demo_new
  show ?thesis by blast
qed

text \<open>Keys of the database. The eight bytes \<open>entry_key\<close> writes denote the index, and the bytewise
  order of keys, in which RocksDB iterates and deletes ranges, is the order of the indices.\<close>

theorem entry_key_roundtrip:
  "length (entry_key i) = 8 \<and> be_value (entry_key i) = unat i \<and>
   (entry_key i < entry_key j \<longleftrightarrow> i < j)"
  by (simp add: entry_key_def be_value_be_bytes be_bytes_mono)

text \<open>C30: Checkpoint data in the meta family. What \<open>set_chkpt_idx\<close> and \<open>set_chkpt_hash\<close> write is what
  the getters read back, whichever is written first, and neither touches the log or its size.\<close>

theorem chkpt_meta_roundtrip:
  assumes "rocks_inv E C A V db"
  shows "\<exists>t u. rocks_set_chkpt_idx C A db i = Inr (t, Inr ()) \<and>
     rocks_set_chkpt_hash C A t h = Inr (u, Inr ()) \<and>
     rocks_get_chkpt_idx C A u = Inr (Inr i) \<and> rocks_get_chkpt_hash C A u = Inr (Inr h) \<and>
     rocks_lookup C V u = rocks_lookup C V db \<and> rocks_size C A u = rocks_size C A db \<and>
     rocks_inv E C A V u"
proof -
  obtain n where laws: "rocks_laws A V" "healthy V db" and C: "codec_ok E C"
    and rep: "represents C (dat V db) (rocks_lookup C V db)" and n: "stored_size C V db n"
    and top: "top_index (rocks_lookup C V db) n"
    by (rule rocks_invD [OF assms])
  have keys: "META_KV_SIZE \<noteq> META_CHKPT_IDX" "META_KV_SIZE \<noteq> META_CHKPT_HASH"
    "META_CHKPT_IDX \<noteq> META_CHKPT_HASH"
    by (simp_all add: META_KV_SIZE_def META_CHKPT_IDX_def META_CHKPT_HASH_def ascii_def)
  obtain bi where bi: "encode_with (enc_u64 C) i = Inr bi" "decode_with (dec_u64 C) bi = Inr i"
    using codec_u64 [OF C] by blast
  obtain bh where bh: "encode_with (enc_hash C) h = Inr bh" "decode_with (dec_hash C) bh = Inr h"
    using codec_hash [OF C] by blast
  obtain t where t: "db_put_cf A db ''meta'' META_CHKPT_IDX bi = (t, Inr ())" "healthy V t"
    "dat V t = dat V db" "mta V t = (mta V db)(META_CHKPT_IDX \<mapsto> bi)"
    by (rule becomesE [OF rocks_lawsD(5) [OF laws]])
  obtain u where u: "db_put_cf A t ''meta'' META_CHKPT_HASH bh = (u, Inr ())" "healthy V u"
    "dat V u = dat V t" "mta V u = (mta V t)(META_CHKPT_HASH \<mapsto> bh)"
    by (rule becomesE [OF rocks_lawsD(5) [OF laws(1) t(2)]])
  have su: "stored_size C V u n" using n keys t(4) u(4) by (simp add: stored_size_def)
  note u_inv = rocks_invI [OF laws(1) C u(2) _ su top] 
  have set: "rocks_set_chkpt_idx C A db i = Inr (t, Inr ())"
    "rocks_set_chkpt_hash C A t h = Inr (u, Inr ())"
    using t(1) u(1) bi(1) bh(1) rocks_lawsD(2) [OF laws] rocks_lawsD(2) [OF laws(1) t(2)]
    by (simp_all add: rocks_set_chkpt_idx_def rocks_set_chkpt_hash_def write_meta_u64_def meta_cf_def
        cf_expect_def)
  have get: "rocks_get_chkpt_idx C A u = Inr (Inr i)" "rocks_get_chkpt_hash C A u = Inr (Inr h)"
    using t(4) u(4) keys bi(2) bh(2) rocks_lawsD(2,4) [OF laws(1) u(2)]
    by (simp_all add: rocks_get_chkpt_idx_def rocks_get_chkpt_hash_def read_meta_u64_def meta_cf_def
        cf_expect_def)
  show ?thesis
    using set get u_inv rep t(3) u(3) rocks_size_eq [OF laws n] rocks_size_eq [OF laws(1) u(2) su]
    by (intro exI [of _ t] exI [of _ u]) simp
qed

lemma chkpt_meta_roundtrip_witness:
  "\<exists>t u. rocks_set_chkpt_idx demo_codec demo_api ([], []) 42 = Inr (t, Inr ()) \<and>
     rocks_set_chkpt_hash demo_codec demo_api t (hash_fill 0xDE) = Inr (u, Inr ()) \<and>
     rocks_get_chkpt_idx demo_codec demo_api u = Inr (Inr 42)"
  using chkpt_meta_roundtrip [OF demo_new_inv, of 42 "hash_fill 0xDE"] by blast

text \<open>C31: A rebuild that fails loses the log. The old entries are deleted before the new ones are
  encoded: when an entry cannot be encoded, the error is returned, every old entry is gone and
  \<open>size\<close> still reports the old log.\<close>

theorem failed_rebuild_loses_log:
  assumes "rocks_laws A V" and "healthy V db" and "rebuild_loop E es 0 [] = Inr (Inl err)"
  shows "\<exists>t. rocks_rebuild_from_entries E C A db es = Inr (t, Inl err) \<and>
     (\<forall>i. i \<noteq> - 1 \<longrightarrow> rocks_get C A t i = Inr None) \<and> rocks_size C A t = rocks_size C A db"
proof -
  obtain t where t: "db_delete_range_cf A db ''default'' (be_bytes 0) (be_bytes (- 1)) = (t, Inr ())"
    "healthy V t" "dat V t = (\<lambda>k. if be_bytes 0 \<le> k \<and> k < be_bytes (- 1) then None else dat V db k)"
    "mta V t = mta V db"
    by (rule becomesE [OF rocks_lawsD(7) [OF assms(1,2)]])
  have gone: "rocks_get C A t i = Inr None" if "i \<noteq> - 1" for i
  proof -
    have "i < - 1" using that by (simp add: word_order.not_eq_extremum)
    then have "dat V t (entry_key i) = None"
      by (simp add: t(3) entry_key_def be_bytes_mono be_bytes_mono_eq)
    with rocks_lawsD(3) [OF assms(1) t(2)] show ?thesis by (simp add: rocks_get_def)
  qed
  have "rocks_rebuild_from_entries E C A db es = Inr (t, Inl err)"
    using assms(3) t(1) rocks_lawsD(1) [OF assms(1,2)]
    by (simp add: rocks_rebuild_from_entries_def cf_expect_def Let_def)
  moreover have "rocks_size C A t = rocks_size C A db"
    using rocks_lawsD(2,4) [OF assms(1,2)] rocks_lawsD(2,4) [OF assms(1) t(2)] t(4)
    by (simp add: rocks_size_def read_meta_u64_def meta_cf_def cf_expect_def)
  ultimately show ?thesis using gone by blast
qed

definition failing_env :: env where
  "failing_env = wire_env\<lparr>bincode_encode := (\<lambda>e. Inl ''limit'')\<rparr>"

lemma failed_rebuild_loses_log_witness:
  "\<exists>t. rocks_rebuild_from_entries failing_env demo_codec demo_api
         ([(entry_key 0, [])], [(META_KV_SIZE, be_bytes 1)])
         [(0, \<lparr>op_hash = 0, entry_result = [], prev_hash = zero_hash\<rparr>)]
       = Inr (t, Inl (BincodeEncode ''bincode encode: limit'')) \<and>
     rocks_get demo_codec demo_api t 0 = Inr None \<and> rocks_size demo_codec demo_api t = Inr 1"
proof -
  let ?db = "([(entry_key 0, [])], [(META_KV_SIZE, be_bytes 1)])"
  let ?es = "[(0 :: u64, \<lparr>op_hash = 0, entry_result = [], prev_hash = zero_hash\<rparr>)]"
  have healthy: "healthy demo_view ?db" by (simp add: demo_view_def)
  have "rebuild_loop failing_env ?es 0 [] = Inr (Inl (BincodeEncode ''bincode encode: limit''))"
    by (simp add: failing_env_def encode_def)
  from failed_rebuild_loses_log [OF demo_laws healthy this, of demo_codec] obtain t
    where t: "rocks_rebuild_from_entries failing_env demo_codec demo_api ?db ?es
        = Inr (t, Inl (BincodeEncode ''bincode encode: limit''))"
      "rocks_get demo_codec demo_api t 0 = Inr None"
      "rocks_size demo_codec demo_api t = rocks_size demo_codec demo_api ?db"
    by auto
  have "stored_size demo_codec demo_view ?db 1"
    by (simp add: stored_size_def demo_view_def demo_codec_def decode_with_def be_value_be_bytes)
  from rocks_size_eq [OF demo_laws healthy this] t show ?thesis by auto
qed



end
