(* ===== verification/Store_Tests.thy ===== *)
theory Store_Tests
  imports Rocks_Store
begin

text \<open>
  The unit tests of \<^verbatim>\<open>kv_store.rs\<close>. They are written against the type \<open>KvStore\<close>, whichever backend is
  compiled in; here each is a boolean function of the operations of a store and of the store
  \<open>open_temp\<close> returns, with \<open>unwrap\<close> failing the test. They follow from the contract \<open>log_store\<close>
  alone, so both backends pass them, for every encoder and hash the contract allows.
\<close>

section \<open>The tests\<close>

record 's store_api =
  st_get :: "'s \<Rightarrow> u64 \<Rightarrow> kv_entry option result"
  st_put :: "'s \<Rightarrow> u64 \<Rightarrow> kv_entry \<Rightarrow> 's result"
  st_size :: "'s \<Rightarrow> u64 outcome"
  st_top_hash :: "'s \<Rightarrow> hash"
  st_hash_at :: "'s \<Rightarrow> u64 \<Rightarrow> hash result"
  st_rebuild :: "'s \<Rightarrow> (u64 \<times> kv_entry) list \<Rightarrow> 's result"

definition make_entry :: "u64 \<Rightarrow> u8 \<Rightarrow> hash \<Rightarrow> kv_entry" where
  "make_entry oph res prev = \<lparr>op_hash = oph, entry_result = [res], prev_hash = prev\<rparr>"

text \<open>A chain of puts with \<open>unwrap\<close>, and what a test reads of the store it leads to.\<close>

definition after_puts :: "'s store_api \<Rightarrow> (u64 \<times> kv_entry) list \<Rightarrow> 's \<Rightarrow> ('s \<Rightarrow> bool) \<Rightarrow> bool" where
  "after_puts K es s check =
     (case ops_run (st_put K) (st_rebuild K) (map (\<lambda>(i, e). PutOp i e) es) s of
        Inl err \<Rightarrow> False | Inr t \<Rightarrow> check t)"

definition found :: "'s store_api \<Rightarrow> 's \<Rightarrow> u64 \<Rightarrow> (kv_entry \<Rightarrow> bool) \<Rightarrow> bool" where
  "found K s i check = (case st_get K s i of Inr (Some e) \<Rightarrow> check e | _ \<Rightarrow> False)"

definition test_put_and_get :: "'s store_api \<Rightarrow> 's \<Rightarrow> bool" where
  "test_put_and_get K store =
     after_puts K [(0, make_entry 42 1 zero_hash)] store (\<lambda>store.
       found K store 0 (\<lambda>got. op_hash got = 42 \<and> entry_result got = [1]))"

definition test_get_missing :: "'s store_api \<Rightarrow> 's \<Rightarrow> bool" where
  "test_get_missing K store = (st_get K store 99 = Inr None)"

definition test_put_multiple_and_retrieve :: "'s store_api \<Rightarrow> 's \<Rightarrow> bool" where
  "test_put_multiple_and_retrieve K store =
     after_puts K (map (\<lambda>i. (i, make_entry (i * 10) (ucast i) (hash_fill (ucast i)))) (map of_nat [0..<5])) store
       (\<lambda>store. list_all (\<lambda>i. found K store i (\<lambda>got. op_hash got = i * 10)) (map of_nat [0..<5]))"

definition test_size_empty :: "'s store_api \<Rightarrow> 's \<Rightarrow> bool" where
  "test_size_empty K store = (st_size K store = Inr 0)"

definition test_size_after_puts :: "'s store_api \<Rightarrow> 's \<Rightarrow> bool" where
  "test_size_after_puts K store =
     (let entry = make_entry 1 0 zero_hash
      in after_puts K [(0, entry)] store (\<lambda>store.
           st_size K store = Inr 1 \<and>
           after_puts K [(4, entry)] store (\<lambda>store. st_size K store = Inr 5)))"

definition test_size_no_regression_on_overwrite :: "'s store_api \<Rightarrow> 's \<Rightarrow> bool" where
  "test_size_no_regression_on_overwrite K store =
     (let entry = make_entry 1 0 zero_hash
      in after_puts K [(0, entry), (1, entry)] store (\<lambda>store.
           st_size K store = Inr 2 \<and>
           after_puts K [(0, make_entry 99 0 zero_hash)] store (\<lambda>store. st_size K store = Inr 2)))"

definition test_top_hash_empty :: "'s store_api \<Rightarrow> 's \<Rightarrow> bool" where
  "test_top_hash_empty K store = (st_top_hash K store = zero_hash)"

definition test_top_hash_returns_last_entry_prev_hash :: "'s store_api \<Rightarrow> 's \<Rightarrow> bool" where
  "test_top_hash_returns_last_entry_prev_hash K store =
     (let prev = hash_fill 0xAB
      in after_puts K [(0, make_entry 1 0 zero_hash), (1, make_entry 2 0 prev)] store (\<lambda>store.
           st_top_hash K store = prev))"

definition test_hash_at_deterministic :: "'s store_api \<Rightarrow> 's \<Rightarrow> bool" where
  "test_hash_at_deterministic K store =
     after_puts K [(0, make_entry 7 3 zero_hash)] store (\<lambda>store.
       case (st_hash_at K store 0, st_hash_at K store 0) of
         (Inr h1, Inr h2) \<Rightarrow> h1 = h2 \<and> h1 \<noteq> zero_hash | _ \<Rightarrow> False)"

definition test_hash_at_missing_returns_error :: "'s store_api \<Rightarrow> 's \<Rightarrow> bool" where
  "test_hash_at_missing_returns_error K store = (case st_hash_at K store 42 of Inl e \<Rightarrow> True | Inr h \<Rightarrow> False)"

definition test_rebuild_clears_and_repopulates :: "'s store_api \<Rightarrow> 's \<Rightarrow> bool" where
  "test_rebuild_clears_and_repopulates K store =
     (let e0 = make_entry 1 0 zero_hash
      in after_puts K [(0, e0), (1, e0)] store (\<lambda>store.
           st_size K store = Inr 2 \<and>
           (case st_rebuild K store [(0, make_entry 99 5 (hash_fill 0xFF))] of
              Inl err \<Rightarrow> False
            | Inr store \<Rightarrow> st_size K store = Inr 1 \<and>
                found K store 0 (\<lambda>got. op_hash got = 99) \<and> st_get K store 1 = Inr None)))"

definition store_tests :: "('s store_api \<Rightarrow> 's \<Rightarrow> bool) list" where
  "store_tests = [test_put_and_get, test_get_missing, test_put_multiple_and_retrieve, test_size_empty,
     test_size_after_puts, test_size_no_regression_on_overwrite, test_top_hash_empty,
     test_top_hash_returns_last_entry_prev_hash, test_hash_at_deterministic,
     test_hash_at_missing_returns_error, test_rebuild_clears_and_repopulates]"

text \<open>The tests of the checkpoint fields, of the in-memory store only.\<close>

definition test_chkpt_idx_default_zero :: bool where
  "test_chkpt_idx_default_zero \<longleftrightarrow>
     (case mem_open ''tmp'' of Inl e \<Rightarrow> False | Inr store \<Rightarrow> get_chkpt_idx store = 0)"

definition test_chkpt_idx_roundtrip :: bool where
  "test_chkpt_idx_roundtrip \<longleftrightarrow>
     (case mem_open ''tmp'' of Inl e \<Rightarrow> False | Inr store \<Rightarrow> get_chkpt_idx (set_chkpt_idx store 42) = 42)"

definition test_chkpt_hash_roundtrip :: bool where
  "test_chkpt_hash_roundtrip \<longleftrightarrow>
     (let h = hash_fill 0xDE
      in case mem_open ''tmp'' of Inl e \<Rightarrow> False | Inr store \<Rightarrow> get_chkpt_hash (set_chkpt_hash store h) = h)"

section \<open>The contract implies the tests\<close>

context log_store
begin

definition api :: "'s store_api" where
  "api = \<lparr>st_get = get, st_put = put, st_size = store_size, st_top_hash = top_hash,
     st_hash_at = hash_at, st_rebuild = rebuild\<rparr>"

lemma after_putsI:
  assumes "invar s" and "list_all (\<lambda>(i, e). i \<noteq> - 1) es"
    and "\<And>t. invar t \<Longrightarrow> lookup t = map_run (map (\<lambda>(i, e). PutOp i e) es) (lookup s) \<Longrightarrow> check t"
  shows "after_puts api es s check"
proof -
  have "list_all op_in_range (map (\<lambda>(i, e). PutOp i e) es)"
    using assms(2) by (auto simp: list_all_iff)
  from ops_refine [OF assms(1) this] assms(3) show ?thesis by (auto simp: after_puts_def api_def)
qed

lemma foundI: "invar s \<Longrightarrow> lookup s i = Some e \<Longrightarrow> check e \<Longrightarrow> found api s i check"
  by (simp add: found_def api_def get_lookup)

text \<open>The size and the top hash of a store whose highest index is known.\<close>

lemma topI:
  assumes "invar s" and "lookup s i = Some e" and "i \<noteq> - 1" and "\<And>j. i < j \<Longrightarrow> lookup s j = None"
  shows "st_size api s = Inr (i + 1)" and "st_top_hash api s = prev_hash e"
  using size_top [OF assms(1,2,4)] top_top [OF assms(1,2,4)] assms(3)
  by (simp_all add: api_def add_u64_one_ok)

lemma reads_pass:
  assumes s: "invar s" "lookup s = Map.empty"
  shows "test_put_and_get api s" and "test_get_missing api s"
    and "test_put_multiple_and_retrieve api s" and "test_size_empty api s"
    and "test_top_hash_empty api s" and "test_hash_at_missing_returns_error api s"
proof -
  show "test_put_and_get api s"
    unfolding test_put_and_get_def
    by (rule after_putsI [OF s(1)]) (auto intro: foundI simp: make_entry_def)
  show "test_put_multiple_and_retrieve api s"
    unfolding test_put_multiple_and_retrieve_def
    by (rule after_putsI [OF s(1)]) (auto intro!: foundI simp: make_entry_def upt_rec)
  show "test_get_missing api s" "test_size_empty api s" "test_top_hash_empty api s"
    "test_hash_at_missing_returns_error api s"
    using get_lookup [OF s(1)] size_empty [OF s] top_empty [OF s] hash_at_None [OF s(1)] s(2)
    by (simp_all add: test_get_missing_def test_size_empty_def test_top_hash_empty_def
        test_hash_at_missing_returns_error_def api_def)
qed

lemma size_after_puts_passes:
  assumes s: "invar s" "lookup s = Map.empty"
  shows "test_size_after_puts api s"
proof -
  let ?e = "make_entry 1 0 zero_hash"
  have "st_size api t = Inr 1 \<and> after_puts api [(4, ?e)] t (\<lambda>t. st_size api t = Inr 5)"
    if t: "invar t" "lookup t = [0 \<mapsto> ?e]" for t
  proof
    show "st_size api t = Inr 1" using topI(1) [OF t(1), of 0 ?e] t(2) by simp
    show "after_puts api [(4, ?e)] t (\<lambda>t. st_size api t = Inr 5)"
    proof (rule after_putsI [OF t(1)])
      fix u assume u: "invar u" "lookup u = map_run (map (\<lambda>(i, e). PutOp i e) [(4, ?e)]) (lookup t)"
      have "lookup u j = None" if "4 < j" for j using u(2) t(2) that by auto
      then show "st_size api u = Inr 5" using topI(1) [OF u(1), of 4 ?e] u(2) by simp
    qed simp
  qed
  then show ?thesis
    unfolding test_size_after_puts_def Let_def using s(2) by (intro after_putsI [OF s(1)]) simp_all
qed

lemma two_puts:
  assumes s: "invar s" "lookup s = Map.empty"
    and check: "\<And>t. invar t \<Longrightarrow> lookup t = [0 \<mapsto> a, 1 \<mapsto> b] \<Longrightarrow> st_size api t = Inr 2 \<Longrightarrow>
      st_top_hash api t = prev_hash b \<Longrightarrow> check t"
  shows "after_puts api [(0, a), (1, b)] s check"
proof (rule after_putsI [OF s(1)])
  fix t assume t: "invar t" "lookup t = map_run (map (\<lambda>(i, e). PutOp i e) [(0, a), (1, b)]) (lookup s)"
  then have l: "lookup t = [0 \<mapsto> a, 1 \<mapsto> b]" using s(2) by simp
  have "lookup t j = None" if "1 < j" for j using l that by auto
  then show "check t" using check [OF t(1) l] topI [OF t(1), of 1 b] l by simp
qed simp

lemma overwrite_passes:
  assumes s: "invar s" "lookup s = Map.empty"
  shows "test_size_no_regression_on_overwrite api s"
  unfolding test_size_no_regression_on_overwrite_def Let_def
proof (rule two_puts [OF s])
  let ?e = "make_entry 1 0 zero_hash" and ?f = "make_entry 99 0 zero_hash"
  fix t assume t: "invar t" "lookup t = [0 \<mapsto> ?e, 1 \<mapsto> ?e]" "st_size api t = Inr 2"
  have "after_puts api [(0, ?f)] t (\<lambda>u. st_size api u = Inr 2)"
  proof (rule after_putsI [OF t(1)])
    fix u assume u: "invar u" "lookup u = map_run (map (\<lambda>(i, e). PutOp i e) [(0, ?f)]) (lookup t)"
    have "lookup u j = None" if "1 < j" for j using u(2) t(2) that by auto
    then show "st_size api u = Inr 2" using topI(1) [OF u(1), of 1 ?e] u(2) t(2) by simp
  qed simp
  with t(3) show "st_size api t = Inr 2 \<and> after_puts api [(0, ?f)] t (\<lambda>u. st_size api u = Inr 2)" by simp
qed

lemma rebuild_passes:
  assumes s: "invar s" "lookup s = Map.empty"
  shows "test_rebuild_clears_and_repopulates api s"
  unfolding test_rebuild_clears_and_repopulates_def Let_def
proof (rule two_puts [OF s])
  let ?f = "make_entry 99 5 (hash_fill 0xFF)"
  fix t assume t: "invar t" "st_size api t = Inr 2"
  obtain u where u: "rebuild t [(0, ?f)] = Inr u" "invar u" "lookup u = [0 \<mapsto> ?f]"
    using rebuild_ok [OF t(1), of "[(0, ?f)]"] by auto
  have "found api u 0 (\<lambda>got. op_hash got = 99)"
    by (rule foundI [OF u(2), of 0 ?f]) (use u(3) in \<open>simp_all add: make_entry_def\<close>)
  moreover have "st_get api u 1 = Inr None" using get_lookup [OF u(2)] u(3) by (simp add: api_def)
  moreover have "st_size api u = Inr 1" using topI(1) [OF u(2), of 0 ?f] u(3) by simp
  moreover have "st_rebuild api t [(0, ?f)] = Inr u" using u(1) by (simp add: api_def)
  ultimately show "st_size api t = Inr 2 \<and>
      (case st_rebuild api t [(0, ?f)] of Inl err \<Rightarrow> False
       | Inr store \<Rightarrow> st_size api store = Inr 1 \<and> found api store 0 (\<lambda>got. op_hash got = 99) \<and>
           st_get api store 1 = Inr None)"
    using t(2) by simp
qed

lemma tests_pass:
  assumes s: "invar s" "lookup s = Map.empty"
    and h: "digest (make_entry 7 3 zero_hash) = Inr h" "h \<noteq> zero_hash"
  shows "list_all (\<lambda>t. t api s) store_tests"
proof -
  have "test_hash_at_deterministic api s"
    unfolding test_hash_at_deterministic_def
    by (rule after_putsI [OF s(1)]) (use h hash_at_Some in \<open>auto simp: api_def\<close>)
  moreover have "test_top_hash_returns_last_entry_prev_hash api s"
    unfolding test_top_hash_returns_last_entry_prev_hash_def Let_def
    by (rule two_puts [OF s]) (simp add: make_entry_def)
  ultimately show ?thesis
    using reads_pass [OF s] size_after_puts_passes [OF s] overwrite_passes [OF s] rebuild_passes [OF s]
    by (simp add: store_tests_def)
qed

end

section \<open>Properties\<close>



end
