(* ===== verification/Node.thy ===== *)
theory Node
  imports Invariants
begin

text \<open>
  The actor around a replica (\<^verbatim>\<open>node.rs\<close>, \<^verbatim>\<open>state_machine.rs\<close>, \<^verbatim>\<open>transport.rs\<close>): one thread takes
  inputs from a queue in order, hands each to the state machine and executes the effects it
  returns. The state machine and the transport are arguments, as they are type parameters of
  \<open>Node::start\<close>; the queue's tokio channel is an argument of \<open>submit_message\<close>.
\<close>

section \<open>Transport\<close>

text \<open>The default method \<open>Transport::execute\<close>.\<close>

fun execute :: "(message \<Rightarrow> 'w \<Rightarrow> 'w) \<Rightarrow> (node_id \<Rightarrow> message \<Rightarrow> 'w \<Rightarrow> 'w) \<Rightarrow>
    effect list \<Rightarrow> 'w \<Rightarrow> 'w" where
  "execute bcast send [] w = w"
| "execute bcast send (Broadcast m # es) w = execute bcast send es (bcast m w)"
| "execute bcast send (Send to m # es) w = execute bcast send es (send to m w)"

text \<open>What the actor relies on: executing batches one after the other is executing their
  concatenation.\<close>

locale transport_ops =
  fixes exec :: "effect list \<Rightarrow> 'w \<Rightarrow> 'w"
  assumes exec_nil: "exec [] w = w"
    and exec_append: "exec (es @ fs) w = exec fs (exec es w)"

lemma execute_append:
  "execute bcast send (es @ fs) w = execute bcast send fs (execute bcast send es w)"
  by (induction bcast send es w rule: execute.induct) simp_all

interpretation default_transport: transport_ops "execute bcast send" for bcast send
  by unfold_locales (simp_all add: execute_append)

section \<open>The actor loop\<close>

datatype 's actor_end = Stopped 's | Panicked panic

fun actor_loop ::
    "(message \<Rightarrow> 's \<Rightarrow> ('s \<times> effect list) outcome) \<Rightarrow>
     (event \<Rightarrow> 's \<Rightarrow> ('s \<times> effect list) outcome) \<Rightarrow>
     (effect list \<Rightarrow> 'w \<Rightarrow> 'w) \<Rightarrow> replica_input list \<Rightarrow> 's \<Rightarrow> 'w \<Rightarrow> 's actor_end \<times> 'w" where
  "actor_loop process handle exec [] sm w = (Stopped sm, w)"
| "actor_loop process handle exec (input # rest) sm w =
     (case (case input of InMessage msg \<Rightarrow> process msg sm | InEvent ev \<Rightarrow> handle ev sm) of
        Inl p \<Rightarrow> (Panicked p, w)
      | Inr (sm', effects) \<Rightarrow>
          actor_loop process handle exec rest sm' (if effects \<noteq> [] then exec effects w else w))"

text \<open>\<open>submit_message\<close> and \<open>submit_event\<close>: \<open>send\<close> is the channel's, which fails when the actor's
  receiver is gone.\<close>

datatype submit_error = ActorNotRunning

definition submit_message ::
    "('ch \<Rightarrow> replica_input \<Rightarrow> unit + 'ch) \<Rightarrow> 'ch \<Rightarrow> message \<Rightarrow> submit_error + 'ch" where
  "submit_message send ch msg =
     (case send ch (InMessage msg) of Inl u \<Rightarrow> Inl ActorNotRunning | Inr ch' \<Rightarrow> Inr ch')"

definition submit_event ::
    "('ch \<Rightarrow> replica_input \<Rightarrow> unit + 'ch) \<Rightarrow> 'ch \<Rightarrow> event \<Rightarrow> submit_error + 'ch" where
  "submit_event send ch ev =
     (case send ch (InEvent ev) of Inl u \<Rightarrow> Inl ActorNotRunning | Inr ch' \<Rightarrow> Inr ch')"

text \<open>The actor of a replica.\<close>

definition replica_actor ::
    "env \<Rightarrow> (effect list \<Rightarrow> 'w \<Rightarrow> 'w) \<Rightarrow> replica_input list \<Rightarrow> replica \<Rightarrow> 'w \<Rightarrow>
     replica actor_end \<times> 'w" where
  "replica_actor E exec = actor_loop (process_message E) (handle_event E) exec"

lemma input_handler: "(case i of InMessage msg \<Rightarrow> process_message E msg r | InEvent ev \<Rightarrow> handle_event E ev r)
    = handle_input E i r"
  by (cases i) simp_all

context transport_ops
begin

lemma exec_batch: "(if es \<noteq> [] then exec es w else w) = exec es w"
  by (simp add: exec_nil)

lemma actor_stops:
  "replica_run E inputs r = Inr (r', es) \<Longrightarrow>
     replica_actor E exec inputs r w = (Stopped r', exec es w)"
proof (induction inputs arbitrary: r es w)
  case Nil
  then show ?case by (simp add: replica_actor_def replica_run_def exec_nil)
next
  case (Cons i inputs)
  then obtain r1 es1 es2 where "handle_input E i r = Inr (r1, es1)"
    and "replica_run E inputs r1 = Inr (r', es2)" and "es = es1 @ es2"
    by (auto simp: replica_run_def bind_outcome_Inr_iff)
  with Cons.IH show ?case
    by (simp add: replica_actor_def input_handler exec_batch exec_append)
qed

text \<open>A panic ends the actor; the effects of the inputs before it have been executed, those of
  the input that panicked have not.\<close>

lemma actor_panics:
  assumes "replica_run E before r = Inr (r', es)" and "handle_input E i r' = Inl p"
  shows "replica_actor E exec (before @ i # after) r w = (Panicked p, exec es w)"
  using assms(1)
proof (induction before arbitrary: r es w)
  case Nil
  with assms(2) show ?case by (simp add: replica_actor_def replica_run_def input_handler exec_nil)
next
  case (Cons j before)
  then obtain r1 es1 es2 where "handle_input E j r = Inr (r1, es1)"
    and "replica_run E before r1 = Inr (r', es2)" and "es = es1 @ es2"
    by (auto simp: replica_run_def bind_outcome_Inr_iff)
  with Cons.IH show ?case
    by (simp add: replica_actor_def input_handler exec_batch exec_append)
qed

end

section \<open>Properties\<close>

text \<open>C33: The actor executes the run. The actor with the default \<open>Transport::execute\<close> over a queue of
  inputs executes exactly the effects of the replica's run over the queue, in order, and stops
  in its final state; if an input panics, it stops there, having executed the effects of the
  inputs before it and none of that input.\<close>

theorem actor_executes_run:
  assumes "replica_run E inputs r = Inr (r', es)"
  shows "replica_actor E (execute bcast send) inputs r w = (Stopped r', execute bcast send es w) \<and>
    (\<forall>i rest p. handle_input E i r' = Inl p \<longrightarrow>
       replica_actor E (execute bcast send) (inputs @ i # rest) r w =
         (Panicked p, execute bcast send es w))"
proof (intro conjI allI impI)
  show "replica_actor E (execute bcast send) inputs r w = (Stopped r', execute bcast send es w)"
    by (rule default_transport.actor_stops [OF assms])
  fix i rest p assume "handle_input E i r' = Inl p"
  then show "replica_actor E (execute bcast send) (inputs @ i # rest) r w =
      (Panicked p, execute bcast send es w)"
    by (rule default_transport.actor_panics [OF assms])
qed

lemma actor_executes_run_witness:
  "\<exists>r. replica_actor demo_env (execute (\<lambda>m w. w @ [m]) (\<lambda>q m w. w @ [m]))
     [InEvent RepairViewTimeout] r [] = (Panicked ArithmeticOverflow, [])"
proof -
  let ?r = "state_update (\<lambda>s. s\<lparr>phase := CollectingLogs, in_repair := True, view := - 1\<rparr>)
     (fresh_replica six_config ''r0'')"
  have "replica_run demo_env [] ?r = Inr (?r, [])" by (simp add: replica_run_def)
  moreover have "handle_input demo_env (InEvent RepairViewTimeout) ?r = Inl ArithmeticOverflow"
    by (simp add: handle_event_def event_steps_def can_send_sync_on_event_def can_chkpt_timeout_def
        can_view_change_def add_u64_one_eq)
  ultimately show ?thesis
    using actor_executes_run [of demo_env "[]" ?r ?r "[]"] by (intro exI [of _ ?r]) force
qed

end
