(* ===== verification/Sequencer.thy ===== *)
theory Sequencer
  imports Raspen_Types
begin

text \<open>
  The crate \<^verbatim>\<open>raspen-sequencer\<close>: the \<eta> counter and the proxy that stamps and broadcasts
  operations. The broadcast channel belongs to tokio and is an argument; what the proxy relies on
  of its documented behaviour is \<open>broadcast_laws\<close>.
\<close>

section \<open>The broadcast channel\<close>

text \<open>What \<open>recv\<close> can answer: a message, the number of messages missed by a receiver that lags, that
  all senders are gone, or that it waits for a message.\<close>

datatype recv_result = Received message | Lagged u64 | Closed | Waiting

text \<open>\<open>broadcast::channel\<close> with the receiver it returns dropped at once, as \<open>new\<close> drops it;
  \<open>Sender::subscribe\<close>; \<open>Sender::send\<close>, which returns the message when nobody is subscribed and
  else the number of receivers; \<open>Receiver::recv\<close>.\<close>

record ('c, 'r) broadcast_api =
  bc_channel :: "u64 \<Rightarrow> 'c outcome"
  bc_subscribe :: "'c \<Rightarrow> 'r \<times> 'c"
  bc_send :: "message \<Rightarrow> 'c \<Rightarrow> (message + u64) \<times> 'c"
  bc_recv :: "'r \<Rightarrow> 'c \<Rightarrow> recv_result \<times> 'r"

text \<open>The documented behaviour is stated on a view of the channel: the messages sent while someone was
  subscribed, how many of them are retained at least, how many receivers there are, and the
  position of a receiver.\<close>

record ('c, 'r) broadcast_view =
  sent_msgs :: "'c \<Rightarrow> message list"
  retained :: "'c \<Rightarrow> nat"
  receivers :: "'c \<Rightarrow> nat"
  cursor :: "'r \<Rightarrow> nat"

definition channel_law :: "('c, 'r) broadcast_api \<Rightarrow> ('c, 'r) broadcast_view \<Rightarrow> bool" where
  "channel_law B V \<longleftrightarrow> (\<forall>cap c. bc_channel B cap = Inr c \<longrightarrow>
     sent_msgs V c = [] \<and> unat cap \<le> retained V c \<and> receivers V c = 0)"

definition subscribe_law :: "('c, 'r) broadcast_api \<Rightarrow> ('c, 'r) broadcast_view \<Rightarrow> bool" where
  "subscribe_law B V \<longleftrightarrow> (\<forall>c rx c'. bc_subscribe B c = (rx, c') \<longrightarrow>
     sent_msgs V c' = sent_msgs V c \<and> retained V c' = retained V c \<and> receivers V c' = Suc (receivers V c) \<and>
     cursor V rx = length (sent_msgs V c))"

definition send_law :: "('c, 'r) broadcast_api \<Rightarrow> ('c, 'r) broadcast_view \<Rightarrow> bool" where
  "send_law B V \<longleftrightarrow> (\<forall>m c res c'. bc_send B m c = (res, c') \<longrightarrow>
     sent_msgs V c' = (if receivers V c = 0 then sent_msgs V c else sent_msgs V c @ [m]) \<and>
     retained V c' = retained V c \<and> receivers V c' = receivers V c)"

definition recv_law :: "('c, 'r) broadcast_api \<Rightarrow> ('c, 'r) broadcast_view \<Rightarrow> bool" where
  "recv_law B V \<longleftrightarrow> (\<forall>rx c res rx'. bc_recv B rx c = (res, rx') \<longrightarrow>
     (cursor V rx = length (sent_msgs V c) \<longrightarrow> res = Waiting \<and> cursor V rx' = cursor V rx) \<and>
     (cursor V rx < length (sent_msgs V c) \<and> length (sent_msgs V c) \<le> cursor V rx + retained V c \<longrightarrow>
        res = Received (sent_msgs V c ! cursor V rx) \<and> cursor V rx' = Suc (cursor V rx)))"

definition broadcast_laws :: "('c, 'r) broadcast_api \<Rightarrow> ('c, 'r) broadcast_view \<Rightarrow> bool" where
  "broadcast_laws B V \<longleftrightarrow> channel_law B V \<and> subscribe_law B V \<and> send_law B V \<and> recv_law B V"

section \<open>The counter and the proxy\<close>

text \<open>\<open>fetch_add(1)\<close> on an \<open>AtomicU64\<close> wraps, in every build profile.\<close>

definition eta_new :: u64 where
  "eta_new = 0"

definition eta_next :: "u64 \<Rightarrow> u64 \<times> u64" where
  "eta_next c = (c, c + 1)"

record 'c sequencer =
  eta_counter :: u64
  sender :: 'c

definition sequencer_new :: "('c, 'r) broadcast_api \<Rightarrow> u64 \<Rightarrow> 'c sequencer outcome" where
  "sequencer_new B capacity =
     bind_outcome (bc_channel B capacity) (\<lambda>s. Inr \<lparr>eta_counter = eta_new, sender = s\<rparr>)"

definition subscribe :: "('c, 'r) broadcast_api \<Rightarrow> 'c sequencer \<Rightarrow> 'r \<times> 'c sequencer" where
  "subscribe B sq = (let (rx, s) = bc_subscribe B (sender sq) in (rx, sq\<lparr>sender := s\<rparr>))"

definition submit :: "('c, 'r) broadcast_api \<Rightarrow> hash \<Rightarrow> 'c sequencer \<Rightarrow> u64 \<times> 'c sequencer" where
  "submit B h sq =
     (let (eta, c) = eta_next (eta_counter sq);
          (ignored, s) = bc_send B (Speculate ''sequencer'' 0 h eta) (sender sq)
      in (eta, sq\<lparr>eta_counter := c, sender := s\<rparr>))"

fun submit_all :: "('c, 'r) broadcast_api \<Rightarrow> hash list \<Rightarrow> 'c sequencer \<Rightarrow> u64 list \<times> 'c sequencer" where
  "submit_all B [] sq = ([], sq)"
| "submit_all B (h # hs) sq =
     (let (eta, sq1) = submit B h sq; (etas, sq2) = submit_all B hs sq1 in (eta # etas, sq2))"

section \<open>A subscriber\<close>

text \<open>Clients submit and a subscriber receives, in some order. A receive that would wait is no step.\<close>

datatype seq_op = Submit hash | Receive

definition received :: "recv_result \<Rightarrow> recv_result list" where
  "received res = (if res = Waiting then [] else [res])"

fun seq_run :: "('c, 'r) broadcast_api \<Rightarrow> seq_op list \<Rightarrow> 'c sequencer \<Rightarrow> 'r \<Rightarrow>
    u64 list \<times> recv_result list \<times> 'c sequencer \<times> 'r" where
  "seq_run B [] sq rx = ([], [], sq, rx)"
| "seq_run B (Submit h # ops) sq rx =
     (let (eta, sq1) = submit B h sq; (etas, got, fin) = seq_run B ops sq1 rx in (eta # etas, got, fin))"
| "seq_run B (Receive # ops) sq rx =
     (let (res, rx1) = bc_recv B rx (sender sq); (etas, got, fin) = seq_run B ops sq rx1
      in (etas, received res @ got, fin))"

fun submitted :: "seq_op list \<Rightarrow> hash list" where
  "submitted [] = []"
| "submitted (Submit h # ops) = h # submitted ops"
| "submitted (Receive # ops) = submitted ops"

text \<open>A subscriber with \<open>k\<close> unread messages that never has more than \<open>cap\<close> of them, and the number of
  messages it has read in the end.\<close>

fun keeps_up :: "nat \<Rightarrow> nat \<Rightarrow> seq_op list \<Rightarrow> bool" where
  "keeps_up cap k [] \<longleftrightarrow> True"
| "keeps_up cap k (Submit h # ops) \<longleftrightarrow> k < cap \<and> keeps_up cap (Suc k) ops"
| "keeps_up cap k (Receive # ops) \<longleftrightarrow> keeps_up cap (k - 1) ops"

fun reads :: "nat \<Rightarrow> seq_op list \<Rightarrow> nat" where
  "reads k [] = 0"
| "reads k (Submit h # ops) = reads (Suc k) ops"
| "reads k (Receive # ops) = (if k = 0 then reads 0 ops else Suc (reads (k - 1) ops))"

definition speculates :: "u64 \<Rightarrow> hash list \<Rightarrow> message list" where
  "speculates eta hs = map (\<lambda>i. Speculate ''sequencer'' 0 (hs ! i) (eta + of_nat i)) [0..<length hs]"

lemma speculates_Cons: "speculates eta (h # hs) = Speculate ''sequencer'' 0 h eta # speculates (eta + 1) hs"
  by (simp add: speculates_def map_upt_Suc add.assoc del: upt_Suc)

lemma speculates_Nil [simp]: "speculates eta [] = []"
  by (simp add: speculates_def)


lemma submit_step:
  assumes "broadcast_laws B V" and "submit B h sq = (eta, sq')"
  shows "eta = eta_counter sq" and "eta_counter sq' = eta_counter sq + 1"
    and "sent_msgs V (sender sq') = (if receivers V (sender sq) = 0 then sent_msgs V (sender sq)
      else sent_msgs V (sender sq) @ [Speculate ''sequencer'' 0 h eta])"
    and "receivers V (sender sq') = receivers V (sender sq)" and "retained V (sender sq') = retained V (sender sq)"
  using assms
  by (auto simp: submit_def eta_next_def broadcast_laws_def send_law_def split: prod.splits)

lemma submit_all_etas:
  assumes "broadcast_laws B V"
  shows "submit_all B hs sq = (etas, sq') \<Longrightarrow> etas = map (\<lambda>i. eta_counter sq + of_nat i) [0..<length hs] \<and>
    eta_counter sq' = eta_counter sq + of_nat (length hs) \<and>
    receivers V (sender sq') = receivers V (sender sq) \<and> retained V (sender sq') = retained V (sender sq) \<and>
    sent_msgs V (sender sq') = (if receivers V (sender sq) = 0 then sent_msgs V (sender sq)
      else sent_msgs V (sender sq) @ speculates (eta_counter sq) hs)"
proof (induction hs arbitrary: sq etas)
  case (Cons h hs)
  obtain eta sq1 es where 1: "submit B h sq = (eta, sq1)" "submit_all B hs sq1 = (es, sq')" "etas = eta # es"
    using Cons.prems by (auto split: prod.splits)
  note s = submit_step [OF assms 1(1)]
  show ?case
    using Cons.IH [OF 1(2)] s 1(3)
    by (simp add: speculates_Cons map_upt_Suc add.assoc del: upt_Suc)
qed auto

lemma recv_step:
  assumes "broadcast_laws B V" and "bc_recv B rx c = (res, rx')"
  shows "cursor V rx = length (sent_msgs V c) \<Longrightarrow> res = Waiting \<and> cursor V rx' = cursor V rx"
    and "cursor V rx < length (sent_msgs V c) \<Longrightarrow> length (sent_msgs V c) \<le> cursor V rx + retained V c \<Longrightarrow>
      res = Received (sent_msgs V c ! cursor V rx) \<and> cursor V rx' = Suc (cursor V rx)"
  using assms unfolding broadcast_laws_def recv_law_def by blast+

lemma seq_run_keeps_up:
  assumes laws: "broadcast_laws B V"
  shows "seq_run B ops sq rx = (etas, got, sq', rx') \<Longrightarrow> 0 < receivers V (sender sq) \<Longrightarrow>
    cap \<le> retained V (sender sq) \<Longrightarrow> cursor V rx + k = length (sent_msgs V (sender sq)) \<Longrightarrow> k \<le> cap \<Longrightarrow>
    keeps_up cap k ops \<Longrightarrow>
    etas = map (\<lambda>i. eta_counter sq + of_nat i) [0..<length (submitted ops)] \<and>
    sent_msgs V (sender sq') = sent_msgs V (sender sq) @ speculates (eta_counter sq) (submitted ops) \<and>
    got = map Received (take (reads k ops) (drop (cursor V rx) (sent_msgs V (sender sq'))))"
proof (induction ops arbitrary: sq rx k etas got)
  case (Cons op ops)
  show ?case
  proof (cases op)
    case (Submit h)
    obtain eta sq1 es where 1: "submit B h sq = (eta, sq1)" "seq_run B ops sq1 rx = (es, got, sq', rx')" "etas = eta # es"
      using Cons.prems(1) Submit by (auto split: prod.splits)
    note s = submit_step [OF laws 1(1)]
    have "cursor V rx + Suc k = length (sent_msgs V (sender sq1))" "keeps_up cap (Suc k) ops" "Suc k \<le> cap"
      using Cons.prems(2,4,6) s(3) Submit by auto
    from Cons.IH [OF 1(2) _ _ this(1) this(3) this(2)] show ?thesis
      using Cons.prems(2,3) s 1(3) Submit
      by (simp add: speculates_Cons map_upt_Suc add.assoc del: upt_Suc)
  next
    case Receive
    obtain res rx1 gs where 1: "bc_recv B rx (sender sq) = (res, rx1)" "seq_run B ops sq rx1 = (etas, gs, sq', rx')"
      "got = received res @ gs"
      using Cons.prems(1) Receive by (auto split: prod.splits)
    note recv = recv_step [OF laws 1(1)]
    show ?thesis
    proof (cases k)
      case 0
      then have "res = Waiting" "cursor V rx1 = cursor V rx" using recv(1) Cons.prems(4) by simp_all
      then show ?thesis
        using Cons.IH [OF 1(2) Cons.prems(2,3), of k] Cons.prems(4-6) 1(3) Receive 0 by (simp add: received_def)
    next
      case (Suc j)
      then have r: "res = Received (sent_msgs V (sender sq) ! cursor V rx)" "cursor V rx1 = Suc (cursor V rx)"
        using recv(2) Cons.prems(3-5) by simp_all
      have "cursor V rx1 + j = length (sent_msgs V (sender sq))" "j \<le> cap" "keeps_up cap j ops"
        using Cons.prems(4-6) r(2) Suc Receive by simp_all
      note ih = Cons.IH [OF 1(2) Cons.prems(2,3) this]
      have "cursor V rx < length (sent_msgs V (sender sq))" using Cons.prems(4) Suc by simp
      then have "drop (cursor V rx) (sent_msgs V (sender sq')) =
          sent_msgs V (sender sq) ! cursor V rx # drop (cursor V rx1) (sent_msgs V (sender sq'))"
        using ih r(2) by (simp add: Cons_nth_drop_Suc [symmetric] nth_append)
      then show ?thesis using ih r(1) 1(3) Receive Suc by (simp add: received_def)
    qed
  qed
qed simp


lemma distinct_offsets: "n \<le> 2 ^ 64 \<Longrightarrow> distinct (map (\<lambda>i. (c :: u64) + of_nat i) [0..<n])"
proof -
  assume n: "n \<le> 2 ^ 64"
  have "i = j" if "i < n" "j < n" "(of_nat i :: u64) = of_nat j" for i j
  proof -
    have "unat (of_nat i :: u64) = unat (of_nat j :: u64)" using that(3) by simp
    with that(1,2) n show ?thesis by (simp add: unat_of_nat del: unat_eq_iff)
  qed
  then show ?thesis by (auto simp: distinct_map inj_on_def)
qed

lemma offsets_append:
  "map (\<lambda>i. (c :: u64) + of_nat i) [0..<m] @ map (\<lambda>i. c + of_nat m + of_nat i) [0..<n] =
     map (\<lambda>i. c + of_nat i) [0..<m + n]"
  by (induction n) (simp_all add: add.assoc flip: append_assoc)

section \<open>A channel with a ring\<close>

text \<open>A concrete channel that behaves as documented: the messages sent, the capacity and the number of
  receivers; a receiver is a position.\<close>

type_synonym ring = "message list \<times> nat \<times> nat"

definition ring_api :: "(ring, nat) broadcast_api" where
  "ring_api = \<lparr>
     bc_channel = (\<lambda>cap. if cap = 0 \<or> 0x8000000000000000 \<le> cap then Inl (ExpectFailed ''broadcast channel capacity'')
                         else Inr ([], unat cap, 0)),
     bc_subscribe = (\<lambda>(ms, cap, n). (length ms, (ms, cap, Suc n))),
     bc_send = (\<lambda>m (ms, cap, n). if n = 0 then (Inl m, (ms, cap, n)) else (Inr (of_nat n), (ms @ [m], cap, n))),
     bc_recv = (\<lambda>rx (ms, cap, n).
       if rx = length ms then (Waiting, rx)
       else if length ms \<le> rx + cap then (Received (ms ! rx), Suc rx)
       else (Lagged (of_nat (length ms - cap - rx)), length ms - cap))\<rparr>"

definition ring_view :: "(ring, nat) broadcast_view" where
  "ring_view = \<lparr>sent_msgs = fst, retained = fst \<circ> snd, receivers = snd \<circ> snd, cursor = id\<rparr>"

lemma ring_laws: "broadcast_laws ring_api ring_view"
  by (auto simp: broadcast_laws_def channel_law_def subscribe_law_def send_law_def recv_law_def
      ring_api_def ring_view_def split: if_splits)

section \<open>Properties\<close>

text \<open>C35: Delivery of operations. Whatever channel behaves as documented, a sequencer numbers the
  operations submitted 0, 1, 2, \<dots>, up to \<open>2 ^ 64\<close> of them without repetition. A subscriber gets none
  submitted before it subscribed, not even where the channel had no receiver to keep them for, and
  if it never has more than \<open>capacity\<close> unread, it gets every operation submitted since exactly
  once, in the order and with the number of its submission.\<close>

theorem subscriber_gets_all:
  assumes "broadcast_laws B V" and "sequencer_new B capacity = Inr sq0"
    and "submit_all B hs sq0 = (etas0, sq1)" and "subscribe B sq1 = (rx, sq2)"
    and "seq_run B ops sq2 rx = (etas, got, sq3, rx3)" and "keeps_up (unat capacity) 0 ops"
    and "length hs + length (submitted ops) \<le> 2 ^ 64"
  shows "etas0 @ etas = map of_nat [0..<length hs + length (submitted ops)] \<and> distinct (etas0 @ etas) \<and>
    got = map Received (take (reads 0 ops)
      (map (\<lambda>(h, eta). Speculate ''sequencer'' 0 h eta) (zip (submitted ops) etas)))"
proof -
  have new: "eta_counter sq0 = 0" "unat capacity \<le> retained V (sender sq0)" "receivers V (sender sq0) = 0"
    "sent_msgs V (sender sq0) = []"
    using assms(1,2)
    by (auto simp: sequencer_new_def bind_outcome_Inr_iff broadcast_laws_def channel_law_def eta_new_def)
  note first = submit_all_etas [OF assms(1,3)]
  have sub: "sent_msgs V (sender sq2) = []" "unat capacity \<le> retained V (sender sq2)" "0 < receivers V (sender sq2)"
    "cursor V rx = 0" "eta_counter sq2 = of_nat (length hs)"
    using assms(1,4) first new
    by (auto simp: subscribe_def broadcast_laws_def subscribe_law_def split: prod.splits)
  have run: "etas = map (\<lambda>i. of_nat (length hs) + of_nat i) [0..<length (submitted ops)]"
    "sent_msgs V (sender sq3) = speculates (of_nat (length hs)) (submitted ops)"
    "got = map Received (take (reads 0 ops) (sent_msgs V (sender sq3)))"
    using seq_run_keeps_up [OF assms(1,5) sub(3,2), of 0] sub(1,4,5) assms(6) by auto
  have all: "etas0 @ etas = map of_nat [0..<length hs + length (submitted ops)]"
    using first run(1) new(1) offsets_append [of 0 "length hs" "length (submitted ops)"] by simp
  moreover have "distinct (etas0 @ etas)"
    unfolding all using distinct_offsets [OF assms(7), of 0] by simp
  moreover have "speculates (of_nat (length hs)) (submitted ops) =
      map (\<lambda>(h, eta). Speculate ''sequencer'' 0 h eta) (zip (submitted ops) etas)"
    by (rule nth_equalityI) (simp_all add: speculates_def run(1))
  ultimately show ?thesis using run(2,3) by simp
qed

lemma subscriber_gets_all_witness:
  "\<exists>sq0 sq1 rx sq2 sq3 rx3. sequencer_new ring_api 1 = Inr sq0 \<and>
     submit_all ring_api [zero_hash] sq0 = ([0], sq1) \<and> subscribe ring_api sq1 = (rx, sq2) \<and>
     seq_run ring_api [Submit (hash_fill 1), Receive, Receive, Submit (hash_fill 2), Receive] sq2 rx =
       ([1, 2], [Received (Speculate ''sequencer'' 0 (hash_fill 1) 1),
                 Received (Speculate ''sequencer'' 0 (hash_fill 2) 2)], sq3, rx3)"
proof -
  let ?ops = "[Submit (hash_fill 1), Receive, Receive, Submit (hash_fill 2), Receive]"
  let ?sq0 = "\<lparr>eta_counter = 0, sender = ([], 1, 0)\<rparr> :: ring sequencer"
  let ?sq1 = "\<lparr>eta_counter = 1, sender = ([], 1, 0)\<rparr> :: ring sequencer"
  let ?sq2 = "\<lparr>eta_counter = 1, sender = ([], 1, 1)\<rparr> :: ring sequencer"
  have a: "sequencer_new ring_api 1 = Inr ?sq0" "submit_all ring_api [zero_hash] ?sq0 = ([0], ?sq1)"
    "subscribe ring_api ?sq1 = (0, ?sq2)"
    by (simp_all add: sequencer_new_def ring_api_def eta_new_def submit_def eta_next_def subscribe_def word_le_nat_alt)
  obtain etas got sq3 rx3 where run: "seq_run ring_api ?ops ?sq2 0 = (etas, got, sq3, rx3)"
    by (metis prod_cases4)
  have "[0] @ etas = map of_nat [0..<length [zero_hash] + length (submitted ?ops)] \<and> distinct ([0] @ etas) \<and>
      got = map Received (take (reads 0 ?ops)
        (map (\<lambda>(h, eta). Speculate ''sequencer'' 0 h eta) (zip (submitted ?ops) etas)))"
    by (rule subscriber_gets_all [OF ring_laws a run]) simp_all
  then have "etas = [1, 2]" "got = [Received (Speculate ''sequencer'' 0 (hash_fill 1) 1),
      Received (Speculate ''sequencer'' 0 (hash_fill 2) 2)]"
    by (auto simp: upt_rec)
  with a run show ?thesis by blast
qed

end
