(* ===== verification/Consensus_Tests.thy ===== *)
theory Consensus_Tests
  imports Node Sequencer
begin

text \<open>
  The unit tests of the consensus and sequencer crates and the model-based tests, as boolean
  functions of the environment: the replicas they build, the messages and events they deliver, and
  what they assert. A panic fails a test. Fields a test sets by hand are set by hand here. Left out
  is \<open>test_send_sync_no_state_change\<close>, whose handler returns no state in the model.
\<close>

section \<open>Helpers of the tests\<close>

definition passes :: "bool outcome \<Rightarrow> bool" where
  "passes x \<longleftrightarrow> (case x of Inl p \<Rightarrow> False | Inr b \<Rightarrow> b)"

definition make_replica :: "env \<Rightarrow> node_id \<Rightarrow> replica outcome" where
  "make_replica E node =
     bind_outcome (for_test (overflow_checks E) 6 1 1) (\<lambda>cfg.
       expect ''Replica::new'' (replica_new cfg node ''tmp''))"

definition make_leader_replica :: "env \<Rightarrow> replica outcome" where
  "make_leader_replica E = make_replica E ''r0''"

definition make_non_leader_replica :: "env \<Rightarrow> replica outcome" where
  "make_non_leader_replica E = make_replica E ''r1''"

definition make_replica_in :: "env \<Rightarrow> phase \<Rightarrow> replica outcome" where
  "make_replica_in E ph =
     bind_outcome (make_replica E ''n0'') (\<lambda>r. Inr (state_update (\<lambda>s. s\<lparr>phase := ph\<rparr>) r))"

definition do_speculate :: "env \<Rightarrow> replica \<Rightarrow> replica outcome" where
  "do_speculate E r = bind_outcome (handle_speculate E r 0) (\<lambda>(r, es). Inr r)"

text \<open>\<open>process_message\<close> on a list of messages: the final replica, the effects of the last message and
  the effects of all.\<close>

fun deliver_all :: "env \<Rightarrow> message list \<Rightarrow> replica \<Rightarrow> effect list \<Rightarrow> effect list \<Rightarrow>
    (replica \<times> effect list \<times> effect list) outcome" where
  "deliver_all E [] r final_effects all_effects = Inr (r, final_effects, all_effects)"
| "deliver_all E (m # ms) r final_effects all_effects =
     bind_outcome (process_message E m r) (\<lambda>(r, effects).
       deliver_all E ms r effects (all_effects @ effects))"

definition broadcasts :: "(message \<Rightarrow> bool) \<Rightarrow> effect list \<Rightarrow> bool" where
  "broadcasts p es \<longleftrightarrow> list_ex (\<lambda>e. case e of Broadcast m \<Rightarrow> p m | Send q m \<Rightarrow> False) es"

definition n_name :: "nat \<Rightarrow> node_id" where
  "n_name i = ''n'' @ show_nat i"

definition seq_msg :: message where
  "seq_msg = Speculate ''seq'' 0 zero_hash 0"

section \<open>\<^verbatim>\<open>fast_path.rs\<close>\<close>

definition guard_passes_when_speculative :: "env \<Rightarrow> bool" where
  "guard_passes_when_speculative E = passes
     (bind_outcome (make_replica_in E Speculative) (\<lambda>r. Inr (can_speculate r seq_msg = Some 0)))"

definition guard_fails_when_aligning :: "env \<Rightarrow> bool" where
  "guard_fails_when_aligning E = passes
     (bind_outcome (make_replica_in E Aligning) (\<lambda>r. Inr (can_speculate r seq_msg = None)))"

definition guard_fails_for_non_speculate_message :: "env \<Rightarrow> bool" where
  "guard_fails_for_non_speculate_message E = passes
     (bind_outcome (make_replica_in E Speculative) (\<lambda>r.
        Inr (can_speculate r (SpecReply ''x'' 0 0 zero_hash) = None)))"

definition first_speculate_writes_genesis_entry :: "env \<Rightarrow> bool" where
  "first_speculate_writes_genesis_entry E = passes
     (bind_outcome (make_replica_in E Speculative) (\<lambda>r.
      bind_outcome (handle_speculate E r 0) (\<lambda>(r, effects).
      bind_outcome (mem_size E (kv_store (state r))) (\<lambda>sz.
        Inr (kv_size (state r) = 1 \<and> sz = 1 \<and>
          (case effects of
             [Broadcast (SpecReply from_node rd k h)] \<Rightarrow> k = 0 \<and> from_node = ''n0'' \<and> h \<noteq> zero_hash
           | _ \<Rightarrow> False) \<and>
          (case mem_get (kv_store (state r)) 0 of
             Inr (Some e) \<Rightarrow> prev_hash e = zero_hash \<and> op_hash e = 0
           | _ \<Rightarrow> False))))))"

definition second_speculate_chains_prev_hash :: "env \<Rightarrow> bool" where
  "second_speculate_chains_prev_hash E = passes
     (bind_outcome (make_replica_in E Speculative) (\<lambda>r.
      bind_outcome (handle_speculate E r 0) (\<lambda>(r, es).
      bind_outcome (expect ''unwrap'' (mem_hash_at E (kv_store (state r)) 0)) (\<lambda>hash_0.
      bind_outcome (handle_speculate E r 1) (\<lambda>(r, es).
        Inr ((case mem_get (kv_store (state r)) 1 of Inr (Some e) \<Rightarrow> prev_hash e = hash_0 | _ \<Rightarrow> False) \<and>
          kv_size (state r) = 2))))))"

section \<open>\<^verbatim>\<open>checkpoint.rs\<close>\<close>

definition test_sync_on_event :: "env \<Rightarrow> bool" where
  "test_sync_on_event E = passes
     (bind_outcome (make_replica E ''n0'') (\<lambda>r.
      bind_outcome (do_speculate E r) (\<lambda>r.
      bind_outcome (handle_event E SyncTimeout r) (\<lambda>(r', effects).
        Inr (kv_size (state r) = 1 \<and>
          (case effects of
             [Broadcast (Sync from_node rd k h eta_s)] \<Rightarrow>
               from_node = ''n0'' \<and> rd = 0 \<and> k = 0 \<and> eta_s = 0
           | _ \<Rightarrow> False))))))"

definition test_no_sync_when_empty :: "env \<Rightarrow> bool" where
  "test_no_sync_when_empty E = passes
     (bind_outcome (make_replica E ''n0'') (\<lambda>r.
      bind_outcome (handle_event E SyncTimeout r) (\<lambda>(r, effects). Inr (effects = []))))"

definition test_sync_threshold_via_process_message :: "env \<Rightarrow> bool" where
  "test_sync_threshold_via_process_message E = passes
     (bind_outcome (make_replica E ''n0'') (\<lambda>r.
      bind_outcome (process_message E seq_msg r) (\<lambda>(r, effects). Inr (broadcasts is_Sync effects))))"

definition test_syncs :: "usize \<Rightarrow> hash \<Rightarrow> message list" where
  "test_syncs n h = map (\<lambda>i. Sync (n_name i) 0 0 h 0) [0..<unat n]"

definition test_checkpoint_forms_after_quorum :: "env \<Rightarrow> bool" where
  "test_checkpoint_forms_after_quorum E = passes
     (bind_outcome (make_replica E ''n0'') (\<lambda>r.
      bind_outcome (do_speculate E r) (\<lambda>r.
        let expected_hash = mem_top_hash (kv_store (state r))
        in bind_outcome (deliver_all E (test_syncs (fast_quorum (config r)) expected_hash) r [] [])
             (\<lambda>(r, final_effects, es).
               Inr (broadcasts (\<lambda>m. case m of
                      Checkpoint q rd k h \<Rightarrow> k = 0 \<and> h = expected_hash | _ \<Rightarrow> False) final_effects \<and>
                    chkpt_idx (state r) = 0 \<and> chkpt_hash (state r) = expected_hash)))))"

definition test_no_checkpoint_below_quorum :: "env \<Rightarrow> bool" where
  "test_no_checkpoint_below_quorum E = passes
     (bind_outcome (make_replica E ''n0'') (\<lambda>r.
      bind_outcome (do_speculate E r) (\<lambda>r.
        let expected_hash = mem_top_hash (kv_store (state r))
        in bind_outcome (deliver_all E (test_syncs (fast_quorum (config r) - 1) expected_hash) r [] [])
             (\<lambda>(r, es, all_effects).
               Inr (\<not> broadcasts is_Checkpoint all_effects \<and> chkpt_idx (state r) = 0)))))"

definition test_mismatched_sync_does_not_count :: "env \<Rightarrow> bool" where
  "test_mismatched_sync_does_not_count E = passes
     (bind_outcome (make_replica E ''n0'') (\<lambda>r.
      bind_outcome (do_speculate E r) (\<lambda>r.
      bind_outcome (deliver_all E (test_syncs (fast_quorum (config r)) (hash_fill 0xFF)) r [] [])
        (\<lambda>(r, es, all_effects). Inr (\<not> broadcasts is_Checkpoint all_effects)))))"

section \<open>\<^verbatim>\<open>alignment.rs\<close>\<close>

definition test_checkpoints :: "usize \<Rightarrow> message list" where
  "test_checkpoints n = map (\<lambda>i. Checkpoint (n_name i) 0 0 zero_hash) [0..<unat n]"

definition test_enter_align_after_f_plus_1_checkpoints :: "env \<Rightarrow> bool" where
  "test_enter_align_after_f_plus_1_checkpoints E = passes
     (bind_outcome (make_replica E ''n0'') (\<lambda>r0.
      bind_outcome (deliver_all E (test_checkpoints (f_plus_1 (config r0))) r0 [] [])
        (\<lambda>(r, final_effects, es).
          Inr (phase (state r0) = Speculative \<and>
            broadcasts (\<lambda>m. case m of StateRequest q k \<Rightarrow> q = ''n0'' \<and> k = 0 | _ \<Rightarrow> False) final_effects \<and>
            phase (state r) = Aligning))))"

definition test_enter_align_below_threshold_no_effect :: "env \<Rightarrow> bool" where
  "test_enter_align_below_threshold_no_effect E = passes
     (bind_outcome (make_replica E ''n0'') (\<lambda>r.
      bind_outcome (deliver_all E (test_checkpoints (f_plus_1 (config r) - 1)) r [] [])
        (\<lambda>(r, es, all_effects).
          Inr (\<not> broadcasts is_StateRequest all_effects \<and> phase (state r) = Speculative))))"

definition test_enter_align_guard_fails_wrong_phase :: "env \<Rightarrow> bool" where
  "test_enter_align_guard_fails_wrong_phase E = passes
     (bind_outcome (make_replica_in E Aligning) (\<lambda>r. Inr (can_enter_align r = None)))"

definition test_state_request_triggers_reply :: "env \<Rightarrow> bool" where
  "test_state_request_triggers_reply E = passes
     (bind_outcome (make_replica E ''n0'') (\<lambda>r.
        Inr ((case handle_state_request r ''n1'' of
                [Send q m] \<Rightarrow> q = ''n1'' \<and> (case m of StateReply from_node k h \<Rightarrow> from_node = ''n0'' | _ \<Rightarrow> False)
              | _ \<Rightarrow> False) \<and>
             can_state_request (StateRequest ''n1'' 0) = Some ''n1'')))"

definition test_state_request_guard_fails_for_other_messages :: "env \<Rightarrow> bool" where
  "test_state_request_guard_fails_for_other_messages E \<longleftrightarrow>
     can_state_request (Speculate ''s'' 0 zero_hash 0) = None"

definition test_state_reply_rebuilds_store_and_returns_speculative :: "env \<Rightarrow> bool" where
  "test_state_reply_rebuilds_store_and_returns_speculative E = passes
     (bind_outcome (make_replica_in E Aligning) (\<lambda>r.
        case can_state_reply r (StateReply ''n1'' 3 zero_hash) of
          None \<Rightarrow> Inl (ExpectFailed ''guard must fire'')
        | Some idx \<Rightarrow>
            bind_outcome (handle_state_reply E r idx) (\<lambda>(r, effects).
            bind_outcome (mem_size E (kv_store (state r))) (\<lambda>sz.
              Inr (idx = 3 \<and> effects = [] \<and> phase (state r) = Speculative \<and> chkpt_idx (state r) = 3 \<and>
                kv_size (state r) = 4 \<and> start_idx (state r) = 3 \<and> sz = 4)))))"

definition test_state_reply_guard_fails_when_not_aligning :: "env \<Rightarrow> bool" where
  "test_state_reply_guard_fails_when_not_aligning E = passes
     (bind_outcome (make_replica E ''n0'') (\<lambda>r.
        Inr (can_state_reply r (StateReply ''n1'' 0 zero_hash) = None)))"

section \<open>\<^verbatim>\<open>repair_entry.rs\<close>\<close>

definition test_chkpt_timeout_broadcasts_timeout_msg :: "env \<Rightarrow> bool" where
  "test_chkpt_timeout_broadcasts_timeout_msg E = passes
     (bind_outcome (make_replica E ''n0'') (\<lambda>r0.
      bind_outcome (handle_event E (ChkptTimeout 5) r0) (\<lambda>(r, effects).
        Inr (phase (state r0) = Speculative \<and>
          (case effects of
             [Broadcast (TimeoutMsg from_node rd k)] \<Rightarrow> from_node = ''n0'' \<and> rd = 0 \<and> k = 5
           | _ \<Rightarrow> False) \<and>
          phase (state r) = Speculative))))"

definition test_chkpt_timeout_guard_fails_wrong_phase :: "env \<Rightarrow> bool" where
  "test_chkpt_timeout_guard_fails_wrong_phase E = passes
     (bind_outcome (make_replica_in E Aligning) (\<lambda>r.
      bind_outcome (handle_event E (ChkptTimeout 0) r) (\<lambda>(r, effects). Inr (effects = []))))"

definition test_chkpt_timeout_guard_fails_when_in_repair :: "env \<Rightarrow> bool" where
  "test_chkpt_timeout_guard_fails_when_in_repair E = passes
     (bind_outcome (make_replica E ''n0'') (\<lambda>r.
      bind_outcome (handle_event E (ChkptTimeout 0) (state_update (\<lambda>s. s\<lparr>in_repair := True\<rparr>) r))
        (\<lambda>(r, effects). Inr (effects = []))))"

definition test_timeouts :: "usize \<Rightarrow> message list" where
  "test_timeouts n = map (\<lambda>i. TimeoutMsg (n_name i) 0 0) [0..<unat n]"

definition test_timeout_proof_after_f_plus_1_timeouts :: "env \<Rightarrow> bool" where
  "test_timeout_proof_after_f_plus_1_timeouts E = passes
     (bind_outcome (make_replica E ''n0'') (\<lambda>r.
      bind_outcome (do_speculate E r) (\<lambda>r.
      bind_outcome (deliver_all E (test_timeouts (f_plus_1 (config r))) r [] [])
        (\<lambda>(r, final_effects, es).
          Inr (broadcasts (\<lambda>m. m = TimeoutProof 0 0) final_effects \<and>
            broadcasts is_LogMsg final_effects \<and>
            phase (state r) = CollectingLogs \<and> in_repair (state r))))))"

definition test_timeout_proof_below_threshold :: "env \<Rightarrow> bool" where
  "test_timeout_proof_below_threshold E = passes
     (bind_outcome (make_replica E ''n0'') (\<lambda>r.
      bind_outcome (do_speculate E r) (\<lambda>r.
      bind_outcome (deliver_all E (test_timeouts (f_plus_1 (config r) - 1)) r [] [])
        (\<lambda>(r, es, all_effects).
          Inr (\<not> broadcasts is_TimeoutProof all_effects \<and> phase (state r) = Speculative)))))"

definition test_enter_repair_on_timeout_proof :: "env \<Rightarrow> bool" where
  "test_enter_repair_on_timeout_proof E = passes
     (bind_outcome (make_replica E ''n0'') (\<lambda>r0.
      bind_outcome (process_message E (TimeoutProof 0 0) r0) (\<lambda>(r, effects).
        Inr (\<not> in_repair (state r0) \<and> broadcasts is_LogMsg effects \<and>
          phase (state r) = CollectingLogs \<and> in_repair (state r)))))"

definition test_enter_repair_guard_fails_when_in_repair :: "env \<Rightarrow> bool" where
  "test_enter_repair_guard_fails_when_in_repair E = passes
     (bind_outcome (make_replica E ''n0'') (\<lambda>r.
        Inr (can_enter_repair (state_update (\<lambda>s. s\<lparr>in_repair := True, phase := CollectingLogs\<rparr>) r)
               (TimeoutProof 0 0) = None)))"

definition test_enter_repair_on_conflict_proof :: "env \<Rightarrow> bool" where
  "test_enter_repair_on_conflict_proof E = passes
     (bind_outcome (make_replica E ''n0'') (\<lambda>r.
      bind_outcome (process_message E (ConflictProof 0 0) r) (\<lambda>(r, effects).
        Inr (broadcasts is_LogMsg effects))))"

section \<open>\<^verbatim>\<open>replica.rs\<close>\<close>

definition test_speculate_produces_spec_reply :: "env \<Rightarrow> bool" where
  "test_speculate_produces_spec_reply E = passes
     (bind_outcome (make_replica E ''n0'') (\<lambda>r.
      bind_outcome (process_message E seq_msg r) (\<lambda>(r, effects).
      bind_outcome (mem_size E (kv_store (state r))) (\<lambda>sz.
        Inr (broadcasts (\<lambda>m. case m of SpecReply q rd k h \<Rightarrow> k = 0 \<and> q = ''n0'' | _ \<Rightarrow> False) effects \<and>
          broadcasts (\<lambda>m. case m of Sync q rd k h e \<Rightarrow> k = 0 | _ \<Rightarrow> False) effects \<and>
          kv_size (state r) = 1 \<and> sz = 1)))))"

definition test_second_speculate_uses_log_idx_1 :: "env \<Rightarrow> bool" where
  "test_second_speculate_uses_log_idx_1 E = passes
     (bind_outcome (make_replica E ''n0'') (\<lambda>r.
      bind_outcome (process_message E seq_msg r) (\<lambda>(r, es).
      bind_outcome (process_message E (Speculate ''seq'' 0 (hash_fill 1) 1) r) (\<lambda>(r, effects2).
        Inr (broadcasts (\<lambda>m. case m of SpecReply q rd k h \<Rightarrow> k = 1 | _ \<Rightarrow> False) effects2 \<and>
          kv_size (state r) = 2)))))"

definition test_speculate_ignored_when_not_speculative :: "env \<Rightarrow> bool" where
  "test_speculate_ignored_when_not_speculative E = passes
     (bind_outcome (make_replica_in E Aligning) (\<lambda>r.
      bind_outcome (process_message E seq_msg r) (\<lambda>(r, effects).
        Inr (effects = [] \<and> kv_size (state r) = 0))))"

section \<open>\<^verbatim>\<open>repair.rs\<close>\<close>

definition test_view_change_on_repair_timeout :: "env \<Rightarrow> bool" where
  "test_view_change_on_repair_timeout E = passes
     (bind_outcome (make_leader_replica E) (\<lambda>r.
        let r0 = state_update (\<lambda>s. s\<lparr>phase := CollectingLogs\<rparr>) r
        in bind_outcome (handle_event E RepairViewTimeout r0) (\<lambda>(r, effects).
             Inr (view (state r0) = 0 \<and>
               (case effects of
                  [Broadcast (LogMsg from_node v rd h)] \<Rightarrow> from_node = ''r0'' \<and> v = 1
                | _ \<Rightarrow> False) \<and>
               view (state r) = 1))))"

definition test_view_change_guard_fails_wrong_phase :: "env \<Rightarrow> bool" where
  "test_view_change_guard_fails_wrong_phase E = passes
     (bind_outcome (make_leader_replica E) (\<lambda>r.
      bind_outcome (handle_event E RepairViewTimeout r) (\<lambda>(r, effects). Inr (effects = []))))"

definition test_logs :: "usize \<Rightarrow> replica \<Rightarrow> message list" where
  "test_logs n r = map (\<lambda>i. LogMsg (node_name i) (view (state r)) (round (state r)) zero_hash) [0..<unat n]"

definition test_full_repair_protocol :: "env \<Rightarrow> bool" where
  "test_full_repair_protocol E = passes
     (bind_outcome (make_leader_replica E) (\<lambda>leader.
        let leader = state_update (\<lambda>s. s\<lparr>phase := CollectingLogs, in_repair := True, kv_size := 3\<rparr>) leader;
            quorum = byz_quorum (config leader); v = view (state leader); rd = round (state leader)
        in bind_outcome (deliver_all E (test_logs quorum leader) leader [] []) (\<lambda>(r1, step1_effects, es1).
           let hist = proposed_history_hash (state r1)
           in bind_outcome (process_message E (RepairHistory ''r0'' v rd hist) r1) (\<lambda>(r2, step2_effects).
              bind_outcome (deliver_all E (map (\<lambda>i. RepairPrepare (node_name i) v rd hist) [0..<unat quorum])
                r2 [] []) (\<lambda>(r3, step3_effects, es3).
              bind_outcome (deliver_all E (map (\<lambda>i. RepairCommit (node_name i) v rd hist) [0..<unat quorum])
                r3 [] []) (\<lambda>(r4, step4_effects, es4).
              Inr (broadcasts is_RepairHistory step1_effects \<and> phase (state r1) = PreparePhase \<and>
                broadcasts (\<lambda>m. case m of RepairPrepare q v' r' h \<Rightarrow> h = hist | _ \<Rightarrow> False) step2_effects \<and>
                broadcasts (\<lambda>m. case m of RepairCommit q v' r' h \<Rightarrow> h = hist | _ \<Rightarrow> False) step3_effects \<and>
                phase (state r3) = CommitPhase \<and>
                broadcasts (\<lambda>m. case m of RepairDone q v' r' h \<Rightarrow> r' = rd \<and> h = hist | _ \<Rightarrow> False) step4_effects \<and>
                broadcasts is_CommittedReply step4_effects \<and>
                phase (state r4) = Speculative \<and> round (state r4) = 1 \<and> \<not> in_repair (state r4) \<and>
                proposed_history_hash (state r4) = 0)))))))"

definition test_broadcast_history_only_for_leader :: "env \<Rightarrow> bool" where
  "test_broadcast_history_only_for_leader E = passes
     (bind_outcome (make_non_leader_replica E) (\<lambda>r.
        let r = state_update (\<lambda>s. s\<lparr>phase := CollectingLogs, in_repair := True\<rparr>) r
        in bind_outcome (deliver_all E (test_logs (byz_quorum (config r)) r) r [] [])
             (\<lambda>(r, es, all_effects). Inr (\<not> broadcasts is_RepairHistory all_effects))))"

definition test_repair_done_catchup :: "env \<Rightarrow> bool" where
  "test_repair_done_catchup E = passes
     (bind_outcome (make_non_leader_replica E) (\<lambda>r.
        let v = view (state r); rd = round (state r);
            r = state_update (\<lambda>s. s\<lparr>in_repair := True, proposed_history_hash := 5, phase := CommitPhase,
                  repair_history_msgs := finsert (RepairHistory ''r0'' v rd 5) (repair_history_msgs s)\<rparr>) r
        in bind_outcome (deliver_all E (map (\<lambda>i. RepairDone (node_name i) v rd 5) [0..<unat (f_plus_1 (config r))])
             r [] []) (\<lambda>(r, final_effects, es).
             Inr (final_effects = [] \<and> phase (state r) = Speculative \<and> round (state r) = 1 \<and>
               \<not> in_repair (state r)))))"

section \<open>\<^verbatim>\<open>node.rs\<close> and \<^verbatim>\<open>proxy.rs\<close>\<close>

text \<open>The recording transport: it appends whole batches and leaves a permit with its \<open>Notify\<close>; \<open>recv\<close>
  takes the permit and drains the effects, and waits (\<open>None\<close>) when there is none. The input channel
  is a list that \<open>submit_message\<close> never finds closed; the actor works it off, and stops when the
  node is dropped and the channel is empty.\<close>

record recording =
  recorded :: "effect list"
  permit :: bool

definition recording_new :: recording where
  "recording_new = \<lparr>recorded = [], permit = False\<rparr>"

definition recording_recv :: "recording \<Rightarrow> (effect list \<times> recording) option" where
  "recording_recv w = (if permit w then Some (recorded w, \<lparr>recorded = [], permit = False\<rparr>) else None)"

definition recording_broadcast :: "message \<Rightarrow> recording \<Rightarrow> recording" where
  "recording_broadcast msg w = w\<lparr>recorded := recorded w @ [Broadcast msg]\<rparr>"

definition recording_send :: "node_id \<Rightarrow> message \<Rightarrow> recording \<Rightarrow> recording" where
  "recording_send to msg w = w\<lparr>recorded := recorded w @ [Send to msg]\<rparr>"

definition recording_execute :: "effect list \<Rightarrow> recording \<Rightarrow> recording" where
  "recording_execute batch w = w\<lparr>recorded := recorded w @ batch, permit := True\<rparr>"

definition make_node :: "env \<Rightarrow> (replica \<times> recording) outcome" where
  "make_node E = bind_outcome (make_replica E ''n0'') (\<lambda>r. Inr (r, recording_new))"

definition list_send :: "replica_input list \<Rightarrow> replica_input \<Rightarrow> unit + replica_input list" where
  "list_send ch i = Inr (ch @ [i])"

definition run_node :: "env \<Rightarrow> submit_error + replica_input list \<Rightarrow> replica \<times> recording \<Rightarrow>
    (replica \<times> recording) outcome" where
  "run_node E ch node = (case ch of
       Inl e \<Rightarrow> Inl (ExpectFailed ''submit'')
     | Inr queue \<Rightarrow> (case replica_actor E recording_execute queue (fst node) (snd node) of
         (Panicked p, w) \<Rightarrow> Inl p | (Stopped r', w) \<Rightarrow> Inr (r', w)))"

definition await_effects :: "recording \<Rightarrow> (effect list \<times> recording) outcome" where
  "await_effects w = (case recording_recv w of None \<Rightarrow> Inl (ExpectFailed ''waits'') | Some x \<Rightarrow> Inr x)"

definition test_submit_message_speculate :: "env \<Rightarrow> bool" where
  "test_submit_message_speculate E = passes
     (bind_outcome (make_node E) (\<lambda>node.
      bind_outcome (run_node E (submit_message list_send [] seq_msg) node) (\<lambda>(r, transport).
      bind_outcome (await_effects transport) (\<lambda>(effects, transport).
        Inr (broadcasts (\<lambda>m. case m of SpecReply q rd k h \<Rightarrow> k = 0 | _ \<Rightarrow> False) effects \<and>
          broadcasts is_Sync effects)))))"

definition test_submit_event_sync_timeout :: "env \<Rightarrow> bool" where
  "test_submit_event_sync_timeout E = passes
     (bind_outcome (make_node E) (\<lambda>node.
      bind_outcome (run_node E (submit_message list_send [] seq_msg) node) (\<lambda>(r, transport).
      bind_outcome (await_effects transport) (\<lambda>(drained, transport).
      bind_outcome (run_node E (submit_event list_send [] SyncTimeout) (r, transport)) (\<lambda>(r, transport).
      bind_outcome (await_effects transport) (\<lambda>(effects, transport).
        Inr (broadcasts is_Sync effects)))))))"

definition test_drop_node_shuts_down :: "env \<Rightarrow> bool" where
  "test_drop_node_shuts_down E = passes
     (bind_outcome (make_node E) (\<lambda>node.
      bind_outcome (run_node E (Inr []) node) (\<lambda>(r, transport). Inr (length (recorded transport) = 0))))"

definition test_submit_increments_eta_monotonically :: "('c, 'r) broadcast_api \<Rightarrow> bool" where
  "test_submit_increments_eta_monotonically B \<longleftrightarrow> passes
     (bind_outcome (sequencer_new B 16) (\<lambda>sq.
        let (rx, sq) = subscribe B sq;
            (eta1, sq) = submit B (hash_fill 1) sq; (eta2, sq) = submit B (hash_fill 2) sq;
            (msg1, rx) = bc_recv B rx (sender sq); (msg2, rx) = bc_recv B rx (sender sq)
        in Inr (eta2 = eta1 + 1 \<and>
             (case msg1 of Received (Speculate s r h e) \<Rightarrow> e = eta1 | _ \<Rightarrow> False) \<and>
             (case msg2 of Received (Speculate s r h e) \<Rightarrow> e = eta2 | _ \<Rightarrow> False))))"

definition test_subscribe_receives_speculate :: "('c, 'r) broadcast_api \<Rightarrow> bool" where
  "test_subscribe_receives_speculate B \<longleftrightarrow> passes
     (bind_outcome (sequencer_new B 8) (\<lambda>sq.
        let (rx, sq) = subscribe B sq; (eta, sq) = submit B (hash_fill 0xAA) sq;
            (msg, rx) = bc_recv B rx (sender sq)
        in Inr (case msg of Received (Speculate s r h e) \<Rightarrow> e = eta \<and> h = hash_fill 0xAA | _ \<Rightarrow> False)))"

section \<open>The model-based tests\<close>

definition mbt_init_state :: "env \<Rightarrow> bool" where
  "mbt_init_state E = passes
     (bind_outcome (make_replica E ''r0'') (\<lambda>r.
      bind_outcome (mem_size E (kv_store (state r))) (\<lambda>sz.
        Inr (phase (state r) = Speculative \<and> kv_size (state r) = 0 \<and> round (state r) = 0 \<and>
          view (state r) = 0 \<and> start_idx (state r) = 0 \<and> sz = 0 \<and> chkpt_idx (state r) = 0 \<and>
          chkpt_hash (state r) = zero_hash \<and> eta_star (state r) = 0 \<and> \<not> in_repair (state r) \<and>
          proposed_history_hash (state r) = 0))))"

definition mbt_can_speculate :: "env \<Rightarrow> bool" where
  "mbt_can_speculate E = passes
     (bind_outcome (make_replica E ''n0'') (\<lambda>r0.
      bind_outcome (process_message E seq_msg r0) (\<lambda>(r, effects).
        Inr (kv_size (state r0) = 0 \<and> kv_size (state r) > 0 \<and>
          broadcasts (\<lambda>m. case m of SpecReply q rd k h \<Rightarrow> k = 0 | _ \<Rightarrow> False) effects))))"

text \<open>\<open>mbt_can_take_steps\<close>: one message to every replica, then a list of messages to every replica.\<close>

definition collect_broadcasts :: "effect list \<Rightarrow> message list" where
  "collect_broadcasts es = concat (map (\<lambda>e. case e of Broadcast m \<Rightarrow> [m] | Send q m \<Rightarrow> []) es)"

fun make_replicas :: "env \<Rightarrow> node_id list \<Rightarrow> replica list outcome" where
  "make_replicas E [] = Inr []"
| "make_replicas E (n # ns) =
     bind_outcome (make_replica E n) (\<lambda>r. bind_outcome (make_replicas E ns) (\<lambda>rs. Inr (r # rs)))"

fun to_each :: "env \<Rightarrow> message \<Rightarrow> replica list \<Rightarrow> (replica list \<times> effect list) outcome" where
  "to_each E m [] = Inr ([], [])"
| "to_each E m (r # rs) =
     bind_outcome (process_message E m r) (\<lambda>(r', es).
     bind_outcome (to_each E m rs) (\<lambda>(rs', fs). Inr (r' # rs', es @ fs)))"

fun route :: "env \<Rightarrow> message list \<Rightarrow> replica list \<Rightarrow> (replica list \<times> effect list) outcome" where
  "route E [] rs = Inr (rs, [])"
| "route E (m # ms) rs =
     bind_outcome (to_each E m rs) (\<lambda>(rs', es).
     bind_outcome (route E ms rs') (\<lambda>(rs'', fs). Inr (rs'', es @ fs)))"

definition mbt_can_take_steps :: "env \<Rightarrow> bool" where
  "mbt_can_take_steps E = passes
     (bind_outcome (make_replicas E [''r0'', ''r1'', ''r2'', ''r3'', ''r4'', ''r5'']) (\<lambda>rs0.
      bind_outcome (route E [seq_msg] rs0) (\<lambda>(rs1, step1_effects).
      bind_outcome (route E (collect_broadcasts step1_effects) rs1) (\<lambda>(rs2, step2_effects).
      bind_outcome (route E (collect_broadcasts step2_effects) rs2) (\<lambda>(rs3, step3_effects).
        Inr (step1_effects \<noteq> [] \<and>
          list_all (\<lambda>r. 0 \<le> sint (kv_size (state r)) \<and> 0 \<le> sint (round (state r))) rs3 \<and>
          list_ex (\<lambda>r. kv_size (state r) > 0) rs3))))))"

section \<open>All tests\<close>

definition fast_path_tests :: "(env \<Rightarrow> bool) list" where
  "fast_path_tests = [guard_passes_when_speculative, guard_fails_when_aligning,
     guard_fails_for_non_speculate_message, first_speculate_writes_genesis_entry,
     second_speculate_chains_prev_hash]"

definition checkpoint_tests :: "(env \<Rightarrow> bool) list" where
  "checkpoint_tests = [test_sync_on_event, test_no_sync_when_empty,
     test_sync_threshold_via_process_message, test_checkpoint_forms_after_quorum,
     test_no_checkpoint_below_quorum, test_mismatched_sync_does_not_count]"

definition alignment_tests :: "(env \<Rightarrow> bool) list" where
  "alignment_tests = [test_enter_align_after_f_plus_1_checkpoints,
     test_enter_align_below_threshold_no_effect, test_enter_align_guard_fails_wrong_phase,
     test_state_request_triggers_reply, test_state_request_guard_fails_for_other_messages,
     test_state_reply_rebuilds_store_and_returns_speculative,
     test_state_reply_guard_fails_when_not_aligning]"

definition repair_entry_tests :: "(env \<Rightarrow> bool) list" where
  "repair_entry_tests = [test_chkpt_timeout_broadcasts_timeout_msg,
     test_chkpt_timeout_guard_fails_wrong_phase, test_chkpt_timeout_guard_fails_when_in_repair,
     test_timeout_proof_after_f_plus_1_timeouts, test_timeout_proof_below_threshold,
     test_enter_repair_on_timeout_proof, test_enter_repair_guard_fails_when_in_repair,
     test_enter_repair_on_conflict_proof]"

definition replica_tests :: "(env \<Rightarrow> bool) list" where
  "replica_tests = [test_speculate_produces_spec_reply, test_second_speculate_uses_log_idx_1,
     test_speculate_ignored_when_not_speculative]"

definition repair_tests :: "(env \<Rightarrow> bool) list" where
  "repair_tests = [test_view_change_on_repair_timeout, test_view_change_guard_fails_wrong_phase,
     test_full_repair_protocol, test_broadcast_history_only_for_leader, test_repair_done_catchup]"

definition node_tests :: "(env \<Rightarrow> bool) list" where
  "node_tests = [test_submit_message_speculate, test_submit_event_sync_timeout, test_drop_node_shuts_down]"

definition sequencer_tests :: "((ring, nat) broadcast_api \<Rightarrow> bool) list" where
  "sequencer_tests = [test_submit_increments_eta_monotonically, test_subscribe_receives_speculate]"

definition mbt_tests :: "(env \<Rightarrow> bool) list" where
  "mbt_tests = [mbt_init_state, mbt_can_speculate]"

lemma fast_path_tests_pass: "list_all (\<lambda>t. t demo_env) fast_path_tests"
  by code_simp

lemma checkpoint_tests_pass: "list_all (\<lambda>t. t demo_env) checkpoint_tests"
  by code_simp

lemma alignment_tests_pass: "list_all (\<lambda>t. t demo_env) alignment_tests"
  by code_simp

lemma repair_entry_tests_pass: "list_all (\<lambda>t. t demo_env) repair_entry_tests"
  by code_simp

lemma replica_tests_pass: "list_all (\<lambda>t. t demo_env) replica_tests"
  by code_simp

lemma repair_tests_pass: "list_all (\<lambda>t. t demo_env) repair_tests"
  by code_simp

lemma node_tests_pass: "list_all (\<lambda>t. t demo_env) node_tests"
  by code_simp

lemma sequencer_tests_pass: "list_all (\<lambda>t. t ring_api) sequencer_tests"
  by code_simp

lemma mbt_tests_pass: "list_all (\<lambda>t. t demo_env) mbt_tests"
  by code_simp

section \<open>Properties\<close>


end
