(* ===== verification/Dispatch.thy ===== *)
theory Dispatch
  imports Invariants
begin

text \<open>
  What the dispatcher adds to its handlers: when a call returns at all, how far one message can
  move the round, and a whole run of the fast path.
\<close>

section \<open>When the dispatcher returns\<close>

lemma run_steps_total:
  "(\<And>f s. f \<in> set fs \<Longrightarrow> \<exists>w. f s = Inr w) \<Longrightarrow> \<exists>w. run_steps fs s = Inr w"
proof (induction fs arbitrary: s)
  case Nil
  then show ?case by simp
next
  case (Cons f fs)
  obtain s1 es1 where "f s = Inr (s1, es1)" using Cons.prems [of f s] by auto
  moreover obtain s2 es2 where "run_steps fs s1 = Inr (s2, es2)"
    using Cons.IH [of s1] Cons.prems by auto
  ultimately show ?case by simp
qed

text \<open>The conditions under which a message cannot make an overflow check fail.\<close>

definition in_range :: "message \<Rightarrow> replica_state \<Rightarrow> bool" where
  "in_range m s \<longleftrightarrow> round s \<noteq> - 1 \<and>
     (is_Speculate m \<longrightarrow> phase s = Speculative \<longrightarrow> kv_size s \<noteq> - 1) \<and>
     (case m of StateReply q k h \<Rightarrow> k \<noteq> - 1 | _ \<Rightarrow> True)"

definition early_steps :: "env \<Rightarrow> message \<Rightarrow> step list" where
  "early_steps E m = tl (take 12 (message_steps E m))"

lemma message_steps_split:
  "message_steps E m = (\<lambda>r. when_some (can_speculate r m) (handle_speculate E r) r) #
     early_steps E m @ [\<lambda>r. on_receive_repair_commit E r m, \<lambda>r. on_receive_repair_done E r m]"
  by (simp add: message_steps_def early_steps_def)

lemma process_message_split:
  "process_message E m r =
     bind_outcome (when_some (can_speculate r m) (handle_speculate E r) r) (\<lambda>(r1, es1).
     bind_outcome (run_steps (early_steps E m) r1) (\<lambda>(r2, es2).
     bind_outcome (on_receive_repair_commit E r2 m) (\<lambda>(r3, es3).
     bind_outcome (on_receive_repair_done E r3 m) (\<lambda>(r4, es4).
       Inr (r4, es1 @ es2 @ es3 @ es4)))))"
  unfolding process_message_def message_steps_split
  by (simp add: run_steps_append bind_outcome_def split: sum.splits prod.splits)

lemma early_step_total:
  assumes "f \<in> set (early_steps E m)" and "case m of StateReply q k h \<Rightarrow> k \<noteq> - 1 | _ \<Rightarrow> True"
  shows "\<exists>w. f r = Inr w"
proof -
  have "\<exists>w. when_some (can_state_reply r m) (handle_state_reply E r) r = Inr w"
    using assms(2) can_state_reply_phase [of r m] handle_state_reply_ok [of _ E r]
    by (cases "can_state_reply r m") fastforce+
  with assms(1) show ?thesis
    by (auto simp: early_steps_def message_steps_def when_some_def split: option.splits)
qed

lemma early_step_round:
  "f \<in> set (early_steps E m) \<Longrightarrow> f r = Inr (r', es) \<Longrightarrow> round (state r') = round (state r)"
  by (auto simp: early_steps_def message_steps_def receive_defs step_simps
      elim!: when_some_Inr_cases split: option.splits)

lemma early_round: "run_steps (early_steps E m) r = Inr (r', es) \<Longrightarrow> round (state r') = round (state r)"
proof -
  have "step_contract (\<lambda>r r' es. round (state r') = round (state r)) (early_steps E m)"
    by unfold_locales (auto dest: early_step_round)
  then show "run_steps (early_steps E m) r = Inr (r', es) \<Longrightarrow> ?thesis"
    by (rule step_contract.run_ok)
qed

lemma handle_speculate_round: "handle_speculate E r k = Inr (r', es) \<Longrightarrow>
    round (state r') = round (state r)"
  by (auto simp: handle_speculate_def Let_def bind_outcome_Inr_iff)

lemma speculate_step_round: "when_some (can_speculate r m) (handle_speculate E r) r = Inr (r', es) \<Longrightarrow>
    round (state r') = round (state r)"
  by (auto elim!: when_some_Inr_cases dest: handle_speculate_round)

lemma handle_speculate_total:
  assumes "encode_total E" and "mem_ok (kv_store (state r))" and "kv_size (state r) \<noteq> - 1"
  shows "\<exists>w. handle_speculate E r k = Inr w"
proof -
  obtain store where st: "mem_put (kv_store (state r)) k (next_entry E (kv_store (state r)) k) = Inr store"
    "mem_ok store"
    "mem_lookup store = (mem_lookup (kv_store (state r)))(k \<mapsto> next_entry E (kv_store (state r)) k)"
    using mem.put_any [OF assms(2)] by blast
  have "mem_hash_at E store k = entry_hash E (next_entry E (kv_store (state r)) k)"
    using st by (intro mem.hash_at_Some) auto
  moreover obtain h where "entry_hash E (next_entry E (kv_store (state r)) k) = Inr h"
    using entry_hash_total [OF assms(1)] by blast
  ultimately show ?thesis
    using assms(3) by (simp add: handle_speculate_def Let_def st(1) add_u64_one_ok)
qed

lemma store_late_simps [simp]:
  "round (state (store_commit r m)) = round (state r)"
  "phase (state (store_commit r m)) = phase (state r)"
  "round (state (store_done r m)) = round (state r)"
  "phase (state (store_done r m)) = phase (state r)"
  by (simp_all add: store_commit_def store_done_def)

text \<open>After the commit step the round has moved by at most one, and if it moved the replica has
  left REPAIR, so the catch-up step does not fire.\<close>

lemma commit_step_round:
  assumes "on_receive_repair_commit E r m = Inr (r', es)"
  shows "round (state r') = round (state r) \<or>
    round (state r') = round (state r) + 1 \<and> phase (state r') = Speculative"
  using assms
  by (auto simp: on_receive_repair_commit_def handler_defs Let_def bind_outcome_Inr_iff
      dest!: add_u64_Inr split: option.splits)

lemma commit_step_total: "round (state r) \<noteq> - 1 \<Longrightarrow> \<exists>w. on_receive_repair_commit E r m = Inr w"
  by (auto simp: on_receive_repair_commit_def handle_apply_repair_def Let_def
      mem_rebuild_from_entries_def add_u64_one_ok split: option.splits)

lemma done_step_speculative:
  "phase (state r) = Speculative \<Longrightarrow> on_receive_repair_done E r m = Inr (store_done r m, [])"
  by (simp add: on_receive_repair_done_def Let_def can_repair_done_catchup_def)

lemma done_step_round:
  "on_receive_repair_done E r m = Inr (r', es) \<Longrightarrow>
     round (state r') = round (state r) \<or> round (state r') = round (state r) + 1"
  by (auto simp: on_receive_repair_done_def handler_defs Let_def bind_outcome_Inr_iff
      dest!: add_u64_Inr split: option.splits)

lemma done_step_total: "round (state r) \<noteq> - 1 \<Longrightarrow> \<exists>w. on_receive_repair_done E r m = Inr w"
  by (auto simp: on_receive_repair_done_def handle_repair_done_catchup_def Let_def add_u64_one_ok
      split: option.splits)

lemma process_message_round_step:
  assumes "process_message E m r = Inr (r', es)"
  shows "round (state r') = round (state r) \<or> round (state r') = round (state r) + 1"
proof -
  obtain r1 es1 r2 es2 r3 es3 es4 where
    steps: "when_some (can_speculate r m) (handle_speculate E r) r = Inr (r1, es1)"
      "run_steps (early_steps E m) r1 = Inr (r2, es2)"
      "on_receive_repair_commit E r2 m = Inr (r3, es3)"
      "on_receive_repair_done E r3 m = Inr (r', es4)"
    using assms by (auto simp: process_message_split bind_outcome_Inr_iff)
  have same: "round (state r2) = round (state r)"
    using speculate_step_round [OF steps(1)] early_round [OF steps(2)] by simp
  from commit_step_round [OF steps(3)] show ?thesis
  proof
    assume "round (state r3) = round (state r2)"
    then show ?thesis using same done_step_round [OF steps(4)] by simp
  next
    assume "round (state r3) = round (state r2) + 1 \<and> phase (state r3) = Speculative"
    then show ?thesis using same done_step_speculative [of r3 E m] steps(4) by auto
  qed
qed

lemma process_message_total:
  assumes "encode_total E" and "mem_ok (kv_store (state r))" and "in_range m (state r)"
  shows "\<exists>r' es. process_message E m r = Inr (r', es)"
proof -
  obtain r1 es1 where s1: "when_some (can_speculate r m) (handle_speculate E r) r = Inr (r1, es1)"
    using handle_speculate_total [OF assms(1,2)] assms(3) can_speculate_phase [of r m]
    by (cases "can_speculate r m") (fastforce simp: in_range_def)+
  have "\<exists>w. run_steps (early_steps E m) r1 = Inr w"
    using assms(3) by (intro run_steps_total early_step_total) (auto simp: in_range_def)
  then obtain r2 es2 where s2: "run_steps (early_steps E m) r1 = Inr (r2, es2)" by auto
  have rd: "round (state r2) = round (state r)" and ne: "round (state r) \<noteq> - 1"
    using speculate_step_round [OF s1] early_round [OF s2] assms(3) by (auto simp: in_range_def)
  obtain r3 es3 where s3: "on_receive_repair_commit E r2 m = Inr (r3, es3)"
    using commit_step_total [of r2 E m] rd ne by auto
  have "\<exists>w. on_receive_repair_done E r3 m = Inr w"
    using commit_step_round [OF s3] done_step_total [of r3 E m] done_step_speculative [of r3 E m]
      rd ne by auto
  then show ?thesis using s1 s2 s3 by (auto simp: process_message_split)
qed

lemma handle_event_eq:
  "handle_event E ev r = bind_outcome (can_view_change E r ev) (\<lambda>g.
     let (r', es) = (case g of None \<Rightarrow> (r, []) | Some v \<Rightarrow> handle_view_change r v)
     in Inr (r', (case can_send_sync_on_event r ev of None \<Rightarrow> [] | Some k \<Rightarrow> handle_send_sync r k) @
                 (case can_chkpt_timeout r ev of None \<Rightarrow> [] | Some k \<Rightarrow> handle_chkpt_timeout r k) @ es))"
  by (simp add: handle_event_def event_steps_def when_some_def bind_outcome_def Let_def
      split: option.splits sum.splits prod.splits)

lemma handle_event_panic:
  "handle_event E ev r = Inl e \<longleftrightarrow>
     e = ArithmeticOverflow \<and> overflow_checks E \<and> ev = RepairViewTimeout \<and>
     phase (state r) = CollectingLogs \<and> view (state r) = - 1"
  by (auto simp: handle_event_eq can_view_change_def add_u64_one_eq Let_def bind_outcome_def
      split: prod.splits)

section \<open>The fast path\<close>

text \<open>A replica on the fast path: speculative, with no votes of others, thresholds positive.\<close>

definition quiet :: "replica \<Rightarrow> bool" where
  "quiet r \<longleftrightarrow> phase (state r) = Speculative \<and>
     sync_msgs (state r) = {||} \<and> chkpt_msgs (state r) = {||} \<and> timeout_msgs (state r) = {||} \<and>
     fast_quorum (config r) \<noteq> 0 \<and> byz_quorum (config r) \<noteq> 0 \<and> f_plus_1 (config r) \<noteq> 0"

lemma quiet_guards:
  assumes "quiet r"
  shows "can_form_checkpoint r = None" "can_enter_align r = None" "can_conflict_proof r = None"
    "can_timeout_proof r = None" "can_broadcast_history r = None" "can_repair_prepare E r = None"
    "can_repair_commit r = None" "can_apply_repair r = None" "can_repair_done_catchup r = None"
  using assms
  by (auto simp: quiet_def can_form_checkpoint_def can_enter_align_def can_conflict_proof_def
      can_timeout_proof_def can_broadcast_history_def can_repair_prepare_def can_repair_commit_def
      can_apply_repair_def can_repair_done_catchup_def Let_def unat_eq_0)

lemma quiet_speculate:
  assumes "quiet r" and "is_Speculate m" and "handle_speculate E r (kv_size (state r)) = Inr (r', es)"
    and "kv_size (state r') \<noteq> 0" and "chkpt_idx (state r') < kv_size (state r')"
  shows "process_message E m r = Inr (r', es @ handle_send_sync r' (kv_size (state r') - 1))"
proof -
  obtain a b c d where m: "m = Speculate a b c d" using assms(2) by (cases m) auto
  have q: "quiet r'"
    using assms(1,3) by (auto simp: quiet_def handle_speculate_def Let_def bind_outcome_Inr_iff)
  have "can_speculate r m = Some (kv_size (state r))"
    using assms(1) m by (simp add: can_speculate_def quiet_def)
  moreover have "can_send_sync_threshold r' = Some (kv_size (state r') - 1)"
    using q assms(4,5) by (simp add: can_send_sync_threshold_def quiet_def)
  moreover have "can_enter_repair r' m = None" "can_state_reply r' m = None" "can_state_request m = None"
    by (simp_all add: m can_enter_repair_def can_state_reply_def)
  ultimately show ?thesis
    using assms(3)
    by (simp add: process_message_def message_steps_def receive_defs store_defs m Let_def
        quiet_guards [OF q])
qed

text \<open>What an execution keeps true on the fast path.\<close>

definition fast_log :: "env \<Rightarrow> replica \<Rightarrow> bool" where
  "fast_log E r \<longleftrightarrow> quiet r \<and> log_ok (state r) \<and> chkpt_idx (state r) = 0 \<and>
     chained E (mem_lookup (kv_store (state r))) (kv_size (state r)) \<and>
     (\<forall>k < kv_size (state r). \<exists>e. mem_lookup (kv_store (state r)) k = Some e \<and> op_hash e = k)"

text \<open>The two effects of executing the entry at an index, read off the log \<open>L\<close>: the digest of the
  entry itself in the reply, that of the entry before it in the SYNC.\<close>

definition fast_effects :: "env \<Rightarrow> replica \<Rightarrow> (u64 \<Rightarrow> kv_entry option) \<Rightarrow> u64 \<Rightarrow> effect list" where
  "fast_effects E r L k =
     [Broadcast (SpecReply (node_id (state r)) (round (state r)) k (digest_at E L k)),
      Broadcast (Sync (node_id (state r)) (round (state r)) k
        (if k = 0 then zero_hash else digest_at E L (k - 1)) (eta_star (state r)))]"

lemma fast_log_step:
  assumes "encode_total E" and "fast_log E r" and "kv_size (state r) \<noteq> - 1" and "is_Speculate m"
  obtains r' e where
    "process_message E m r =
       Inr (r', fast_effects E r (mem_lookup (kv_store (state r'))) (kv_size (state r)))"
    and "fast_log E r'" and "kv_size (state r') = kv_size (state r) + 1"
    and "mem_lookup (kv_store (state r')) = (mem_lookup (kv_store (state r)))(kv_size (state r) \<mapsto> e)"
    and "fast_effects E r' = fast_effects E r"
proof -
  let ?k = "kv_size (state r)" and ?st = "kv_store (state r)"
  let ?e = "next_entry E ?st ?k"
  have q: "quiet r" and ok: "log_ok (state r)" using assms(2) by (simp_all add: fast_log_def)
  obtain store h where sp: "handle_speculate E r ?k =
       Inr (state_update (\<lambda>s. s\<lparr>kv_store := store, kv_size := ?k + 1\<rparr>) r,
            [Broadcast (SpecReply (node_id (state r)) (round (state r)) ?k h)])"
    and st: "mem_ok store" "log_shape (mem_lookup store) (?k + 1)"
    and look: "mem_lookup store = (mem_lookup ?st)(?k \<mapsto> ?e)" and h: "entry_hash E ?e = Inr h"
    by (rule handle_speculate_ok [OF assms(1) ok assms(3)])
  let ?r = "state_update (\<lambda>s. s\<lparr>kv_store := store, kv_size := ?k + 1\<rparr>) r"
  have pos: "?k + 1 \<noteq> 0" using assms(3) by (simp add: eq_neg_iff_add_eq_0)
  have "process_message E m r = Inr (?r,
      [Broadcast (SpecReply (node_id (state r)) (round (state r)) ?k h)] @
       handle_send_sync ?r (kv_size (state ?r) - 1))"
    by (rule quiet_speculate [OF q assms(4) sp]) (use pos assms(2) in \<open>auto simp: fast_log_def word_gt_0\<close>)
  moreover have "mem_top_hash store = prev_hash ?e"
  proof -
    obtain e where "mem_lookup store (?k + 1 - 1) = Some e" "mem_top_hash store = prev_hash e"
      by (rule mem.log_top [OF st]) (use pos in \<open>simp add: word_gt_0\<close>)
    then show ?thesis by (simp add: look)
  qed
  moreover have "h = digest_at E (mem_lookup store) ?k"
    using h by (simp add: look digest_at_def digest_of_def)
  moreover have "digest_at E (mem_lookup store) (?k - 1) = digest_at E (mem_lookup ?st) (?k - 1)"
    if "?k \<noteq> 0" using pred_less_u64 [OF that] by (auto simp: look digest_at_def)
  ultimately have run: "process_message E m r = Inr (?r, fast_effects E r (mem_lookup store) ?k)"
    by (auto simp: handle_send_sync_def fast_effects_def)
  have chain: "chained E (mem_lookup store) (?k + 1)"
    unfolding look using assms(2,3) by (intro chained_append) (auto simp: fast_log_def)
  have own: "\<forall>j < ?k + 1. \<exists>e. mem_lookup store j = Some e \<and> op_hash e = j"
    using assms(2) less_succ_u64 [OF assms(3)] by (auto simp: look fast_log_def le_less)
  have fast: "fast_log E ?r"
    using q st chain own assms(2) by (simp add: fast_log_def log_ok_def quiet_def)
  show ?thesis using that [of ?r ?e] run fast look by (simp add: fast_effects_def fun_eq_iff)
qed

lemma fast_log_fresh:
  assumes "fast_quorum cfg \<noteq> 0" and "byz_quorum cfg \<noteq> 0" and "f_plus_1 cfg \<noteq> 0"
  shows "fast_log E (fresh_replica cfg node)"
  using assms by (simp add: fast_log_def quiet_def fresh_replica_def initial_state_def log_ok_def)

lemma fast_effects_same:
  "(\<And>j. j \<le> k \<Longrightarrow> L j = L' j) \<Longrightarrow> fast_effects E r L k = fast_effects E r L' k"
  using pred_less_u64 [of k] by (auto simp: fast_effects_def digest_at_def)

lemma upt_u64_Cons: "unat (k :: u64) < n \<Longrightarrow>
    map of_nat [unat k..<n] = k # map of_nat [Suc (unat k)..<n]"
  by (simp add: upt_conv_Cons)

lemma fast_log_run:
  assumes "encode_total E" and "fast_log E r" and "\<forall>m \<in> set ms. is_Speculate m"
    and "unat (kv_size (state r)) + length ms < 2 ^ 64"
  shows "\<exists>r'. replica_run E (map InMessage ms) r = Inr (r',
      concat (map (fast_effects E r (mem_lookup (kv_store (state r'))))
        (map of_nat [unat (kv_size (state r))..<unat (kv_size (state r)) + length ms]))) \<and>
    fast_log E r' \<and> unat (kv_size (state r')) = unat (kv_size (state r)) + length ms \<and>
    (\<forall>k < kv_size (state r).
       mem_lookup (kv_store (state r')) k = mem_lookup (kv_store (state r)) k)"
  using assms(2-4)
proof (induction ms arbitrary: r)
  case Nil
  then show ?case by (simp add: replica_run_def)
next
  case (Cons m ms)
  let ?k = "kv_size (state r)"
  have ne: "?k \<noteq> - 1" using Cons.prems(3) unat_u64_max by auto
  obtain r1 e where s1: "process_message E m r =
      Inr (r1, fast_effects E r (mem_lookup (kv_store (state r1))) ?k)"
    and f1: "fast_log E r1" and k1: "kv_size (state r1) = ?k + 1"
    and l1: "mem_lookup (kv_store (state r1)) = (mem_lookup (kv_store (state r)))(?k \<mapsto> e)"
    and e1: "fast_effects E r1 = fast_effects E r"
    using Cons.prems(2) by (auto intro: fast_log_step [OF assms(1) Cons.prems(1) ne, of m])
  have k1n: "unat (kv_size (state r1)) = Suc (unat ?k)"
    using k1 unat_succ_u64 [OF ne] by simp
  obtain r' where r': "replica_run E (map InMessage ms) r1 = Inr (r',
      concat (map (fast_effects E r (mem_lookup (kv_store (state r'))))
        (map of_nat [Suc (unat ?k)..<Suc (unat ?k) + length ms])))"
    "fast_log E r'" "unat (kv_size (state r')) = Suc (unat ?k) + length ms"
    and keep: "\<forall>j < kv_size (state r1).
       mem_lookup (kv_store (state r')) j = mem_lookup (kv_store (state r1)) j"
    using Cons.IH [OF f1] Cons.prems(2,3) k1n e1 by auto
  have below: "mem_lookup (kv_store (state r')) j = mem_lookup (kv_store (state r1)) j" if "j \<le> ?k" for j
    using keep that k1 less_succ_u64 [OF ne] by simp
  have "fast_effects E r (mem_lookup (kv_store (state r1))) ?k =
      fast_effects E r (mem_lookup (kv_store (state r'))) ?k"
    using below by (intro fast_effects_same) simp
  moreover have "\<forall>j < ?k. mem_lookup (kv_store (state r')) j = mem_lookup (kv_store (state r)) j"
    using below l1 by (auto simp: less_le)
  ultimately show ?case using r' s1
    by (intro exI [of _ r']) (simp add: replica_run_def upt_u64_Cons del: upt_Suc map_map)
qed

section \<open>Proofs\<close>

text \<open>What the steps before entry into REPAIR do to a replica that handles a proof: they keep its
  name, view, round and store, and one that enters REPAIR broadcasts the log summary.\<close>

definition logs_entry :: "replica \<Rightarrow> replica \<Rightarrow> effect list \<Rightarrow> bool" where
  "logs_entry r r' es \<longleftrightarrow> own_log_msg r' = own_log_msg r \<and>
     (in_repair (state r') \<longrightarrow> in_repair (state r) \<or> Broadcast (own_log_msg r) \<in> set es)"

lemma logs_entry_refl [simp]: "logs_entry r r []"
  by (simp add: logs_entry_def)

lemma logs_entry_seq: "logs_entry r s es \<Longrightarrow> logs_entry s t fs \<Longrightarrow> logs_entry r t (es @ fs)"
  by (auto simp: logs_entry_def)

lemma proof_step_logs:
  assumes "is_TimeoutProof m \<or> is_ConflictProof m" and "f \<in> set (take 6 (message_steps E m))"
    and "f r = Inr (r', es)"
  shows "logs_entry r r' es"
  using assms
  by (cases m)
     (auto simp: message_steps_def can_speculate_def receive_defs store_defs Let_def logs_entry_def
        handler_defs elim!: when_some_Inr_cases split: option.splits)

lemma message_steps_at_entry:
  "message_steps E m = take 6 (message_steps E m) @
     (\<lambda>r. when_some (can_enter_repair r m) (\<lambda>rd. Inr (handle_enter_repair r rd)) r) #
     drop 7 (message_steps E m)"
  by (simp add: message_steps_def)

section \<open>Properties\<close>

text \<open>Timer events. A SYNC timeout makes a speculative replica with a non-empty log broadcast
  the SYNC for its top index and changes nothing; a checkpoint timeout makes a speculative
  replica outside REPAIR broadcast a TIMEOUT for the index of the event and changes nothing; a
  view timeout makes a replica that collects logs move to the next view and broadcast its log
  summary there, carrying no prepare certificate, and does nothing in the other phases.\<close>

theorem handle_event_effect:
  assumes "view (state r) \<noteq> - 1"
  shows "handle_event E SyncTimeout r = Inr (r,
      if phase (state r) = Speculative \<and> kv_size (state r) \<noteq> 0
      then [Broadcast (Sync (node_id (state r)) (round (state r)) (kv_size (state r) - 1)
              (mem_top_hash (kv_store (state r))) (eta_star (state r)))] else []) \<and>
    handle_event E (ChkptTimeout k) r = Inr (r,
      if phase (state r) = Speculative \<and> \<not> in_repair (state r)
      then [Broadcast (TimeoutMsg (node_id (state r)) (round (state r)) k)] else []) \<and>
    handle_event E RepairViewTimeout r = Inr (
      if phase (state r) = CollectingLogs
      then (state_update (view_update (\<lambda>v. v + 1)) r,
            [Broadcast (LogMsg (node_id (state r)) (view (state r) + 1) (round (state r))
               (mem_top_hash (kv_store (state r))))])
      else (r, []))"
  using assms
  by (simp add: handle_event_eq can_view_change_def can_send_sync_on_event_def can_chkpt_timeout_def
      handle_send_sync_def handle_chkpt_timeout_def handle_view_change_def add_u64_one_ok)

lemma handle_event_effect_witness:
  "handle_event demo_env (ChkptTimeout 5) (fresh_replica six_config ''r0'') =
     Inr (fresh_replica six_config ''r0'', [Broadcast (TimeoutMsg ''r0'' 0 5)])"
  using handle_event_effect [of "fresh_replica six_config ''r0''" demo_env 5]
  by (simp add: fresh_replica_def initial_state_def)

text \<open>The operation is not executed. \<open>process_message\<close> treats any two SPECULATEs alike: the log
  entry, the reply and the SYNC depend neither on the operation's hash nor on its sequence
  number, round or sequencer.\<close>

theorem speculate_ignores_operation:
  "process_message E (Speculate s rd h e) r = process_message E (Speculate s' rd' h' e') r"
proof -
  have "can_enter_repair r (Speculate s rd h e) = None" "can_state_reply r (Speculate s rd h e) = None"
    for r s rd h e
    by (simp_all add: can_enter_repair_def can_state_reply_def)
  then have "message_steps E (Speculate s rd h e) = message_steps E (Speculate s' rd' h' e')"
    by (simp add: message_steps_def can_speculate_def receive_defs store_defs)
  then show ?thesis by (simp add: process_message_def)
qed

text \<open>A commit quorum completes the repair. When a REPAIR-COMMIT gives a replica in the commit
  phase its Byzantine quorum, \<open>process_message\<close> returns with the replica speculative, out of
  REPAIR, in the next round, with a log of the committed size, all of it synthetic unless the size
  is 0, and its only effects are the REPAIR-DONE and the COMMITTED-REPLY.\<close>

theorem commit_quorum_completes:
  assumes "phase (state r) = CommitPhase" and "in_repair (state r)" and "round (state r) \<noteq> - 1"
    and "m = RepairCommit q (view (state r)) (round (state r)) (proposed_history_hash (state r))"
    and "unat (byz_quorum (config r)) \<le> card {s. RepairCommit s (view (state r)) (round (state r))
           (proposed_history_hash (state r)) |\<in>| finsert m (repair_commit_msgs (state r))}"
  shows "\<exists>r'. process_message E m r = Inr (r',
      [Broadcast (RepairDone (node_id (state r)) (view (state r)) (round (state r))
         (proposed_history_hash (state r))),
       Broadcast (CommittedReply (node_id (state r)) (round (state r)) (kv_size (state r)))]) \<and>
    phase (state r') = Speculative \<and> \<not> in_repair (state r') \<and>
    round (state r') = round (state r) + 1 \<and> kv_size (state r') = proposed_history_hash (state r) \<and>
    (proposed_history_hash (state r) \<noteq> 0 \<longrightarrow> synthetic_log (proposed_history_hash (state r)) (kv_store (state r')))"
proof -
  let ?h = "proposed_history_hash (state r)"
  have pat: "commit_matches v rd h x \<longleftrightarrow> (\<exists>s. x = RepairCommit s v rd h)" for v rd h x
    by (cases x) auto
  have "senders (commit_matches v rd h) S = {s. RepairCommit s v rd h |\<in>| S}" for v rd h S
    by (auto simp: senders_Collect pat)
  then have fires: "can_apply_repair (store_commit r m) = Some ?h"
    using assms(1,4,5) one_per_sender_patterns(3)
    by (simp add: can_apply_repair_def store_commit_def Let_def count_eq_senders)
  have "when_some (can_speculate r m) (handle_speculate E r) r = Inr (r, [])"
    using assms(1) by (simp add: can_speculate_def)
  moreover have "run_steps (early_steps E m) r = Inr (r, [])"
    using assms(1,2,4)
    by (simp add: early_steps_def message_steps_def receive_defs store_defs Let_def
        can_send_sync_threshold_def can_form_checkpoint_def can_enter_align_def can_conflict_proof_def
        can_timeout_proof_def can_enter_repair_def can_state_reply_def can_broadcast_history_def
        can_repair_prepare_def can_repair_commit_def)
  moreover have "\<exists>r'. on_receive_repair_commit E r m = Inr (r',
      [Broadcast (RepairDone (node_id (state r)) (view (state r)) (round (state r)) ?h),
       Broadcast (CommittedReply (node_id (state r)) (round (state r)) (kv_size (state r)))]) \<and>
    phase (state r') = Speculative \<and> \<not> in_repair (state r') \<and>
    round (state r') = round (state r) + 1 \<and> kv_size (state r') = ?h \<and>
    (?h \<noteq> 0 \<longrightarrow> synthetic_log ?h (kv_store (state r')))"
  proof -
    let ?es = "map (\<lambda>k. (k, synthetic_entry k)) (map of_nat [0..<unat ?h])"
    obtain s where s: "mem_rebuild_from_entries (kv_store (state r)) ?es = Inr s"
      by (simp add: mem_rebuild_from_entries_def)
    then show ?thesis
      using fires assms(3,4) rebuild_synthetic [OF s]
      by (simp add: on_receive_repair_commit_def handle_apply_repair_def add_u64_one_ok Let_def word_gt_0
          store_commit_def)
  qed
  ultimately show ?thesis
    using done_step_speculative [of _ E m]
    by (fastforce simp: process_message_split store_done_def assms(4))
qed

lemma commit_quorum_completes_witness:
  "\<exists>r' es. process_message demo_env (RepairCommit ''r4'' 0 0 5) demo_commit_replica = Inr (r', es) \<and>
     round (state r') = 1"
proof -
  have "finsert (RepairCommit ''r4'' 0 0 5) (repair_commit_msgs (state demo_commit_replica)) =
      fset_of_list (map (\<lambda>i. RepairCommit (node_name i) 0 0 5) [0..<5])" by code_simp
  moreover have "{s. RepairCommit s 0 0 5 |\<in>| fset_of_list (map (\<lambda>i. RepairCommit (node_name i) 0 0 5) [0..<5])}
      = set (map node_name [0..<5])"
    by (auto simp: fset_of_list.rep_eq)
  moreover have "card (set (map node_name [0..<5])) = 5"
    by (simp only: distinct_card distinct_node_names distinct_upt length_map length_upt)
  ultimately show ?thesis
    using commit_quorum_completes [of demo_commit_replica "RepairCommit ''r4'' 0 0 5" "''r4''" demo_env]
    by (auto simp: demo_commit_replica_def fresh_replica_def initial_state_def six_config_def)
qed

text \<open>Any proof starts a repair. Whenever a replica that is not in REPAIR handles a
  TIMEOUT-PROOF or CONFLICT-PROOF, in any phase and whatever round and index the proof names, it
  broadcasts its log summary for its own view and round.\<close>

theorem proof_broadcasts_log:
  assumes "\<not> in_repair (state r)" and "m = TimeoutProof rd k \<or> m = ConflictProof rd k"
    and "process_message E m r = Inr (r', es)"
  shows "Broadcast (LogMsg (node_id (state r)) (view (state r)) (round (state r))
     (mem_top_hash (kv_store (state r)))) \<in> set es"
proof -
  have pm: "is_TimeoutProof m \<or> is_ConflictProof m" using assms(2) by auto
  obtain s es1 t es2 es3 where
    one: "run_steps (take 6 (message_steps E m)) r = Inr (s, es1)"
    and two: "when_some (can_enter_repair s m) (\<lambda>rd. Inr (handle_enter_repair s rd)) s = Inr (t, es2)"
    and es: "es = es1 @ es2 @ es3"
    using assms(3) unfolding process_message_def
    by (subst (asm) message_steps_at_entry) (auto simp: run_steps_append bind_outcome_Inr_iff)
  have "step_contract logs_entry (take 6 (message_steps E m))"
    by unfold_locales (auto intro: logs_entry_seq proof_step_logs [OF pm])
  from step_contract.run_ok [OF this one] have "logs_entry r s es1" .
  then have "own_log_msg s = own_log_msg r" "in_repair (state s) \<Longrightarrow> Broadcast (own_log_msg r) \<in> set es1"
    using assms(1) by (auto simp: logs_entry_def)
  moreover have "Broadcast (own_log_msg s) \<in> set es2" if "\<not> in_repair (state s)"
    using two that pm by (auto simp: can_enter_repair_def handle_enter_repair_def)
  ultimately have "Broadcast (own_log_msg r) \<in> set es" unfolding es by auto
  then show ?thesis by (simp add: own_log_msg_def)
qed

lemma proof_broadcasts_log_witness:
  "\<exists>r' es. process_message demo_env (TimeoutProof 77 3) (fresh_replica six_config ''r0'') = Inr (r', es) \<and>
     Broadcast (LogMsg ''r0'' 0 0 zero_hash) \<in> set es"
proof -
  let ?r = "fresh_replica six_config ''r0''"
  obtain r' es where run: "process_message demo_env (TimeoutProof 77 3) ?r = Inr (r', es)"
    using process_message_total [of demo_env ?r "TimeoutProof 77 3"]
    by (auto simp: in_range_def fresh_replica_def initial_state_def)
  from proof_broadcasts_log [OF _ _ run, of 77 3] run show ?thesis
    by (auto simp: fresh_replica_def initial_state_def mem_top_hash_def bt_next_back_def mem_new_def)
qed

end
