(* ===== verification/Quorum.thy ===== *)
theory Quorum
  imports Raspen_Types
begin

text \<open>
  Quorum thresholds (\<^verbatim>\<open>config.rs\<close>): the locale \<open>quorum_system\<close> states when two quorums must
  share a member outside any set of at most \<open>f\<close> faulty ones, and its interpretations show it of
  the two thresholds \<open>Config::for_test\<close> computes, for \<open>n = 3f + 2p + 1\<close> replicas or more.
\<close>

lemma card_Int_ge:
  assumes "finite U" and "A \<subseteq> U" and "B \<subseteq> U"
  shows "card A + card B \<le> card (A \<inter> B) + card U"
proof -
  have "card A + card B = card (A \<union> B) + card (A \<inter> B)"
    using assms by (intro card_Un_Int) (auto intro: finite_subset)
  moreover have "card (A \<union> B) \<le> card U" using assms by (intro card_mono) auto
  ultimately show ?thesis by simp
qed

locale quorum_system =
  fixes valid :: "'c \<Rightarrow> bool"
    and members :: "'c \<Rightarrow> 'a set"
    and faults :: "'c \<Rightarrow> nat"
    and threshold :: "'c \<Rightarrow> nat"
  assumes finite_members: "valid c \<Longrightarrow> finite (members c)"
    and overlap: "valid c \<Longrightarrow> card (members c) + faults c < 2 * threshold c"
begin

lemma common_correct:
  assumes "valid c" and "A \<subseteq> members c" and "B \<subseteq> members c"
    and "threshold c \<le> card A" and "threshold c \<le> card B" and "finite F" and "card F \<le> faults c"
  obtains x where "x \<in> A" and "x \<in> B" and "x \<notin> F"
proof -
  have "card A + card B \<le> card (A \<inter> B) + card (members c)"
    using assms by (intro card_Int_ge finite_members)
  then have "card F < card (A \<inter> B)" using overlap [OF assms(1)] assms(4,5,7) by linarith
  then have "\<not> A \<inter> B \<subseteq> F" using card_mono [OF assms(6)] by (meson leD)
  then show ?thesis using that by blast
qed

text \<open>Votes for two values: if every correct member votes for at most one value, the values of
  two quorums are the same.\<close>

lemma single_vote:
  assumes "valid c" and "A \<subseteq> members c" and "B \<subseteq> members c"
    and "threshold c \<le> card A" and "threshold c \<le> card B" and "finite F" and "card F \<le> faults c"
    and "\<And>x. x \<in> A \<Longrightarrow> votes x v" and "\<And>x. x \<in> B \<Longrightarrow> votes x w"
    and "\<And>x v w. x \<notin> F \<Longrightarrow> votes x v \<Longrightarrow> votes x w \<Longrightarrow> v = w"
  shows "v = w"
proof -
  obtain x where "x \<in> A" "x \<in> B" "x \<notin> F"
    using common_correct [OF assms(1-7)] .
  with assms(8-10) show ?thesis by blast
qed

end

text \<open>The configurations the protocol is meant for.\<close>

definition bft_config :: "config \<Rightarrow> bool" where
  "bft_config c \<longleftrightarrow> (\<exists>chk. for_test chk (cfg_n c) (cfg_f c) (cfg_p c) = Inr c) \<and>
     3 * unat (cfg_f c) + 2 * unat (cfg_p c) + 1 \<le> unat (cfg_n c)"

definition config_nodes :: "config \<Rightarrow> node_id set" where
  "config_nodes c = set (nodes_ordered c)"

lemma bft_config_facts:
  assumes "bft_config c"
  shows "card (config_nodes c) = unat (cfg_n c)"
    and "unat (byz_quorum c) = unat (cfg_n c) - unat (cfg_f c)"
    and "unat (fast_quorum c) = unat (cfg_n c) - unat (cfg_p c)"
    and "unat (f_plus_1 c) = unat (cfg_f c) + 1"
    and "distinct (nodes_ordered c)" and "length (nodes_ordered c) = unat (cfg_n c)"
proof -
  let ?n = "cfg_n c" and ?f = "cfg_f c" and ?p = "cfg_p c"
  have c: "fast_quorum c = ?n - ?p" "byz_quorum c = ?n - ?f" "f_plus_1 c = ?f + 1"
    "nodes_ordered c = map node_name [0..<unat ?n]"
    using assms for_test_Inr by (auto simp: bft_config_def) (metis config.select_convs)+
  have le: "3 * unat ?f + 2 * unat ?p + 1 \<le> unat ?n" using assms by (simp add: bft_config_def)
  then have "?f \<le> ?n" "?p \<le> ?n" "?f \<noteq> - 1"
    using unat_u64_less [of ?n] unat_u64_max by (auto simp: word_le_nat_alt)
  then show "unat (byz_quorum c) = unat ?n - unat ?f" "unat (fast_quorum c) = unat ?n - unat ?p"
    "unat (f_plus_1 c) = unat ?f + 1"
    by (simp_all add: c unat_sub unat_succ_u64)
  show d: "distinct (nodes_ordered c)" and l: "length (nodes_ordered c) = unat ?n"
    by (simp_all add: c distinct_node_names)
  show "card (config_nodes c) = unat ?n"
    using d l by (simp add: config_nodes_def distinct_card)
qed

lemma config_nodes_finite [simp]: "finite (config_nodes c)"
  by (simp add: config_nodes_def)

lemma bft_config_bound:
  "bft_config c \<Longrightarrow> 3 * unat (cfg_f c) + 2 * unat (cfg_p c) + 1 \<le> unat (cfg_n c)"
  by (simp add: bft_config_def)

lemma bft_overlap:
  assumes "bft_config c"
  shows "card (config_nodes c) + unat (cfg_f c) < 2 * unat (byz_quorum c)"
    and "card (config_nodes c) + unat (cfg_f c) < 2 * unat (fast_quorum c)"
  using bft_config_bound [OF assms] by (simp_all add: bft_config_facts [OF assms])

interpretation byz: quorum_system bft_config config_nodes "\<lambda>c. unat (cfg_f c)"
  "\<lambda>c. unat (byz_quorum c)"
  by unfold_locales (simp_all add: bft_overlap)

interpretation fast: quorum_system bft_config config_nodes "\<lambda>c. unat (cfg_f c)"
  "\<lambda>c. unat (fast_quorum c)"
  by unfold_locales (simp_all add: bft_overlap)

section \<open>Properties\<close>

text \<open>Quorum intersection. In a configuration with \<open>n \<ge> 3f + 2p + 1\<close>, any two sets of configured
  nodes that reach the fast or the Byzantine threshold share a node outside any set of at most
  \<open>f\<close> faulty ones, and a Byzantine quorum can be formed without the faulty nodes.\<close>

theorem quorums_intersect:
  assumes "bft_config c" and "finite F" and "card F \<le> unat (cfg_f c)"
    and "A \<subseteq> config_nodes c" and "B \<subseteq> config_nodes c"
    and "unat (byz_quorum c) \<le> card A \<or> unat (fast_quorum c) \<le> card A"
    and "unat (byz_quorum c) \<le> card B \<or> unat (fast_quorum c) \<le> card B"
  shows "(\<exists>s \<in> A \<inter> B. s \<notin> F) \<and> unat (byz_quorum c) \<le> card (config_nodes c - F)"
proof -
  have "card A + card B \<le> card (A \<inter> B) + card (config_nodes c)"
    using assms(4,5) by (intro card_Int_ge) simp_all
  then have "card F < card (A \<inter> B)"
    using assms(3,6,7) bft_config_bound [OF assms(1)]
    by (simp add: bft_config_facts [OF assms(1)]) linarith
  then have "\<not> A \<inter> B \<subseteq> F" using card_mono [OF assms(2)] by (meson leD)
  moreover have "card (config_nodes c) - card F \<le> card (config_nodes c - F)"
    by (rule diff_card_le_card_Diff [OF assms(2)])
  ultimately show ?thesis
    using assms(3) by (auto simp: bft_config_facts [OF assms(1)])
qed

lemma quorums_intersect_witness:
  "\<exists>s \<in> config_nodes six_config \<inter> config_nodes six_config. s \<notin> {''r5''}"
proof -
  have b: "bft_config six_config"
    using spec_default_six by (auto simp: bft_config_def spec_default_def six_config_def)
  have "card (config_nodes six_config) = 6"
    using bft_config_facts(1) [OF b] by (simp add: six_config_def)
  then show ?thesis
    using quorums_intersect [OF b, of "{''r5''}" "config_nodes six_config" "config_nodes six_config"]
    by (simp add: six_config_def)
qed

end
