(* ===== verification/Agreement.thy ===== *)
theory Agreement
  imports Dispatch Quorum
begin

text \<open>
  Safety across replicas: what a replica must have received before it sends each kind of
  message, that it commits to at most one history per round, and from both, with the
  intersection of quorums, agreement among the correct replicas of a cluster on repaired rounds
  and on checkpoints.
\<close>

section \<open>Evidence\<close>

text \<open>
  What must have been delivered before a replica sends a message: \<open>at_least n P\<close> says that \<open>n\<close>
  different nodes satisfy \<open>P\<close>.
\<close>

definition at_least :: "nat \<Rightarrow> (node_id \<Rightarrow> bool) \<Rightarrow> bool" where
  "at_least n P \<longleftrightarrow> (\<exists>W. finite W \<and> n \<le> card W \<and> (\<forall>s \<in> W. P s))"

definition messages_at_least :: "nat \<Rightarrow> message set \<Rightarrow> (message \<Rightarrow> bool) \<Rightarrow> bool" where
  "messages_at_least n M p \<longleftrightarrow> (\<exists>S. finite S \<and> n \<le> card S \<and> S \<subseteq> M \<and> (\<forall>m \<in> S. p m))"

fun evidence :: "message set \<Rightarrow> config \<Rightarrow> message \<Rightarrow> bool" where
  "evidence M c (Checkpoint s rd k h) \<longleftrightarrow>
     messages_at_least (unat (fast_quorum c)) M (sync_agrees rd k h)"
| "evidence M c (ConflictProof rd k) \<longleftrightarrow>
     messages_at_least (unat (byz_quorum c)) M (sync_matches rd k)"
| "evidence M c (TimeoutProof rd k) \<longleftrightarrow>
     at_least (unat (f_plus_1 c)) (\<lambda>s. TimeoutMsg s rd k \<in> M)"
| "evidence M c (RepairHistory q v rd h) \<longleftrightarrow>
     q = nodes_ordered c ! (unat v mod length (nodes_ordered c)) \<and>
     at_least (unat (byz_quorum c)) (\<lambda>s. \<exists>lh. LogMsg s v rd lh \<in> M)"
| "evidence M c (RepairPrepare q v rd h) \<longleftrightarrow> (\<exists>s. RepairHistory s v rd h \<in> M)"
| "evidence M c (RepairCommit q v rd h) \<longleftrightarrow>
     at_least (unat (byz_quorum c)) (\<lambda>s. RepairPrepare s v rd h \<in> M)"
| "evidence M c (RepairDone q v rd h) \<longleftrightarrow>
     at_least (unat (byz_quorum c)) (\<lambda>s. RepairCommit s v rd h \<in> M)"
| "evidence M c m \<longleftrightarrow> True"

lemma count_messages:
  "n \<le> count_matching p S \<Longrightarrow> fset S \<subseteq> M \<Longrightarrow> messages_at_least n M p"
  unfolding messages_at_least_def count_matching_card
  by (intro exI [of _ "{m \<in> fset S. p m}"]) auto

lemma count_senders:
  assumes "n \<le> card (senders p S)"
    and "\<And>m s. m |\<in>| S \<Longrightarrow> p m \<Longrightarrow> sender_of m = Some s \<Longrightarrow> P s"
  shows "at_least n P"
proof -
  have "P s" if "s \<in> senders p S" for s
    using that assms(2) by (auto simp: senders_Collect)
  then show ?thesis
    unfolding at_least_def using assms(1) finite_senders by (intro exI [of _ "senders p S"]) simp
qed

lemma prepare_matches_iff: "prepare_matches vw rd h m \<longleftrightarrow> (\<exists>s. m = RepairPrepare s vw rd h)"
  by (cases m) auto

lemma commit_matches_iff: "commit_matches vw rd h m \<longleftrightarrow> (\<exists>s. m = RepairCommit s vw rd h)"
  by (cases m) auto

lemma timeout_matches_iff: "timeout_matches rd k m \<longleftrightarrow> (\<exists>s. m = TimeoutMsg s rd k)"
  by (cases m) auto

lemma log_matches_iff: "log_matches vw rd m \<longleftrightarrow> (\<exists>s h. m = LogMsg s vw rd h)"
  by (cases m) auto

lemma delivered_subset:
  "delivered M s \<Longrightarrow> fset (sync_msgs s) \<subseteq> M" "delivered M s \<Longrightarrow> fset (timeout_msgs s) \<subseteq> M"
  "delivered M s \<Longrightarrow> fset (log_msgs s) \<subseteq> M" "delivered M s \<Longrightarrow> fset (repair_history_msgs s) \<subseteq> M"
  "delivered M s \<Longrightarrow> fset (repair_prepare_msgs s) \<subseteq> M"
  "delivered M s \<Longrightarrow> fset (repair_commit_msgs s) \<subseteq> M"
  by (simp_all add: delivered_def)

lemma can_timeout_proof_count: "can_timeout_proof r = Some k \<Longrightarrow>
    unat (f_plus_1 (config r)) \<le> card (senders (timeout_matches (round (state r)) k) (timeout_msgs (state r)))"
  by (auto simp: can_timeout_proof_def Let_def one_per_sender_patterns count_eq_senders split: if_splits)

lemma can_form_checkpoint_count: "can_form_checkpoint r = Some k \<Longrightarrow>
    unat (fast_quorum (config r)) \<le> count_matching
      (sync_agrees (round (state r)) k (mem_top_hash (kv_store (state r)))) (sync_msgs (state r))"
  by (auto simp: can_form_checkpoint_def Let_def split: if_splits)

lemma can_conflict_proof_count: "can_conflict_proof r = Some k \<Longrightarrow>
    unat (byz_quorum (config r)) \<le> count_matching (sync_matches (round (state r)) k) (sync_msgs (state r))"
  by (auto simp: can_conflict_proof_def Let_def split: if_splits)

lemma is_leader_iff: "is_leader r \<Longrightarrow>
    node_id (state r) = nodes_ordered (config r) ! (unat (view (state r)) mod length (nodes_ordered (config r)))"
  by (auto simp: is_leader_def Let_def split: if_splits)

definition sends_with_evidence :: "message set \<Rightarrow> replica \<Rightarrow> replica \<Rightarrow> effect list \<Rightarrow> bool" where
  "sends_with_evidence M r r' es \<longleftrightarrow> frame r r' \<and>
     (delivered M (state r) \<longrightarrow> delivered M (state r') \<and>
        (\<forall>e \<in> set es. evidence M (config r) (effect_message e)))"

lemma transition_evidence:
  assumes "transition E M r es r'" and "iter_ok E" and "delivered M (state r)"
  shows "\<forall>e \<in> set es. evidence M (config r) (effect_message e)"
  using assms
proof (induction rule: transition.induct)
  case (form_checkpoint r k r' es)
  then show ?case
    using count_messages [OF can_form_checkpoint_count delivered_subset(1), of r k M]
    by (auto simp: handle_form_checkpoint_def Let_def)
next
  case (conflict_proof r k r' es)
  then show ?case
    using count_messages [OF can_conflict_proof_count delivered_subset(1), of r k M]
    by (auto simp: handle_conflict_proof_def own_log_msg_def)
next
  case (timeout_proof r k r' es)
  have "at_least (unat (f_plus_1 (config r))) (\<lambda>s. TimeoutMsg s (round (state r)) k \<in> M)"
    using delivered_subset(2) [OF timeout_proof(4)] can_timeout_proof_count [OF timeout_proof(1)]
    by (elim count_senders) (auto simp: timeout_matches_iff)
  then show ?case using timeout_proof(2) by (auto simp: handle_timeout_proof_def own_log_msg_def)
next
  case (broadcast_history r h r' es)
  have "at_least (unat (byz_quorum (config r)))
      (\<lambda>s. \<exists>lh. LogMsg s (view (state r)) (round (state r)) lh \<in> M)"
    using delivered_subset(3) [OF broadcast_history(4)] can_broadcast_history_phase [OF broadcast_history(1)]
    by (elim conjE, elim count_senders) (auto simp: log_matches_iff)
  then show ?case
    using broadcast_history(2) can_broadcast_history_phase [OF broadcast_history(1)] is_leader_iff [of r]
    by (auto simp: handle_broadcast_history_def)
next
  case (repair_prepare r h r' es)
  obtain s where "RepairHistory s (view (state r)) (round (state r)) h \<in> M"
    using can_repair_prepare_source [OF repair_prepare(3,1)] delivered_subset(4) [OF repair_prepare(4)]
    by blast
  then show ?case using repair_prepare(2) by (auto simp: handle_repair_prepare_def)
next
  case (repair_commit r h r' es)
  have "at_least (unat (byz_quorum (config r)))
      (\<lambda>s. RepairPrepare s (view (state r)) (round (state r)) h \<in> M)"
    using delivered_subset(5) [OF repair_commit(4)] can_repair_commit_phase [OF repair_commit(1)]
    unfolding prepare_certificate_def
    by (elim conjE, elim count_senders) (auto simp: prepare_matches_iff)
  then show ?case using repair_commit(2) by (auto simp: handle_repair_commit_def)
next
  case (apply_repair r h r' es)
  have "at_least (unat (byz_quorum (config r)))
      (\<lambda>s. RepairCommit s (view (state r)) (round (state r)) h \<in> M)"
    using delivered_subset(6) [OF apply_repair(4)] can_apply_repair_phase [OF apply_repair(1)]
    by (elim conjE, elim count_senders) (auto simp: commit_matches_iff)
  then show ?case using apply_repair(2)
    by (auto simp: handle_apply_repair_def Let_def bind_outcome_Inr_iff)
qed (auto simp: step_simps)

interpretation proof_law: transition_law E M
  "\<lambda>r r' es. iter_ok E \<longrightarrow> sends_with_evidence M r r' es" for E M
proof (unfold_locales, goal_cases)
  case (3 r es r')
  then show ?case
    using transition_evidence [OF 3] transition_frame [OF 3] transition_delivered [OF 3]
    by (simp add: sends_with_evidence_def)
qed (auto simp: sends_with_evidence_def frame_def)

section \<open>One commit per round\<close>

text \<open>The commits a replica has sent: view, round and history of each.\<close>

definition sent :: "effect list \<Rightarrow> message set" where
  "sent es = effect_message ` set es"

definition commits :: "effect list \<Rightarrow> (u64 \<times> u64 \<times> u64) set" where
  "commits es = {(v, rd, h). \<exists>s. RepairCommit s v rd h \<in> sent es}"

lemma commits_simps [simp]:
  "commits [] = {}" "commits (es @ fs) = commits es \<union> commits fs"
  by (auto simp: commits_def sent_def)

lemma Collect_case_prod_False [simp]: "{(a, b, c). False} = {}"
  by simp

text \<open>
  Commits lie in past rounds, or are the one the replica is now waiting to complete; and no
  round has two.
\<close>

definition commit_log_ok :: "replica_state \<Rightarrow> (u64 \<times> u64 \<times> u64) set \<Rightarrow> bool" where
  "commit_log_ok s C \<longleftrightarrow>
     (\<forall>(v, rd, h) \<in> C. rd < round s \<or>
        rd = round s \<and> phase s = CommitPhase \<and> v = view s \<and> h = proposed_history_hash s) \<and>
     (\<forall>(v, rd, h) \<in> C. \<forall>(v', rd', h') \<in> C. rd = rd' \<longrightarrow> v = v' \<and> h = h')"

lemma add_u64_checked_less: "add_u64 True a 1 = Inr b \<Longrightarrow> a < b"
  by (auto simp: add_u64_one_checked word_less_nat_alt unat_succ_u64)

lemma commit_log_ok_same:
  "commit_log_ok s C \<Longrightarrow> phase s' = phase s \<Longrightarrow> round s' = round s \<Longrightarrow> view s' = view s \<Longrightarrow>
     proposed_history_hash s' = proposed_history_hash s \<Longrightarrow> commit_log_ok s' C"
  by (simp add: commit_log_ok_def)

lemma commit_log_ok_next:
  "commit_log_ok s C \<Longrightarrow> round s < round s' \<Longrightarrow> commit_log_ok s' C"
  unfolding commit_log_ok_def by (fastforce intro: order_less_trans)

lemma commit_log_ok_idle:
  "commit_log_ok s C \<Longrightarrow> phase s \<noteq> CommitPhase \<Longrightarrow> round s' = round s \<Longrightarrow> commit_log_ok s' C"
  unfolding commit_log_ok_def by fastforce

lemma commit_log_ok_add:
  assumes "commit_log_ok s C" and "phase s \<noteq> CommitPhase" and "round s' = round s"
    and "phase s' = CommitPhase"
  shows "commit_log_ok s' (C \<union> {(view s', round s', proposed_history_hash s')})"
  using assms unfolding commit_log_ok_def by fastforce

lemma transition_commit_log:
  assumes "transition E M r es r'" and "overflow_checks E" and "phase_ok (state r)"
    and "commit_log_ok (state r) C"
  shows "commit_log_ok (state r') (C \<union> commits es)"
  using assms
proof (induction rule: transition.induct)
  case (repair_commit r h r' es)
  have "commits es = {(view (state r), round (state r), proposed_history_hash (state r))}"
    and "state r' = (state r)\<lparr>phase := CommitPhase\<rparr>" and "phase (state r) = PreparePhase"
    using repair_commit(2) can_repair_commit_phase [OF repair_commit(1)]
    by (auto simp: handle_repair_commit_def commits_def sent_def)
  then show ?case using commit_log_ok_add [OF repair_commit(5), of "state r'"] by simp
next
  case (apply_repair r h r' es)
  have "commits es = {}" and "round (state r) < round (state r')"
    using apply_repair(2,3) by (auto simp: handle_apply_repair_def Let_def bind_outcome_Inr_iff
        commits_def sent_def dest!: add_u64_checked_less)
  then show ?case using commit_log_ok_next [OF apply_repair(5)] by simp
next
  case (repair_done_catchup r rd r' es)
  have "commits es = {}" and "round (state r) < round (state r')"
    using repair_done_catchup(2,3) by (auto simp: handle_repair_done_catchup_def bind_outcome_Inr_iff
        dest!: add_u64_checked_less)
  then show ?case using commit_log_ok_next [OF repair_done_catchup(5)] by simp
next
  case (state_reply m r k r' es)
  have "commits es = {}" and "round (state r') = round (state r)" and "phase (state r) \<noteq> CommitPhase"
    using state_reply(3) can_state_reply_phase [OF state_reply(2)]
    by (auto simp: handle_state_reply_def Let_def bind_outcome_Inr_iff)
  then show ?case using commit_log_ok_idle [OF state_reply(6)] by simp
next
  case (speculate m r k r' es)
  have "commits es = {}" and "round (state r') = round (state r)" and "phase (state r) \<noteq> CommitPhase"
    using speculate(3) can_speculate_phase [OF speculate(2)]
    by (auto simp: handle_speculate_def Let_def bind_outcome_Inr_iff commits_def sent_def)
  then show ?case using commit_log_ok_idle [OF speculate(6)] by simp
next
  case (enter_repair m r rd r' es)
  have "phase (state r) \<noteq> CommitPhase"
    using can_enter_repair_phase [OF enter_repair(2)] enter_repair(5) by (auto simp: phase_ok_def)
  moreover have "commits es = {}" and "round (state r') = round (state r)"
    using enter_repair(3)
    by (auto simp: handle_enter_repair_def start_repair_def own_log_msg_def commits_def sent_def)
  ultimately show ?case using commit_log_ok_idle [OF enter_repair(6)] by simp
qed (auto simp: step_simps commits_def sent_def elim: commit_log_ok_same commit_log_ok_idle
       dest!: can_enter_align_phase can_conflict_proof_phase can_timeout_proof_phase
         can_broadcast_history_phase can_repair_prepare_phase can_view_change_phase)

definition commits_once :: "replica \<Rightarrow> replica \<Rightarrow> effect list \<Rightarrow> bool" where
  "commits_once r r' es \<longleftrightarrow> (phase_ok (state r) \<longrightarrow> phase_ok (state r') \<and>
     (\<forall>C. commit_log_ok (state r) C \<longrightarrow> commit_log_ok (state r') (C \<union> commits es)))"

interpretation commit_law: transition_law E M
  "\<lambda>r r' es. overflow_checks E \<longrightarrow> commits_once r r' es" for E M
proof (unfold_locales, goal_cases)
  case (2 r s es t fs)
  then show ?case by (simp add: commits_once_def Un_assoc [symmetric])
next
  case (3 r es r')
  then show ?case
    using transition_commit_log [OF 3] transition_phase_ok [OF 3] by (simp add: commits_once_def)
qed (simp add: commits_once_def)

section \<open>Agreement on a repaired round\<close>

text \<open>
  A cluster: the nodes of a configuration, a set \<open>F\<close> of faulty ones, and for each correct node the
  inputs it consumed, the state it ended in and the effects it emitted. Messages are
  authenticated: what a correct node receives in the name of a correct node was sent by it, and
  the repair commits come from configured nodes.
\<close>

definition correct_runs :: "env \<Rightarrow> config \<Rightarrow> node_id set \<Rightarrow> (node_id \<Rightarrow> replica_input list) \<Rightarrow>
    (node_id \<Rightarrow> replica) \<Rightarrow> (node_id \<Rightarrow> effect list) \<Rightarrow> bool" where
  "correct_runs E cfg F inp fin out \<longleftrightarrow> (\<forall>s \<in> config_nodes cfg - F.
     replica_run E (inp s) (fresh_replica cfg s) = Inr (fin s, out s))"

definition genuine :: "config \<Rightarrow> node_id set \<Rightarrow> (node_id \<Rightarrow> effect list) \<Rightarrow> message \<Rightarrow> bool" where
  "genuine cfg F out m \<longleftrightarrow> (case sender_of m of
       None \<Rightarrow> True
     | Some s \<Rightarrow> if s \<in> config_nodes cfg then s \<in> F \<or> m \<in> sent (out s) else is_Speculate m)"

definition authenticated :: "config \<Rightarrow> node_id set \<Rightarrow> (node_id \<Rightarrow> replica_input list) \<Rightarrow>
    (node_id \<Rightarrow> effect list) \<Rightarrow> bool" where
  "authenticated cfg F inp out \<longleftrightarrow>
     (\<forall>s \<in> config_nodes cfg - F. \<forall>m \<in> input_msgs (inp s). genuine cfg F out m)"

lemma delivered_fresh: "delivered M (state (fresh_replica cfg node))"
  by (simp add: delivered_def msgs_ok_def fresh_replica_def initial_state_def)

lemma run_evidence:
  assumes "replica_run E inputs (fresh_replica cfg node) = Inr (r', es)" and "iter_ok E"
    and "m \<in> sent es"
  shows "evidence (input_msgs inputs) cfg m"
  using proof_law.run_law [OF assms(1) subset_refl] delivered_fresh assms(2,3)
  by (auto simp: sends_with_evidence_def sent_def fresh_replica_def)

lemma commit_log_ok_fresh: "commit_log_ok s {}"
  by (simp add: commit_log_ok_def)

lemma run_commit_log:
  assumes "replica_run E inputs (fresh_replica cfg node) = Inr (r', es)" and "overflow_checks E"
  shows "commit_log_ok (state r') (commits es)"
proof -
  have "phase_ok (state (fresh_replica cfg node))"
    by (simp add: phase_ok_def fresh_replica_def initial_state_def)
  then show ?thesis
    using commit_law.run_law [OF assms(1) subset_refl] assms(2)
      commit_log_ok_fresh [of "state (fresh_replica cfg node)"]
    by (force simp: commits_once_def)
qed

lemma run_commits_once:
  assumes "replica_run E inputs (fresh_replica cfg node) = Inr (r', es)" and "overflow_checks E"
    and "(v, rd, h) \<in> commits es" and "(v', rd, h') \<in> commits es"
  shows "v = v' \<and> h = h'"
  using run_commit_log [OF assms(1,2)] assms(3,4) by (fastforce simp: commit_log_ok_def)

lemma node_id_fresh [simp]: "node_id (state (fresh_replica cfg node)) = node"
  "config (fresh_replica cfg node) = cfg" "round (state (fresh_replica cfg node)) = 0"
  by (simp_all add: fresh_replica_def initial_state_def)

lemma run_frame:
  assumes "replica_run E inputs (fresh_replica cfg node) = Inr (r', es)"
  shows "config r' = cfg" and "node_id (state r') = node" and "eta_star (state r') = 0"
    and "ack_msgs (state r') = {||}"
  using frame.run_law [OF assms subset_refl]
  by (simp_all add: frame_def fresh_replica_def initial_state_def)

lemma run_sends_own:
  assumes "replica_run E inputs (fresh_replica cfg node) = Inr (r', es)" and "m \<in> sent es"
  shows "sender_of m \<in> {None, Some node}" and "\<not> is_Speculate m"
    and "overflow_checks E \<Longrightarrow> round_of m = Some rd \<Longrightarrow> rd \<le> round (state r')"
proof -
  obtain e where "e \<in> set es" and "m = effect_message e" using assms(2) by (auto simp: sent_def)
  then show "sender_of m \<in> {None, Some node}" "\<not> is_Speculate m"
    "overflow_checks E \<Longrightarrow> round_of m = Some rd \<Longrightarrow> rd \<le> round (state r')"
    using send.run_law [OF assms(1) subset_refl] by (auto simp: sends_authentic_def authentic_def)
qed

text \<open>The votes behind a finished repair.\<close>

lemma done_votes:
  assumes "correct_runs E cfg F inp fin out" and "authenticated cfg F inp out" and "iter_ok E"
    and "a \<in> config_nodes cfg - F" and "RepairDone q v rd h \<in> sent (out a)"
  obtains W where "W \<subseteq> config_nodes cfg" and "unat (byz_quorum cfg) \<le> card W"
    and "\<And>s. s \<in> W \<Longrightarrow> s \<in> F \<or> (v, rd, h) \<in> commits (out s)"
proof -
  have "replica_run E (inp a) (fresh_replica cfg a) = Inr (fin a, out a)"
    using assms(1,4) by (simp add: correct_runs_def)
  from run_evidence [OF this assms(3,5)] obtain W where W: "unat (byz_quorum cfg) \<le> card W"
    "\<And>s. s \<in> W \<Longrightarrow> RepairCommit s v rd h \<in> input_msgs (inp a)"
    by (auto simp: at_least_def)
  have "s \<in> config_nodes cfg \<and> (s \<in> F \<or> RepairCommit s v rd h \<in> sent (out s))" if "s \<in> W" for s
  proof -
    have "genuine cfg F out (RepairCommit s v rd h)"
      using assms(2,4) W(2) [OF that] by (auto simp: authenticated_def)
    then show ?thesis by (simp add: genuine_def split: if_splits)
  qed
  then show ?thesis using that [of W] W(1) by (auto simp: commits_def)
qed

lemma done_agree:
  assumes "bft_config cfg" and "finite F" and "card F \<le> unat (cfg_f cfg)"
    and "overflow_checks E" and "iter_ok E"
    and runs: "correct_runs E cfg F inp fin out" and auth: "authenticated cfg F inp out"
    and a: "a \<in> config_nodes cfg - F" "RepairDone qa va rd ha \<in> sent (out a)"
    and b: "b \<in> config_nodes cfg - F" "RepairDone qb vb rd hb \<in> sent (out b)"
  shows "(va, ha) = (vb, hb)"
proof -
  let ?votes = "\<lambda>s w. s \<in> config_nodes cfg \<and> (s \<in> F \<or> (fst w, rd, snd w) \<in> commits (out s))"
  obtain A where A: "A \<subseteq> config_nodes cfg" "unat (byz_quorum cfg) \<le> card A"
    "\<And>s. s \<in> A \<Longrightarrow> s \<in> F \<or> (va, rd, ha) \<in> commits (out s)"
    using done_votes [OF runs auth assms(5) a] by blast
  obtain B where B: "B \<subseteq> config_nodes cfg" "unat (byz_quorum cfg) \<le> card B"
    "\<And>s. s \<in> B \<Longrightarrow> s \<in> F \<or> (vb, rd, hb) \<in> commits (out s)"
    using done_votes [OF runs auth assms(5) b] by blast
  show ?thesis
  proof (rule byz.single_vote [OF assms(1) A(1) B(1) A(2) B(2) assms(2,3), where votes = ?votes])
    fix s v w assume s: "s \<notin> F" "?votes s v" "?votes s w"
    then have "replica_run E (inp s) (fresh_replica cfg s) = Inr (fin s, out s)"
      using runs by (simp add: correct_runs_def)
    from run_commits_once [OF this assms(4)] s show "v = w" by (auto simp: prod_eq_iff)
  qed (use A B in auto)
qed

text \<open>The SYNCs behind a checkpoint, when no SYNC differs from another of its sender in its
  \<open>eta_star\<close> alone.\<close>

lemma checkpoint_votes:
  assumes "correct_runs E cfg F inp fin out" and "authenticated cfg F inp out" and "iter_ok E"
    and "a \<in> config_nodes cfg - F" and "Checkpoint q rd k h \<in> sent (out a)"
    and eta: "\<And>s rd k h e. Sync s rd k h e \<in> input_msgs (inp a) \<Longrightarrow> e = 0"
  obtains W where "W \<subseteq> config_nodes cfg" and "unat (fast_quorum cfg) \<le> card W"
    and "\<And>s. s \<in> W \<Longrightarrow> s \<in> F \<or> Sync s rd k h 0 \<in> sent (out s)"
proof -
  have "replica_run E (inp a) (fresh_replica cfg a) = Inr (fin a, out a)"
    using assms(1,4) by (simp add: correct_runs_def)
  from run_evidence [OF this assms(3,5)] obtain S where S: "finite S" "unat (fast_quorum cfg) \<le> card S"
    "S \<subseteq> input_msgs (inp a)" "\<And>m. m \<in> S \<Longrightarrow> sync_agrees rd k h m"
    by (auto simp: messages_at_least_def)
  let ?W = "{s. Sync s rd k h 0 \<in> S}"
  have "m \<in> (\<lambda>s. Sync s rd k h 0) ` ?W" if mS: "m \<in> S" for m
  proof -
    obtain s e where m: "m = Sync s rd k h e" using S(4) [OF mS] by (cases m) auto
    have "e = 0" using eta [of s rd k h e] mS S(3) unfolding m by blast
    then show ?thesis using mS unfolding m by blast
  qed
  then have img: "S \<subseteq> (\<lambda>s. Sync s rd k h 0) ` ?W" by blast
  have fin: "finite ?W"
    by (rule finite_vimageI [OF S(1), of "\<lambda>s. Sync s rd k h 0", unfolded vimage_def])
      (simp add: inj_def)
  have "card S \<le> card ?W"
    using card_mono [OF finite_imageI [OF fin] img]
      card_image_le [OF fin, of "\<lambda>s. Sync s rd k h 0"] by linarith
  moreover have "s \<in> config_nodes cfg \<and> (s \<in> F \<or> Sync s rd k h 0 \<in> sent (out s))" if "s \<in> ?W" for s
  proof -
    have "genuine cfg F out (Sync s rd k h 0)"
      using assms(2,4) that S(3) by (auto simp: authenticated_def)
    then show ?thesis by (simp add: genuine_def split: if_splits)
  qed
  ultimately show ?thesis using that [of ?W] S(2) by auto
qed

lemma checkpoints_agree:
  assumes "bft_config cfg" and "finite F" and "card F \<le> unat (cfg_f cfg)" and "iter_ok E"
    and runs: "correct_runs E cfg F inp fin out" and auth: "authenticated cfg F inp out"
    and eta: "\<And>n s rd k h e. n \<in> config_nodes cfg - F \<Longrightarrow> Sync s rd k h e \<in> input_msgs (inp n) \<Longrightarrow> e = 0"
    and one: "\<And>s h h'. s \<in> config_nodes cfg - F \<Longrightarrow> Sync s rd k h 0 \<in> sent (out s) \<Longrightarrow>
      Sync s rd k h' 0 \<in> sent (out s) \<Longrightarrow> h = h'"
    and a: "a \<in> config_nodes cfg - F" "Checkpoint qa rd k ha \<in> sent (out a)"
    and b: "b \<in> config_nodes cfg - F" "Checkpoint qb rd k hb \<in> sent (out b)"
  shows "ha = hb"
proof -
  let ?votes = "\<lambda>s h. s \<in> config_nodes cfg \<and> (s \<in> F \<or> Sync s rd k h 0 \<in> sent (out s))"
  obtain A where A: "A \<subseteq> config_nodes cfg" "unat (fast_quorum cfg) \<le> card A"
    "\<And>s. s \<in> A \<Longrightarrow> s \<in> F \<or> Sync s rd k ha 0 \<in> sent (out s)"
    by (rule checkpoint_votes [OF runs auth assms(4) a eta [OF a(1)]]) (assumption | rule that)+
  obtain B where B: "B \<subseteq> config_nodes cfg" "unat (fast_quorum cfg) \<le> card B"
    "\<And>s. s \<in> B \<Longrightarrow> s \<in> F \<or> Sync s rd k hb 0 \<in> sent (out s)"
    by (rule checkpoint_votes [OF runs auth assms(4) b eta [OF b(1)]]) (assumption | rule that)+
  show ?thesis
  proof (rule fast.single_vote [OF assms(1) A(1) B(1) A(2) B(2) assms(2,3), where votes = ?votes])
    fix s v w assume s: "s \<notin> F" "?votes s v" "?votes s w"
    then have "s \<in> config_nodes cfg - F" "Sync s rd k v 0 \<in> sent (out s)"
      "Sync s rd k w 0 \<in> sent (out s)" by simp_all
    then show "v = w" by (rule one)
  next
    fix s assume "s \<in> A"
    then show "?votes s ha" using A(1) A(3) [of s] by auto
  next
    fix s assume "s \<in> B"
    then show "?votes s hb" using B(1) B(3) [of s] by auto
  qed
qed

end
