(* ===== verification/Scenario.thy ===== *)
theory Scenario
  imports Agreement Node
begin

text \<open>
  Concrete runs in the specification's configuration (six replicas, one fault), evaluated in the
  kernel: the instances at which the properties' hypotheses hold.
\<close>

section \<open>Running a replica on given inputs\<close>

definition demo_run :: "replica_input list \<Rightarrow> node_id \<Rightarrow> (replica \<times> effect list) outcome" where
  "demo_run inputs s = replica_run demo_env inputs (fresh_replica six_config s)"

definition run_final :: "replica_input list \<Rightarrow> node_id \<Rightarrow> replica" where
  "run_final inputs s = (case demo_run inputs s of
       Inl e \<Rightarrow> fresh_replica six_config s
     | Inr (r, es) \<Rightarrow> r)"

definition run_effects :: "replica_input list \<Rightarrow> node_id \<Rightarrow> effect list" where
  "run_effects inputs s = (case demo_run inputs s of Inl e \<Rightarrow> [] | Inr (r, es) \<Rightarrow> es)"

definition returns :: "'a outcome \<Rightarrow> bool" where
  "returns x \<longleftrightarrow> (case x of Inl e \<Rightarrow> False | Inr w \<Rightarrow> True)"

lemma demo_run_eq: "returns (demo_run inputs s) \<Longrightarrow>
    replica_run demo_env inputs (fresh_replica six_config s) =
      Inr (run_final inputs s, run_effects inputs s)"
  by (auto simp: returns_def demo_run_def run_final_def run_effects_def split: sum.splits)

section \<open>A repair that completes\<close>

definition six_nodes :: "node_id list" where
  "six_nodes = map node_name [0..<6]"

text \<open>
  Every replica receives a conflict proof, the logs of five replicas, the leader's history of
  size 5 and then five prepares and five commits for it. Replica \<open>r5\<close> is faulty.
\<close>

definition repair_inputs :: "replica_input list" where
  "repair_inputs = map InMessage
     (ConflictProof 0 0 # map (\<lambda>i. LogMsg (node_name i) 0 0 zero_hash) [0..<5] @
      [RepairHistory ''r0'' 0 0 5] @ map (\<lambda>i. RepairPrepare (node_name i) 0 0 5) [0..<5] @
      map (\<lambda>i. RepairCommit (node_name i) 0 0 5) [0..<5])"

definition repair_effects :: "node_id \<Rightarrow> effect list" where
  "repair_effects s = map Broadcast
     ([LogMsg s 0 0 zero_hash] @ (if s = ''r0'' then [RepairHistory s 0 0 5] else []) @
      replicate 6 (RepairPrepare s 0 0 5) @
      [RepairCommit s 0 0 5, RepairDone s 0 0 5, CommittedReply s 0 0])"

fun effects_are :: "(replica \<times> effect list) outcome \<Rightarrow> effect list \<Rightarrow> bool" where
  "effects_are (Inl e) es \<longleftrightarrow> False"
| "effects_are (Inr (r, fs)) es \<longleftrightarrow> fs = es"

lemma repair_runs_check:
  "list_all (\<lambda>s. effects_are (demo_run repair_inputs s) (repair_effects s)) six_nodes"
  by code_simp

lemma six_nodes_set: "config_nodes six_config = set six_nodes"
  by (simp add: config_nodes_def six_config_def six_nodes_def)

lemma repair_run:
  assumes "s \<in> set six_nodes"
  shows "replica_run demo_env repair_inputs (fresh_replica six_config s) =
    Inr (run_final repair_inputs s, repair_effects s)"
  using assms repair_runs_check
  by (cases "demo_run repair_inputs s")
     (auto simp: list_all_iff run_final_def demo_run_def)

lemma repair_runs: "correct_runs demo_env six_config {''r5''} (\<lambda>s. repair_inputs)
   (run_final repair_inputs) repair_effects"
  by (simp add: correct_runs_def six_nodes_set repair_run)

lemma repair_genuine_check:
  "list_all (\<lambda>i. case i of InEvent ev \<Rightarrow> True
     | InMessage m \<Rightarrow> genuine six_config {''r5''} repair_effects m) repair_inputs"
  by code_simp

lemma repair_authenticated:
  "authenticated six_config {''r5''} (\<lambda>s. repair_inputs) repair_effects"
  using repair_genuine_check by (auto simp: authenticated_def list_all_iff input_msgs_def)

lemma six_config_bft: "bft_config six_config"
  using spec_default_six by (auto simp: bft_config_def spec_default_def six_config_def)

lemma six_members: "''r0'' \<in> set six_nodes" "''r1'' \<in> set six_nodes"
  by code_simp+

text \<open>The same inputs without the commits, which leave the replica in the commit phase.\<close>

definition commit_inputs :: "replica_input list" where
  "commit_inputs = take 12 repair_inputs"

lemma commit_run:
  "replica_run demo_env commit_inputs (fresh_replica six_config ''r1'') =
     Inr (run_final commit_inputs ''r1'', run_effects commit_inputs ''r1'')"
  "phase (state (run_final commit_inputs ''r1'')) = CommitPhase"
proof -
  have "returns (demo_run commit_inputs ''r1'')" by code_simp
  then show "replica_run demo_env commit_inputs (fresh_replica six_config ''r1'') =
     Inr (run_final commit_inputs ''r1'', run_effects commit_inputs ''r1'')"
    by (rule demo_run_eq)
qed code_simp

lemma repair_net_sound: "sound_net demo_env (input_msgs repair_inputs) six_config"
  by (auto simp: sound_net_def repair_inputs_def input_msgs_def six_config_def)

section \<open>The fast path\<close>

definition speculate_msg :: message where
  "speculate_msg = Speculate ''sequencer'' 0 zero_hash 0"

lemma six_thresholds [simp]:
  "fast_quorum six_config = 5" "byz_quorum six_config = 5" "f_plus_1 six_config = 2"
  by (simp_all add: six_config_def)

text \<open>One operation executed and checkpointed by every replica: the SPECULATE and the SYNCs of five
  replicas.\<close>

definition checkpoint_inputs :: "replica_input list" where
  "checkpoint_inputs =
     map InMessage (speculate_msg # map (\<lambda>i. Sync (node_name i) 0 0 zero_hash 0) [0..<5])"

definition first_entry :: kv_entry where
  "first_entry = \<lparr>op_hash = 0, entry_result = [], prev_hash = zero_hash\<rparr>"

definition checkpoint_effects :: "node_id \<Rightarrow> effect list" where
  "checkpoint_effects s = map Broadcast
     ([SpecReply s 0 0 (digest_of demo_env first_entry)] @ replicate 6 (Sync s 0 0 zero_hash 0) @
      [Checkpoint s 0 0 zero_hash])"

lemma checkpoint_runs_check:
  "list_all (\<lambda>s. effects_are (demo_run checkpoint_inputs s) (checkpoint_effects s)) six_nodes"
  by code_simp

lemma checkpoint_runs: "correct_runs demo_env six_config {''r5''} (\<lambda>s. checkpoint_inputs)
   (run_final checkpoint_inputs) checkpoint_effects"
proof -
  have "replica_run demo_env checkpoint_inputs (fresh_replica six_config s) =
      Inr (run_final checkpoint_inputs s, checkpoint_effects s)" if "s \<in> set six_nodes" for s
    using that checkpoint_runs_check
    by (cases "demo_run checkpoint_inputs s") (auto simp: list_all_iff run_final_def demo_run_def)
  then show ?thesis by (simp add: correct_runs_def six_nodes_set)
qed

lemma checkpoint_genuine_check:
  "list_all (\<lambda>i. case i of InEvent ev \<Rightarrow> True
     | InMessage m \<Rightarrow> genuine six_config {''r5''} checkpoint_effects m) checkpoint_inputs"
  by code_simp

lemma checkpoint_authenticated:
  "authenticated six_config {''r5''} (\<lambda>s. checkpoint_inputs) checkpoint_effects"
  using checkpoint_genuine_check by (auto simp: authenticated_def list_all_iff input_msgs_def)

text \<open>The same messages with a disagreeing SYNC of \<open>r5\<close>, which arrives before or after the fifth
  agreeing one.\<close>

definition bad_sync :: message where
  "bad_sync = Sync ''r5'' 0 0 (hash_fill 7) 0"

definition early_conflict_inputs :: "replica_input list" where
  "early_conflict_inputs = take 5 checkpoint_inputs @ InMessage bad_sync # drop 5 checkpoint_inputs"

definition late_conflict_inputs :: "replica_input list" where
  "late_conflict_inputs = checkpoint_inputs @ [InMessage bad_sync]"

text \<open>Two histories for one view and round.\<close>

definition two_history_inputs :: "replica_input list" where
  "two_history_inputs = map InMessage
     [ConflictProof 0 0, RepairHistory ''r0'' 0 0 5, RepairHistory ''r3'' 0 0 2]"

text \<open>A healthy replica: two operations, five agreeing SYNCs, then the CHECKPOINTs of two other
  replicas with the index and the hash of its own, a state reply and one more message.\<close>

definition align_inputs :: "replica_input list" where
  "align_inputs = map InMessage
     ([speculate_msg, speculate_msg] @
      map (\<lambda>i. Sync (node_name i) 0 1 (digest_of demo_env first_entry) 0) [0..<5] @
      [Checkpoint ''r1'' 0 1 (digest_of demo_env first_entry),
       Checkpoint ''r2'' 0 1 (digest_of demo_env first_entry)])"

end
