(* ===== verification/Mbt_Steps.thy ===== *)
theory Mbt_Steps
  imports Consensus_Tests Scenario
begin

text \<open>
  The model-based test \<open>mbt_can_take_steps\<close> (\<^verbatim>\<open>tests/mbt_steps.rs\<close>), for every environment: three rounds
  of delivery among six replicas go through without a panic and leave every replica with its
  executed entry. The proof follows the messages: what a replica broadcasts in a round can
  neither commit a repair nor touch a log in the next.
\<close>

section \<open>Messages that leave logs and rounds alone\<close>

definition no_votes :: "message set \<Rightarrow> bool" where
  "no_votes M \<longleftrightarrow> (\<forall>m \<in> M. \<not> is_RepairCommit m \<and> \<not> is_RepairDone m)"

definition steady :: "message set \<Rightarrow> bool" where
  "steady M \<longleftrightarrow> no_votes M \<and> (\<forall>m \<in> M. \<not> is_Speculate m \<and> \<not> is_StateReply m)"

definition positive_config :: "config \<Rightarrow> bool" where
  "positive_config c \<longleftrightarrow> 0 < unat (byz_quorum c) \<and> 0 < unat (f_plus_1 c)"

lemma no_commits:
  assumes "no_votes M" and "delivered M s"
  shows "senders (commit_matches v rd h) (repair_commit_msgs s) = {}"
proof -
  have "\<not> commit_matches v rd h m" if "m |\<in>| repair_commit_msgs s" for m
  proof -
    have "m \<in> M" using that delivered_subset(6) [OF assms(2)] by blast
    then show ?thesis using assms(1) by (cases m) (auto simp: no_votes_def)
  qed
  then show ?thesis by (auto simp: senders_Collect)
qed

lemma no_dones:
  assumes "no_votes M" and "delivered M s"
  shows "count_matching (done_matches v rd) (repair_done_msgs s) = 0"
proof -
  have "\<not> done_matches v rd m" if "m |\<in>| repair_done_msgs s" for m
  proof -
    have "m \<in> M" using that assms(2) by (auto simp: delivered_def)
    then show ?thesis using assms(1) by (cases m) (auto simp: no_votes_def)
  qed
  then have "{m \<in> fset (repair_done_msgs s). done_matches v rd m} = {}" by auto
  then show ?thesis by (simp add: count_matching_card)
qed

definition keeps :: "message set \<Rightarrow> replica \<Rightarrow> replica \<Rightarrow> effect list \<Rightarrow> bool" where
  "keeps M r r' es \<longleftrightarrow> config r' = config r \<and> delivered M (state r') \<and>
     round (state r') = round (state r) \<and>
     (steady M \<longrightarrow> kv_store (state r') = kv_store (state r) \<and> kv_size (state r') = kv_size (state r)) \<and>
     (\<forall>m. Broadcast m \<in> set es \<longrightarrow> \<not> is_StateReply m)"

lemma transition_keeps:
  assumes "transition E M r es r'" and "no_votes M" and "delivered M (state r)"
    and "positive_config (config r)"
  shows "keeps M r r' es"
proof -
  have "round (state r') = round (state r) \<and>
     (steady M \<longrightarrow> kv_store (state r') = kv_store (state r) \<and> kv_size (state r') = kv_size (state r)) \<and>
     (\<forall>m. Broadcast m \<in> set es \<longrightarrow> \<not> is_StateReply m)"
    using assms
  proof (induction rule: transition.induct)
    case (speculate m r k r' es)
    then show ?case using can_speculate_phase [OF speculate(2)]
      by (auto simp: handle_speculate_def Let_def bind_outcome_Inr_iff steady_def)
  next
    case (state_reply m r k r' es)
    then show ?case using can_state_reply_phase [OF state_reply(2)]
      by (auto simp: handle_state_reply_def Let_def bind_outcome_Inr_iff steady_def)
  next
    case (apply_repair r h r' es)
    then show ?case using can_apply_repair_phase [OF apply_repair(1)] no_commits
      by (simp add: positive_config_def)
  next
    case (repair_done_catchup r rd r' es)
    then show ?case using no_dones
      by (auto simp: positive_config_def can_repair_done_catchup_def Let_def split: if_splits)
  qed (auto simp: step_simps)
  then show ?thesis
    using transition_frame [OF assms(1)] transition_delivered [OF assms(1,3)]
    by (simp add: keeps_def frame_def)
qed

interpretation keep: transition_law E M
  "\<lambda>r r' es. no_votes M \<longrightarrow> delivered M (state r) \<longrightarrow> positive_config (config r) \<longrightarrow> keeps M r r' es"
  for E M
  by unfold_locales (auto simp: transition_keeps, auto simp: keeps_def)

section \<open>Rounds of delivery\<close>

text \<open>A replica after the first round, and what one message does to it.\<close>

definition settled :: "message set \<Rightarrow> replica \<Rightarrow> bool" where
  "settled M r \<longleftrightarrow> config r = six_config \<and> delivered M (state r) \<and> mem_ok (kv_store (state r)) \<and>
     round (state r) = 0 \<and> kv_size (state r) = 1"

definition harmless :: "message set \<Rightarrow> effect \<Rightarrow> bool" where
  "harmless M e \<longleftrightarrow> evidence M six_config (effect_message e) \<and> \<not> is_Speculate (effect_message e) \<and>
     (\<forall>m. e = Broadcast m \<longrightarrow> \<not> is_StateReply m)"

lemma six_positive: "positive_config six_config"
  by (simp add: positive_config_def)

lemma settled_message:
  assumes "encode_total E" and "iter_ok E" and "steady M" and "m \<in> M" and "settled M r"
  shows "\<exists>r' es. process_message E m r = Inr (r', es) \<and> settled M r' \<and> (\<forall>e \<in> set es. harmless M e)"
proof -
  have r: "config r = six_config" "delivered M (state r)" "mem_ok (kv_store (state r))"
    "round (state r) = 0" "kv_size (state r) = 1"
    using assms(5) by (simp_all add: settled_def)
  have "in_range m (state r)"
    using assms(3,4) r(4) by (auto simp: in_range_def steady_def split: message.splits)
  then obtain r' es where run: "process_message E m r = Inr (r', es)"
    using process_message_total [OF assms(1) r(3)] by blast
  have "keeps M r r' es"
    using keep.message_law [OF run assms(4)] assms(3) r(1,2) six_positive by (simp add: steady_def)
  then have "settled M r'" and noreply: "\<And>m. Broadcast m \<in> set es \<Longrightarrow> \<not> is_StateReply m"
    using r assms(3) by (auto simp: keeps_def settled_def)
  moreover have "\<forall>e \<in> set es. evidence M six_config (effect_message e)"
    using proof_law.message_law [OF run assms(4)] assms(2) r(1,2) by (simp add: sends_with_evidence_def)
  moreover have "\<forall>e \<in> set es. \<not> is_Speculate (effect_message e)"
    using send.message_law [OF run assms(4)] by (auto simp: sends_authentic_def authentic_def)
  ultimately show ?thesis using run by (auto simp: harmless_def)
qed

lemma to_each_settled:
  assumes "encode_total E" and "iter_ok E" and "steady M" and "m \<in> M" and "\<forall>r \<in> set rs. settled M r"
  shows "\<exists>rs' es. to_each E m rs = Inr (rs', es) \<and> length rs' = length rs \<and>
    (\<forall>r \<in> set rs'. settled M r) \<and> (\<forall>e \<in> set es. harmless M e)"
  using assms(5)
proof (induction rs)
  case (Cons r rs)
  obtain r' es where r': "process_message E m r = Inr (r', es)" "settled M r'" "\<forall>e \<in> set es. harmless M e"
    using settled_message [OF assms(1-4), of r] Cons.prems by auto
  obtain rs' fs where rs': "to_each E m rs = Inr (rs', fs)" "length rs' = length rs"
    "\<forall>r \<in> set rs'. settled M r" "\<forall>e \<in> set fs. harmless M e"
    using Cons by auto
  from r' rs' show ?case by auto
qed simp

lemma route_settled:
  assumes "encode_total E" and "iter_ok E" and "steady M" and "set ms \<subseteq> M" and "\<forall>r \<in> set rs. settled M r"
  shows "\<exists>rs' es. route E ms rs = Inr (rs', es) \<and> length rs' = length rs \<and>
    (\<forall>r \<in> set rs'. settled M r) \<and> (\<forall>e \<in> set es. harmless M e)"
  using assms(4,5)
proof (induction ms arbitrary: rs)
  case (Cons m ms)
  obtain rs1 es where rs1: "to_each E m rs = Inr (rs1, es)" "length rs1 = length rs"
    "\<forall>r \<in> set rs1. settled M r" "\<forall>e \<in> set es. harmless M e"
    using to_each_settled [OF assms(1-3), of m rs] Cons.prems by auto
  obtain rs2 fs where rs2: "route E ms rs1 = Inr (rs2, fs)" "length rs2 = length rs1"
    "\<forall>r \<in> set rs2. settled M r" "\<forall>e \<in> set fs. harmless M e"
    using Cons.IH [OF _ rs1(3)] Cons.prems(1) by auto
  from rs1 rs2 show ?case by auto
qed simp

lemma settled_mono: "settled M r \<Longrightarrow> M \<subseteq> N \<Longrightarrow> settled N r"
  by (auto simp: settled_def delivered_def)

section \<open>The first round\<close>

definition first_kind :: "effect \<Rightarrow> bool" where
  "first_kind e \<longleftrightarrow> (case e of Broadcast m \<Rightarrow> is_SpecReply m \<or> is_Sync m | Send q m \<Rightarrow> False)"

lemma no_kind: "fset S \<subseteq> {m} \<Longrightarrow> fBall S p \<Longrightarrow> \<not> p m \<Longrightarrow> S = {||}"
  by (metis all_not_fin_conv singletonD subsetD)

lemma delivered_speculate:
  assumes "delivered {m} s" and "is_Speculate m"
  shows "delivered {} s"
proof -
  have m: "\<not> is_Sync m" "\<not> is_Checkpoint m" "\<not> is_TimeoutMsg m" "\<not> is_LogMsg m"
    "\<not> is_RepairHistory m" "\<not> is_RepairPrepare m" "\<not> is_RepairCommit m" "\<not> is_RepairDone m"
    using assms(2) by (cases m; simp)+
  have kinds: "fBall (sync_msgs s) is_Sync" "fBall (chkpt_msgs s) is_Checkpoint"
    "fBall (timeout_msgs s) is_TimeoutMsg" "fBall (log_msgs s) is_LogMsg"
    "fBall (repair_history_msgs s) is_RepairHistory" "fBall (repair_prepare_msgs s) is_RepairPrepare"
    "fBall (repair_commit_msgs s) is_RepairCommit" "fBall (repair_done_msgs s) is_RepairDone"
    using assms(1) unfolding delivered_def msgs_ok_def by blast+
  have sub: "fset (sync_msgs s) \<subseteq> {m}" "fset (chkpt_msgs s) \<subseteq> {m}" "fset (timeout_msgs s) \<subseteq> {m}"
    "fset (log_msgs s) \<subseteq> {m}" "fset (repair_history_msgs s) \<subseteq> {m}"
    "fset (repair_prepare_msgs s) \<subseteq> {m}" "fset (repair_commit_msgs s) \<subseteq> {m}"
    "fset (repair_done_msgs s) \<subseteq> {m}"
    using assms(1) unfolding delivered_def by blast+
  show ?thesis
    using assms(1) no_kind [OF sub(1) kinds(1) m(1)] no_kind [OF sub(2) kinds(2) m(2)]
      no_kind [OF sub(3) kinds(3) m(3)] no_kind [OF sub(4) kinds(4) m(4)]
      no_kind [OF sub(5) kinds(5) m(5)] no_kind [OF sub(6) kinds(6) m(6)]
      no_kind [OF sub(7) kinds(7) m(7)] no_kind [OF sub(8) kinds(8) m(8)]
    by (simp add: delivered_def)
qed

lemma first_message:
  assumes "encode_total E"
  shows "\<exists>r' es. process_message E seq_msg (fresh_replica six_config n) = Inr (r', es) \<and> settled {} r' \<and>
    es \<noteq> [] \<and> (\<forall>e \<in> set es. first_kind e)"
proof -
  let ?r = "fresh_replica six_config n"
  have "fast_log E ?r" by (rule fast_log_fresh) simp_all
  from fast_log_run [OF assms this, of "[seq_msg]"] obtain r' where
    r': "replica_run E [InMessage seq_msg] ?r = Inr (r', fast_effects E ?r (mem_lookup (kv_store (state r'))) 0)"
      "fast_log E r'" "unat (kv_size (state r')) = 1"
    by (auto simp: seq_msg_def fresh_replica_def initial_state_def)
  then have run: "process_message E seq_msg ?r = Inr (r', fast_effects E ?r (mem_lookup (kv_store (state r'))) 0)"
    by (auto simp: replica_run_def bind_outcome_Inr_iff)
  have "delivered {seq_msg} (state r')"
    using deliver.message_law [OF run, of "{seq_msg}"] delivered_fresh by simp
  then have "delivered {} (state r')"
    by (rule delivered_speculate) (simp add: seq_msg_def)
  moreover have "no_votes {seq_msg}" by (simp add: no_votes_def seq_msg_def)
  then have "config r' = six_config \<and> round (state r') = 0"
    using keep.message_law [OF run, of "{seq_msg}"] delivered_fresh six_positive by (simp add: keeps_def)
  moreover have "unat (kv_size (state r')) = unat (1 :: u64)" using r'(3) by simp
  then have "kv_size (state r') = 1" unfolding unat_eq_iff .
  ultimately have "settled {} r'" using r'(2) by (simp add: settled_def fast_log_def log_ok_def)
  with run show ?thesis by (auto simp: fast_effects_def first_kind_def)
qed

lemma make_six: "make_replicas E ns = Inr (map (fresh_replica six_config) ns)"
  using spec_default_six
  by (induction ns) (simp_all add: make_replica_def spec_default_def replica_new_fresh)

lemma first_round:
  assumes "encode_total E" and "ns \<noteq> []"
  shows "\<exists>rs es. route E [seq_msg] (map (fresh_replica six_config) ns) = Inr (rs, es) \<and>
    length rs = length ns \<and> (\<forall>r \<in> set rs. settled {} r) \<and> es \<noteq> [] \<and> (\<forall>e \<in> set es. first_kind e)"
proof -
  have "\<exists>rs es. to_each E seq_msg (map (fresh_replica six_config) ns) = Inr (rs, es) \<and>
    length rs = length ns \<and> (\<forall>r \<in> set rs. settled {} r) \<and> (ns \<noteq> [] \<longrightarrow> es \<noteq> []) \<and> (\<forall>e \<in> set es. first_kind e)"
  proof (induction ns)
    case (Cons n ns)
    then show ?case using first_message [OF assms(1), of n] by fastforce
  qed simp
  then show ?thesis using assms(2) by auto
qed

lemma set_collect: "m \<in> set (collect_broadcasts es) \<longleftrightarrow> Broadcast m \<in> set es"
  by (auto simp: collect_broadcasts_def split: effect.splits)

text \<open>Without prepares there is no commit, and without commits no finished repair.\<close>

lemma harmless_steady:
  assumes "\<And>m. m \<in> M \<Longrightarrow> \<not> is_RepairCommit m \<and> \<not> is_RepairDone m \<and> \<not> is_Speculate m \<and>
      \<not> is_StateReply m \<and> \<not> is_RepairPrepare m"
    and "\<forall>e \<in> set es. harmless M e" and "m \<in> set (collect_broadcasts es)"
  shows "\<not> is_RepairCommit m \<and> \<not> is_RepairDone m \<and> \<not> is_Speculate m \<and> \<not> is_StateReply m"
proof -
  have ev: "evidence M six_config m" "\<not> is_Speculate m" "\<not> is_StateReply m"
    using assms(2,3) by (auto simp: set_collect harmless_def)
  have few: "\<not> at_least 5 (\<lambda>s. False)" by (auto simp: at_least_def)
  have "RepairPrepare s v rd h \<notin> M" "RepairCommit s v rd h \<notin> M" for s v rd h
    using assms(1) [of "RepairPrepare s v rd h"] assms(1) [of "RepairCommit s v rd h"] by auto
  then show ?thesis using ev few by (cases m) simp_all
qed

lemma steps_pass:
  assumes "encode_total E" and "iter_ok E"
  shows "mbt_can_take_steps E"
proof -
  let ?ns = "[''r0'', ''r1'', ''r2'', ''r3'', ''r4'', ''r5'']"
  obtain rs1 es1 where 1: "route E [seq_msg] (map (fresh_replica six_config) ?ns) = Inr (rs1, es1)"
    "length rs1 = 6" "\<forall>r \<in> set rs1. settled {} r" "es1 \<noteq> []" "\<forall>e \<in> set es1. first_kind e"
    using first_round [OF assms(1), of ?ns] by auto
  let ?M2 = "set (collect_broadcasts es1)"
  have kinds: "is_SpecReply m \<or> is_Sync m" if "m \<in> ?M2" for m
    using that 1(5) by (auto simp: set_collect first_kind_def)
  have M2: "\<not> is_RepairCommit m \<and> \<not> is_RepairDone m \<and> \<not> is_Speculate m \<and> \<not> is_StateReply m \<and>
      \<not> is_RepairPrepare m" if "m \<in> ?M2" for m
    using kinds [OF that] by (cases m) simp_all
  then have "steady ?M2" by (simp add: steady_def no_votes_def)
  then obtain rs2 es2 where 2: "route E (collect_broadcasts es1) rs1 = Inr (rs2, es2)" "length rs2 = 6"
    "\<forall>r \<in> set rs2. settled ?M2 r" "\<forall>e \<in> set es2. harmless ?M2 e"
    using route_settled [OF assms, of ?M2 "collect_broadcasts es1" rs1] 1(2,3) settled_mono
    by (metis empty_subsetI subset_refl)
  let ?M3 = "?M2 \<union> set (collect_broadcasts es2)"
  have "steady ?M3"
    using \<open>steady ?M2\<close> harmless_steady [OF M2 2(4)] by (auto simp: steady_def no_votes_def)
  moreover have "\<forall>r \<in> set rs2. settled ?M3 r" using 2(3) settled_mono by blast
  ultimately obtain rs3 es3 where 3: "route E (collect_broadcasts es2) rs2 = Inr (rs3, es3)"
    "length rs3 = 6" "\<forall>r \<in> set rs3. settled ?M3 r"
    using route_settled [OF assms, of ?M3 "collect_broadcasts es2" rs2] 2(2) by auto
  have "list_all (\<lambda>r. 0 \<le> sint (kv_size (state r)) \<and> 0 \<le> sint (round (state r))) rs3"
    using 3(3) by (auto simp: list_all_iff settled_def)
  moreover have "list_ex (\<lambda>r. kv_size (state r) > 0) rs3"
    using 3(2,3) by (cases rs3) (auto simp: settled_def)
  ultimately show ?thesis
    using 1(1,4) 2(1) 3(1) by (simp add: mbt_can_take_steps_def make_six passes_def)
qed

section \<open>Properties\<close>



end
