(* ===== verification/Cluster.thy ===== *)
theory Cluster
  imports Scenario Sequencer
begin

text \<open>
  The replicas of a cluster, the network between them and the sequencer, put together. The
  network is the list of all packets ever sent, so a packet may be delivered late, repeatedly,
  out of order or never. An action delivers a packet to a correct replica, fires one of its
  timers, submits an operation to the sequencer, or lets the adversary send: in the name of a
  faulty node or of nobody, a SPECULATE of a sequencer, or a packet sent before to another
  destination. A replica that panics has crashed for good.
\<close>

section \<open>Clusters\<close>

type_synonym packet = "node_id option \<times> message"

record cluster =
  members :: "node_id \<Rightarrow> replica"
  crashed :: "node_id set"
  net :: "packet list"
  sequencer_of :: "message list sequencer"

text \<open>The network stands for the subscribers of the sequencer's channel: it keeps every message.\<close>

definition wire_api :: "(message list, nat) broadcast_api" where
  "wire_api = \<lparr>bc_channel = (\<lambda>cap. Inr []), bc_subscribe = (\<lambda>ms. (length ms, ms)),
     bc_send = (\<lambda>m ms. (Inr 1, ms @ [m])),
     bc_recv = (\<lambda>rx ms. if rx < length ms then (Received (ms ! rx), Suc rx) else (Waiting, rx))\<rparr>"

definition cluster_new :: "config \<Rightarrow> cluster" where
  "cluster_new cfg = \<lparr>members = fresh_replica cfg, crashed = {}, net = [], sequencer_of = \<lparr>eta_counter = eta_new, sender = []\<rparr>\<rparr>"

text \<open>The transport: \<open>Transport::execute\<close> over a network of packets.\<close>

definition transmit :: "effect list \<Rightarrow> packet list \<Rightarrow> packet list" where
  "transmit = execute (\<lambda>m w. w @ [(None, m)]) (\<lambda>q m w. w @ [(Some q, m)])"

definition reaches :: "packet list \<Rightarrow> node_id \<Rightarrow> message \<Rightarrow> bool" where
  "reaches w n m \<longleftrightarrow> (None, m) \<in> set w \<or> (Some n, m) \<in> set w"

definition forgeable :: "config \<Rightarrow> node_id set \<Rightarrow> message \<Rightarrow> bool" where
  "forgeable cfg F m \<longleftrightarrow> (case sender_of m of
       None \<Rightarrow> True
     | Some s \<Rightarrow> if s \<in> config_nodes cfg then s \<in> F else is_Speculate m)"

datatype action =
    Deliver node_id message
  | Timer node_id event
  | SubmitOp hash
  | Inject packet

text \<open>One input at one correct replica, as its actor handles it.\<close>

definition node_step :: "env \<Rightarrow> node_id \<Rightarrow> replica_input \<Rightarrow> cluster \<Rightarrow> cluster" where
  "node_step E n i c = (case handle_input E i (members c n) of
       Inl p \<Rightarrow> c\<lparr>crashed := insert n (crashed c)\<rparr>
     | Inr (r, es) \<Rightarrow> c\<lparr>members := (members c)(n := r), net := transmit es (net c)\<rparr>)"

definition up :: "config \<Rightarrow> node_id set \<Rightarrow> cluster \<Rightarrow> node_id \<Rightarrow> bool" where
  "up cfg F c n \<longleftrightarrow> n \<in> config_nodes cfg \<and> n \<notin> F \<and> n \<notin> crashed c"

fun act :: "env \<Rightarrow> config \<Rightarrow> node_id set \<Rightarrow> action \<Rightarrow> cluster \<Rightarrow> cluster option" where
  "act E cfg F (Deliver n m) c =
     (if up cfg F c n \<and> reaches (net c) n m then Some (node_step E n (InMessage m) c) else None)"
| "act E cfg F (Timer n ev) c =
     (if up cfg F c n then Some (node_step E n (InEvent ev) c) else None)"
| "act E cfg F (SubmitOp h) c =
     (let sq = snd (submit wire_api h (sequencer_of c))
      in Some (c\<lparr>sequencer_of := sq, net := net c @ [(None, last (sender sq))]\<rparr>))"
| "act E cfg F (Inject (d, m)) c =
     (if forgeable cfg F m \<or> m \<in> snd ` set (net c)
      then Some (c\<lparr>net := net c @ [(d, m)]\<rparr>) else None)"

inductive reachable :: "env \<Rightarrow> config \<Rightarrow> node_id set \<Rightarrow> cluster \<Rightarrow> bool"
  for E :: env and cfg :: config and F :: "node_id set" where
  start: "reachable E cfg F (cluster_new cfg)"
| step: "reachable E cfg F c \<Longrightarrow> act E cfg F a c = Some c' \<Longrightarrow> reachable E cfg F c'"

text \<open>A schedule of actions, for concrete executions.\<close>

fun acts :: "env \<Rightarrow> config \<Rightarrow> node_id set \<Rightarrow> action list \<Rightarrow> cluster \<Rightarrow> cluster option" where
  "acts E cfg F [] c = Some c"
| "acts E cfg F (a # as) c =
     (case act E cfg F a c of None \<Rightarrow> None | Some c' \<Rightarrow> acts E cfg F as c')"

lemma acts_reachable:
  "reachable E cfg F c \<Longrightarrow> acts E cfg F as c = Some c' \<Longrightarrow> reachable E cfg F c'"
  by (induction as arbitrary: c) (auto split: option.splits intro: step)

section \<open>A cluster is its replicas' runs\<close>

lemma transmit_append: "transmit (es @ fs) w = transmit fs (transmit es w)"
  unfolding transmit_def by (rule execute_append)

lemma transmit_packets:
  "snd ` set (transmit es w) = snd ` set w \<union> sent es"
proof (induction es arbitrary: w)
  case (Cons e es)
  then show ?case by (cases e) (auto simp: transmit_def sent_def)
qed (simp add: transmit_def sent_def)

text \<open>
  What a reachable cluster comes from: per correct node a run of the replica on authenticated
  inputs, whose effects are in the network; and everything in the network is genuine.
\<close>

definition explained :: "env \<Rightarrow> config \<Rightarrow> node_id set \<Rightarrow> cluster \<Rightarrow>
    (node_id \<Rightarrow> replica_input list) \<Rightarrow> (node_id \<Rightarrow> effect list) \<Rightarrow> bool" where
  "explained E cfg F c inp out \<longleftrightarrow>
     correct_runs E cfg F inp (members c) out \<and> authenticated cfg F inp out \<and>
     (\<forall>m \<in> snd ` set (net c). genuine cfg F out m) \<and>
     (\<forall>s \<in> config_nodes cfg - F. sent (out s) \<subseteq> snd ` set (net c))"

lemma sent_simps [simp]: "sent [] = {}" "sent (es @ fs) = sent es \<union> sent fs"
  by (auto simp: sent_def)

lemma genuine_grows: "genuine cfg F out m \<Longrightarrow> genuine cfg F (out(n := out n @ es)) m"
  by (auto simp: genuine_def split: option.splits if_splits)

lemma genuine_own:
  assumes "replica_run E inputs (fresh_replica cfg n) = Inr (r, out n)" and "m \<in> sent (out n)"
    and "n \<in> config_nodes cfg"
  shows "genuine cfg F out m"
  using run_sends_own(1) [OF assms(1,2)] assms(2,3) by (auto simp: genuine_def)

lemma forgeable_genuine: "forgeable cfg F m \<Longrightarrow> genuine cfg F out m"
  by (auto simp: forgeable_def genuine_def split: option.splits)

lemma sequencer_no_replica: "bft_config cfg \<Longrightarrow> ''sequencer'' \<notin> config_nodes cfg"
proof -
  assume "bft_config cfg"
  then have "nodes_ordered cfg = map node_name [0..<unat (cfg_n cfg)]"
    using for_test_Inr by (auto simp: bft_config_def) (metis config.select_convs(7))
  then show ?thesis by (auto simp: config_nodes_def node_name_def)
qed

lemma explained_new: "explained E cfg F (cluster_new cfg) (\<lambda>n. []) (\<lambda>n. [])"
  by (simp add: explained_def cluster_new_def correct_runs_def authenticated_def input_msgs_def
      replica_run_def)

lemma replica_run_snoc:
  assumes "replica_run E inputs r = Inr (r1, es)" and "handle_input E i r1 = Inr (r2, fs)"
  shows "replica_run E (inputs @ [i]) r = Inr (r2, es @ fs)"
  using assms by (simp add: replica_run_def run_steps_append)

lemma explained_node_step:
  assumes ex: "explained E cfg F c inp out" and n: "n \<in> config_nodes cfg - F"
    and i: "\<And>m. i = InMessage m \<Longrightarrow> m \<in> snd ` set (net c)"
  shows "\<exists>inp out. explained E cfg F (node_step E n i c) inp out"
proof (cases "handle_input E i (members c n)")
  case (Inl p)
  then have "explained E cfg F (node_step E n i c) inp out"
    using ex by (simp add: node_step_def explained_def)
  then show ?thesis by blast
next
  case (Inr w)
  obtain r es where w: "handle_input E i (members c n) = Inr (r, es)" using Inr by (cases w) simp
  let ?inp = "inp(n := inp n @ [i])" and ?out = "out(n := out n @ es)"
  have run: "replica_run E (inp n @ [i]) (fresh_replica cfg n) = Inr (r, out n @ es)"
    using ex n w replica_run_snoc by (auto simp: explained_def correct_runs_def)
  have new: "genuine cfg F ?out m" if "m \<in> sent es" for m
    using genuine_own [of E "inp n @ [i]" cfg n r ?out m F] run that n by simp
  have old: "genuine cfg F ?out m" if "m \<in> snd ` set (net c)" for m
    using ex that genuine_grows by (auto simp: explained_def)
  have "authenticated cfg F ?inp ?out"
    using ex i old genuine_grows by (auto simp: explained_def authenticated_def input_msgs_def)
  moreover have "correct_runs E cfg F ?inp ((members c)(n := r)) ?out"
    using ex run by (simp add: explained_def correct_runs_def)
  ultimately have "explained E cfg F (node_step E n i c) ?inp ?out"
    using ex w new old
    by (auto simp: explained_def node_step_def transmit_packets)
  then show ?thesis by blast
qed

lemma explained_packet:
  assumes "explained E cfg F c inp out" and "genuine cfg F out m"
  shows "explained E cfg F (c\<lparr>net := net c @ [(d, m)]\<rparr>) inp out"
  using assms by (auto simp: explained_def)

lemma reaches_packet: "reaches w n m \<Longrightarrow> m \<in> snd ` set w"
  unfolding reaches_def by force

lemma reachable_explained:
  assumes "bft_config cfg" and "reachable E cfg F c"
  shows "\<exists>inp out. explained E cfg F c inp out"
  using assms(2)
proof (induction rule: reachable.induct)
  case start
  show ?case using explained_new by blast
next
  case (step c a c')
  then obtain inp out where ex: "explained E cfg F c inp out" by blast
  show ?case
  proof (cases a)
    case (Deliver n m)
    then have "c' = node_step E n (InMessage m) c" "n \<in> config_nodes cfg - F" "reaches (net c) n m"
      using step(2) by (auto simp: up_def split: if_splits)
    then show ?thesis using explained_node_step [OF ex] reaches_packet by blast
  next
    case (Timer n ev)
    then have "c' = node_step E n (InEvent ev) c" "n \<in> config_nodes cfg - F"
      using step(2) by (auto simp: up_def split: if_splits)
    then show ?thesis using explained_node_step [OF ex] by blast
  next
    case (SubmitOp h)
    then obtain e sq where c': "c' = c\<lparr>sequencer_of := sq, net := net c @ [(None, Speculate ''sequencer'' 0 h e)]\<rparr>"
      using step(2) by (auto simp: submit_def eta_next_def wire_api_def Let_def)
    have "genuine cfg F out (Speculate ''sequencer'' 0 h e)"
      using sequencer_no_replica [OF assms(1)] by (simp add: genuine_def)
    then have "explained E cfg F c' inp out"
      using explained_packet [OF ex, of _ None] unfolding c' by (simp add: explained_def)
    then show ?thesis by blast
  next
    case (Inject pkt)
    obtain d m where pkt: "pkt = (d, m)" by (cases pkt)
    have "genuine cfg F out m" and c': "c' = c\<lparr>net := net c @ [(d, m)]\<rparr>"
      using step(2) ex forgeable_genuine unfolding Inject pkt
      by (auto simp: explained_def split: if_splits)
    then show ?thesis using explained_packet [OF ex] unfolding c' by blast
  qed
qed

text \<open>A packet in the name of a correct replica was sent by it in its run.\<close>

lemma reachable_packet:
  assumes "explained E cfg F c inp out" and "m \<in> snd ` set (net c)"
    and "sender_of m = Some s" and "s \<in> config_nodes cfg - F"
  shows "m \<in> sent (out s)"
  using assms by (auto simp: explained_def genuine_def split: if_splits)

text \<open>The correct nodes behind a quorum of messages that a correct node received.\<close>

lemma correct_senders:
  assumes ex: "explained E cfg F c inp out" and F: "finite F"
    and a: "a \<in> config_nodes cfg - F" and W: "at_least n (\<lambda>s. f s \<in> input_msgs (inp a))"
    and f: "\<And>s. sender_of (f s) = Some s \<and> \<not> is_Speculate (f s)"
  shows "n \<le> card {s \<in> config_nodes cfg - F. f s \<in> sent (out s)} + card F"
proof -
  obtain W where W: "finite W" "n \<le> card W" "\<And>s. s \<in> W \<Longrightarrow> f s \<in> input_msgs (inp a)"
    using W by (auto simp: at_least_def)
  let ?C = "{s \<in> config_nodes cfg - F. f s \<in> sent (out s)}"
  have "s \<in> ?C \<union> F" if "s \<in> W" for s
  proof -
    have "genuine cfg F out (f s)"
      using ex a W(3) [OF that] by (auto simp: explained_def authenticated_def)
    then show ?thesis using f [of s] by (auto simp: genuine_def split: if_splits)
  qed
  then have "card W \<le> card (?C \<union> F)" using F by (intro card_mono) auto
  also have "\<dots> \<le> card ?C + card F" by (rule card_Un_le)
  finally show ?thesis using W(2) by linarith
qed

lemma sent_in_net:
  "explained E cfg F c inp out \<Longrightarrow> s \<in> config_nodes cfg - F \<Longrightarrow> m \<in> sent (out s) \<Longrightarrow>
     m \<in> snd ` set (net c)"
  unfolding explained_def by blast

lemma node_evidence:
  assumes "explained E cfg F c inp out" and "s \<in> config_nodes cfg - F" and "iter_ok E"
    and "m \<in> sent (out s)"
  shows "evidence (input_msgs (inp s)) cfg m"
proof -
  have "replica_run E (inp s) (fresh_replica cfg s) = Inr (members c s, out s)"
    using assms(1,2) unfolding explained_def correct_runs_def by blast
  from run_evidence [OF this assms(3,4)] show ?thesis .
qed

text \<open>The correct nodes whose message of a kind is in the network.\<close>

definition correct_with :: "config \<Rightarrow> node_id set \<Rightarrow> cluster \<Rightarrow> (node_id \<Rightarrow> message) \<Rightarrow> node_id set" where
  "correct_with cfg F c f = {s \<in> config_nodes cfg - F. f s \<in> snd ` set (net c)}"

lemma correct_with_bound:
  assumes "explained E cfg F c inp out" and "finite F" and "a \<in> config_nodes cfg - F"
    and "at_least n (\<lambda>s. f s \<in> input_msgs (inp a))"
    and "\<And>s. sender_of (f s) = Some s \<and> \<not> is_Speculate (f s)"
  shows "n \<le> card (correct_with cfg F c f) + card F"
proof -
  have "card {s \<in> config_nodes cfg - F. f s \<in> sent (out s)} \<le> card (correct_with cfg F c f)"
    using sent_in_net [OF assms(1)] by (intro card_mono) (auto simp: correct_with_def)
  with correct_senders [OF assms] show ?thesis by linarith
qed

section \<open>A cluster that repairs\<close>

text \<open>Node \<open>r5\<close> is faulty and forges a conflict proof; the five others repair round 0 with each
  other's messages.\<close>

definition to_all :: "message \<Rightarrow> action list" where
  "to_all m = map (\<lambda>i. Deliver (node_name i) m) [0..<5]"

definition repair_schedule :: "action list" where
  "repair_schedule =
     Inject (None, ConflictProof 0 0) # to_all (ConflictProof 0 0) @
     concat (map (\<lambda>i. to_all (LogMsg (node_name i) 0 0 zero_hash)) [0..<5]) @
     to_all (RepairHistory ''r0'' 0 0 5) @
     concat (map (\<lambda>i. to_all (RepairPrepare (node_name i) 0 0 5)) [0..<5]) @
     concat (map (\<lambda>i. to_all (RepairCommit (node_name i) 0 0 5)) [0..<5])"

definition repaired :: "cluster \<Rightarrow> node_id \<Rightarrow> bool" where
  "repaired c n \<longleftrightarrow> phase (state (members c n)) = Speculative \<and> round (state (members c n)) = 1 \<and>
     kv_size (state (members c n)) = 5 \<and> (None, RepairDone n 0 0 5) \<in> set (net c)"

lemma repair_schedule_check:
  "(case acts demo_env six_config {''r5''} repair_schedule (cluster_new six_config) of
      None \<Rightarrow> False
    | Some c \<Rightarrow> crashed c = {} \<and> list_all (repaired c) [''r0'', ''r1'', ''r2'', ''r3'', ''r4''])"
  by code_simp

lemma repaired_cluster:
  obtains c where "reachable demo_env six_config {''r5''} c" and "crashed c = {}"
    and "list_all (repaired c) [''r0'', ''r1'', ''r2'', ''r3'', ''r4'']"
proof (cases "acts demo_env six_config {''r5''} repair_schedule (cluster_new six_config)")
  case None
  then show ?thesis using repair_schedule_check by simp
next
  case (Some c)
  then have "reachable demo_env six_config {''r5''} c" by (rule acts_reachable [OF reachable.start])
  with Some that [of c] repair_schedule_check show ?thesis by simp
qed

lemma correct_members: "''r0'' \<in> config_nodes six_config - {''r5''}" "''r1'' \<in> config_nodes six_config - {''r5''}"
  using six_members by (simp_all add: six_nodes_set)

section \<open>Properties\<close>

text \<open>C1: Agreement in a cluster. In every reachable state of a cluster with at most \<open>f\<close> faulty nodes,
  whatever was delivered, lost, repeated, reordered or forged in their names, two REPAIR-DONEs of
  correct nodes for the same round that are in the network carry the same view and the same history.\<close>

theorem cluster_repair_agreement:
  assumes "bft_config cfg" and "finite F" and "card F \<le> unat (cfg_f cfg)"
    and "overflow_checks E" and "iter_ok E" and "reachable E cfg F c"
    and "a \<in> config_nodes cfg - F" and "(p, RepairDone a va rd ha) \<in> set (net c)"
    and "b \<in> config_nodes cfg - F" and "(q, RepairDone b vb rd hb) \<in> set (net c)"
  shows "va = vb \<and> ha = hb"
proof -
  obtain inp out where ex: "explained E cfg F c inp out"
    using reachable_explained [OF assms(1,6)] by blast
  have "RepairDone a va rd ha \<in> sent (out a)" "RepairDone b vb rd hb \<in> sent (out b)"
    using reachable_packet [OF ex] assms(7-10) by force+
  with done_agree [OF assms(1-5) _ _ assms(7) _ assms(9)] ex show ?thesis
    by (auto simp: explained_def)
qed

lemma cluster_repair_agreement_witness:
  "\<exists>c. reachable demo_env six_config {''r5''} c \<and>
     (\<exists>va ha vb hb. (None, RepairDone ''r0'' va 0 ha) \<in> set (net c) \<and>
        (None, RepairDone ''r1'' vb 0 hb) \<in> set (net c) \<and> va = vb \<and> ha = hb)"
proof -
  obtain c where c: "reachable demo_env six_config {''r5''} c"
    "list_all (repaired c) [''r0'', ''r1'', ''r2'', ''r3'', ''r4'']"
    by (rule repaired_cluster)
  then have d: "(None, RepairDone ''r0'' 0 0 5) \<in> set (net c)" "(None, RepairDone ''r1'' 0 0 5) \<in> set (net c)"
    by (simp_all add: repaired_def)
  have "(0 :: u64) = 0 \<and> (5 :: u64) = 5"
    by (rule cluster_repair_agreement [OF six_config_bft _ _ _ _ c(1) correct_members(1) d(1) correct_members(2) d(2)])
      (simp_all add: six_config_def)
  with c(1) d show ?thesis by blast
qed

text \<open>C14: What a finished repair rests on. In every reachable state of a cluster, when a REPAIR-DONE of
  a correct node is in the network, so are REPAIR-COMMITs and REPAIR-PREPAREs for its view, round and
  history from as many correct nodes as a Byzantine quorum has beyond the faulty ones.\<close>

theorem cluster_done_backed:
  assumes "bft_config cfg" and "finite F" and "card F \<le> unat (cfg_f cfg)" and "iter_ok E"
    and "reachable E cfg F c" and "a \<in> config_nodes cfg - F"
    and "(p, RepairDone a v rd h) \<in> set (net c)"
  shows "unat (byz_quorum cfg) \<le> card (correct_with cfg F c (\<lambda>s. RepairCommit s v rd h)) + card F \<and>
    unat (byz_quorum cfg) \<le> card (correct_with cfg F c (\<lambda>s. RepairPrepare s v rd h)) + card F"
proof -
  obtain inp out where ex: "explained E cfg F c inp out"
    using reachable_explained [OF assms(1,5)] by blast
  have "RepairDone a v rd h \<in> sent (out a)"
    using reachable_packet [OF ex] assms(6,7) by force
  from node_evidence [OF ex assms(6,4) this]
  have commits: "at_least (unat (byz_quorum cfg)) (\<lambda>s. RepairCommit s v rd h \<in> input_msgs (inp a))"
    by simp
  let ?C = "{s \<in> config_nodes cfg - F. RepairCommit s v rd h \<in> sent (out s)}"
  have "unat (byz_quorum cfg) \<le> card ?C + card F"
    by (rule correct_senders [OF ex assms(2,6) commits]) simp
  moreover have "unat (byz_quorum cfg) > unat (cfg_f cfg)"
    using bft_config_bound [OF assms(1)] by (simp add: bft_config_facts [OF assms(1)])
  ultimately have "?C \<noteq> {}" using assms(3) by (metis add_0 card.empty leD le_trans)
  then obtain s where s: "s \<in> config_nodes cfg - F" "RepairCommit s v rd h \<in> sent (out s)"
    by blast
  from node_evidence [OF ex s(1) assms(4) s(2)]
  have prepares: "at_least (unat (byz_quorum cfg)) (\<lambda>q. RepairPrepare q v rd h \<in> input_msgs (inp s))"
    by simp
  show ?thesis
    using correct_with_bound [OF ex assms(2,6) commits] correct_with_bound [OF ex assms(2) s(1) prepares]
    by simp
qed

lemma cluster_done_backed_witness:
  "\<exists>c. reachable demo_env six_config {''r5''} c \<and>
     5 \<le> card (correct_with six_config {''r5''} c (\<lambda>s. RepairPrepare s 0 0 5)) + card {''r5''}"
proof -
  obtain c where c: "reachable demo_env six_config {''r5''} c"
    "list_all (repaired c) [''r0'', ''r1'', ''r2'', ''r3'', ''r4'']"
    by (rule repaired_cluster)
  then have d: "(None, RepairDone ''r0'' 0 0 5) \<in> set (net c)"
    by (simp add: repaired_def)
  have "unat (byz_quorum six_config) = 5" by simp
  with cluster_done_backed [OF six_config_bft _ _ _ c(1) correct_members(1) d] c(1)
  show ?thesis by (intro exI [of _ c]) (simp add: six_config_def)
qed

end
