(* ===== verification/Repair_Run.thy ===== *)
theory Repair_Run
  imports Scenario
begin

text \<open>
  Progress of REPAIR: a replica that collects logs and then receives the leader's history, prepares
  and commits for it from a Byzantine quorum each, finishes the repair. The theory follows the
  replica through the three phases; no other message for the view and round interferes, and the
  thresholds, the store and the rest of the state are arbitrary.
\<close>

section \<open>The phases of a repair\<close>

text \<open>A replica in REPAIR that knows one history for its view and round and no REPAIR-DONE.\<close>

definition one_history :: "replica \<Rightarrow> u64 \<Rightarrow> bool" where
  "one_history r h \<longleftrightarrow> in_repair (state r) \<and> 0 < unat (byz_quorum (config r)) \<and> 0 < unat (f_plus_1 (config r)) \<and>
     (\<forall>s h'. RepairHistory s (view (state r)) (round (state r)) h' |\<in>| repair_history_msgs (state r) \<longrightarrow> h' = h) \<and>
     (\<forall>s h'. RepairDone s (view (state r)) (round (state r)) h' |\<notin>| repair_done_msgs (state r))"

definition prepared_by :: "replica \<Rightarrow> u64 \<Rightarrow> node_id set" where
  "prepared_by r h = {s. RepairPrepare s (view (state r)) (round (state r)) h |\<in>| repair_prepare_msgs (state r)}"

definition committed_by :: "replica \<Rightarrow> u64 \<Rightarrow> node_id set" where
  "committed_by r h = {s. RepairCommit s (view (state r)) (round (state r)) h |\<in>| repair_commit_msgs (state r)}"

lemma prepare_count:
  "count_matching (prepare_matches (view (state r)) (round (state r)) h) (repair_prepare_msgs (state r)) =
     card (prepared_by r h)"
proof -
  have "senders (prepare_matches (view (state r)) (round (state r)) h) (repair_prepare_msgs (state r)) = prepared_by r h"
    by (auto simp: senders_Collect prepare_matches_iff prepared_by_def)
  then show ?thesis by (simp add: count_eq_senders one_per_sender_patterns)
qed

lemma commit_count:
  "count_matching (commit_matches (view (state r)) (round (state r)) h) (repair_commit_msgs (state r)) =
     card (committed_by r h)"
proof -
  have "senders (commit_matches (view (state r)) (round (state r)) h) (repair_commit_msgs (state r)) = committed_by r h"
    by (auto simp: senders_Collect commit_matches_iff committed_by_def)
  then show ?thesis by (simp add: count_eq_senders one_per_sender_patterns)
qed

lemma done_none:
  assumes "one_history r h"
  shows "can_repair_done_catchup r = None"
proof -
  have "\<not> done_matches (view (state r)) (round (state r)) m" if "m |\<in>| repair_done_msgs (state r)" for m
    using that assms by (cases m) (auto simp: one_history_def)
  then have "{m \<in> fset (repair_done_msgs (state r)). done_matches (view (state r)) (round (state r)) m} = {}"
    by auto
  then have "count_matching (done_matches (view (state r)) (round (state r))) (repair_done_msgs (state r)) = 0"
    unfolding count_matching_card by (simp only: card.empty)
  then show ?thesis using assms by (simp add: can_repair_done_catchup_def Let_def one_history_def)
qed

text \<open>The guard of the prepare vote finds the one history, in any iteration order.\<close>

lemma find_map_one:
  assumes "\<exists>x \<in> set xs. \<exists>y. g x = Some y" and "\<And>x y. x \<in> set xs \<Longrightarrow> g x = Some y \<Longrightarrow> y = h"
  shows "find_map g xs = Some h"
  using assms by (induction xs) (auto split: option.splits)

lemma prepare_guard:
  assumes "iter_ok E" and "one_history r h" and "phase (state r) \<in> {CollectingLogs, PreparePhase}"
    and "RepairHistory s (view (state r)) (round (state r)) h |\<in>| repair_history_msgs (state r)"
  shows "can_repair_prepare E r = Some h"
proof -
  have "find_map (history_of (view (state r)) (round (state r))) (iter_msgs E (repair_history_msgs (state r))) = Some h"
  proof (rule find_map_one)
    show "\<exists>x \<in> set (iter_msgs E (repair_history_msgs (state r))). \<exists>y.
        history_of (view (state r)) (round (state r)) x = Some y"
      using assms(4) by (auto simp: iter_ok_set [OF assms(1)] history_of_Some intro!: bexI [OF _ assms(4)])
    show "y = h" if "x \<in> set (iter_msgs E (repair_history_msgs (state r)))"
      "history_of (view (state r)) (round (state r)) x = Some y" for x y
      using that assms(2) by (auto simp: iter_ok_set [OF assms(1)] history_of_Some one_history_def)
  qed
  then show ?thesis using assms(3) by (auto simp: can_repair_prepare_def)
qed

text \<open>Guards that are closed in REPAIR.\<close>

lemma closed_guards:
  assumes "phase (state r) \<in> repair_phases"
  shows "can_speculate r m = None" "can_send_sync_threshold r = None" "can_form_checkpoint r = None"
    "can_enter_align r = None" "can_conflict_proof r = None" "can_timeout_proof r = None"
    "can_state_reply r m = None" "in_repair (state r) \<Longrightarrow> can_enter_repair r m = None"
  using assms
  by (auto simp: can_speculate_def can_send_sync_threshold_def can_form_checkpoint_def can_enter_align_def
      can_conflict_proof_def can_timeout_proof_def can_state_reply_def can_enter_repair_def)

definition voting :: "replica \<Rightarrow> u64 \<Rightarrow> bool" where
  "voting r h \<longleftrightarrow> one_history r h \<and> phase (state r) = PreparePhase \<and> proposed_history_hash (state r) = h \<and>
     (\<exists>s. RepairHistory s (view (state r)) (round (state r)) h |\<in>| repair_history_msgs (state r)) \<and>
     committed_by r h = {}"

lemma prepare_again:
  assumes "phase (state r) = PreparePhase" and "proposed_history_hash (state r) = h"
  shows "handle_repair_prepare r h =
    (r, [Broadcast (RepairPrepare (node_id (state r)) (view (state r)) (round (state r)) h)])"
  using assms by (cases r) (simp add: handle_repair_prepare_def)

lemma prepare_message:
  assumes "iter_ok E" and "voting r h" and m: "m = RepairPrepare s (view (state r)) (round (state r)) h"
    and r': "r' = state_update (repair_prepare_msgs_update (finsert m)) r"
  shows "prepared_by r' h = insert s (prepared_by r h)"
    and "process_message E m r = Inr
      (if unat (byz_quorum (config r)) \<le> card (insert s (prepared_by r h))
       then (state_update (\<lambda>t. t\<lparr>phase := CommitPhase\<rparr>) r',
             [Broadcast (RepairPrepare (node_id (state r)) (view (state r)) (round (state r)) h),
              Broadcast (RepairCommit (node_id (state r)) (view (state r)) (round (state r)) h)])
       else (r', [Broadcast (RepairPrepare (node_id (state r)) (view (state r)) (round (state r)) h)]))"
proof -
  show p: "prepared_by r' h = insert s (prepared_by r h)"
    by (auto simp: prepared_by_def r' m)
  have ph: "phase (state r) = PreparePhase" and hval: "proposed_history_hash (state r) = h"
    and hist: "one_history r h" and inr: "in_repair (state r)" and none: "committed_by r h = {}"
    using assms(2) by (auto simp: voting_def one_history_def)
  obtain q where "RepairHistory q (view (state r)) (round (state r)) h |\<in>| repair_history_msgs (state r)"
    using assms(2) unfolding voting_def by blast
  from prepare_guard [OF assms(1) hist _ this] have pg: "can_repair_prepare E r = Some h" by (simp add: ph)
  have rep: "phase (state r) \<in> repair_phases" using ph by simp
  have commit: "can_repair_commit r' =
      (if unat (byz_quorum (config r)) \<le> card (insert s (prepared_by r h)) then Some h else None)"
    using prepare_count [of r' h] p ph hval by (simp add: can_repair_commit_def r' Let_def)
  have h': "one_history r' h" using hist by (simp add: one_history_def r')
  let ?c = "state_update (\<lambda>t. t\<lparr>phase := CommitPhase\<rparr>) r'"
  have hc: "one_history ?c h" using h' by (simp add: one_history_def)
  have "count_matching (commit_matches (view (state r)) (round (state r)) h) (repair_commit_msgs (state r)) = 0"
    using commit_count [of r h] none by simp
  then have unapplied: "can_apply_repair r' = None" "can_apply_repair ?c = None"
    using ph hval hist by (simp_all add: can_apply_repair_def r' Let_def one_history_def)
  show "process_message E m r = Inr
      (if unat (byz_quorum (config r)) \<le> card (insert s (prepared_by r h))
       then (?c, [Broadcast (RepairPrepare (node_id (state r)) (view (state r)) (round (state r)) h),
              Broadcast (RepairCommit (node_id (state r)) (view (state r)) (round (state r)) h)])
       else (r', [Broadcast (RepairPrepare (node_id (state r)) (view (state r)) (round (state r)) h)]))"
    using closed_guards [OF rep] inr pg commit unapplied done_none [OF h'] done_none [OF hc] ph
      prepare_again [OF ph hval]
    by (simp add: process_message_def message_steps_def receive_defs store_defs Let_def m
        can_broadcast_history_def handle_repair_commit_def r' hval)
qed

text \<open>The leader's history moves a replica to the prepare phase: one that collects logs, also when it is
  itself the leader and proposes another history first, and the leader that has proposed.\<close>

definition same_place :: "replica \<Rightarrow> replica \<Rightarrow> bool" where
  "same_place r r' \<longleftrightarrow> config r' = config r \<and> node_id (state r') = node_id (state r) \<and>
     view (state r') = view (state r) \<and> round (state r') = round (state r)"

text \<open>A replica that holds the same messages for REPAIR.\<close>

definition same_votes :: "replica \<Rightarrow> replica \<Rightarrow> bool" where
  "same_votes r r' \<longleftrightarrow> log_msgs (state r') = log_msgs (state r) \<and>
     repair_history_msgs (state r') = repair_history_msgs (state r) \<and>
     repair_prepare_msgs (state r') = repair_prepare_msgs (state r) \<and>
     repair_commit_msgs (state r') = repair_commit_msgs (state r) \<and>
     repair_done_msgs (state r') = repair_done_msgs (state r)"

lemma history_message:
  assumes "iter_ok E" and "one_history r h" and ph: "phase (state r) \<in> {CollectingLogs, PreparePhase}"
    and none: "prepared_by r h = {}" "committed_by r h = {}"
    and m: "m = RepairHistory q (view (state r)) (round (state r)) h"
  shows "\<exists>r' es. process_message E m r = Inr (r', es) \<and> voting r' h \<and> same_place r r' \<and>
    prepared_by r' h = {} \<and> Broadcast (RepairPrepare (node_id (state r)) (view (state r)) (round (state r)) h) \<in> set es"
proof -
  obtain r1 es1 where r1: "(case can_broadcast_history r of Some k \<Rightarrow> handle_broadcast_history r k | None \<Rightarrow> (r, [])) = (r1, es1)"
    by (cases "case can_broadcast_history r of Some k \<Rightarrow> handle_broadcast_history r k | None \<Rightarrow> (r, [])") auto
  then have s1: "phase (state r1) \<in> {CollectingLogs, PreparePhase}" "same_place r r1"
    "repair_history_msgs (state r1) = repair_history_msgs (state r)"
    "repair_prepare_msgs (state r1) = repair_prepare_msgs (state r)"
    "repair_commit_msgs (state r1) = repair_commit_msgs (state r)"
    "repair_done_msgs (state r1) = repair_done_msgs (state r)" "in_repair (state r1) = in_repair (state r)"
    using ph by (auto simp: handle_broadcast_history_def same_place_def split: option.splits)
  let ?r2 = "state_update (repair_history_msgs_update (finsert m)) r1"
  have h2: "one_history ?r2 h"
    using assms(2) s1 by (auto simp: one_history_def m same_place_def)
  have pg: "can_repair_prepare E ?r2 = Some h"
    by (rule prepare_guard [OF assms(1) h2, of q]) (use s1 in \<open>auto simp: m same_place_def\<close>)
  let ?r3 = "state_update (\<lambda>s. s\<lparr>phase := PreparePhase, proposed_history_hash := h\<rparr>) ?r2"
  have h3: "one_history ?r3 h" using h2 by (simp add: one_history_def)
  have p3: "prepared_by ?r3 h = {}" "committed_by ?r3 h = {}"
    using none s1 by (auto simp: prepared_by_def committed_by_def same_place_def)
  have "can_repair_commit ?r3 = None"
    using prepare_count [of ?r3 h] p3(1) h3 by (simp add: can_repair_commit_def Let_def one_history_def)
  moreover have "can_apply_repair ?r3 = None" by (simp add: can_apply_repair_def)
  moreover have "in_repair (state r)" using assms(2) by (simp add: one_history_def)
  ultimately have "process_message E m r = Inr (?r3, es1 @ [Broadcast (RepairPrepare (node_id (state r1)) (view (state r1)) (round (state r1)) h)])"
    using closed_guards [of r] ph r1 pg done_none [OF h3]
    by (auto simp: process_message_def message_steps_def receive_defs store_defs Let_def m
        handle_repair_prepare_def bind_outcome_def split: option.splits prod.splits)
  moreover have "voting ?r3 h"
    using h3 p3 s1 by (auto simp: voting_def m same_place_def)
  ultimately show ?thesis using s1(2) p3(1) by (auto simp: same_place_def)
qed

text \<open>A quorum of prepares.\<close>

lemma finite_voters [simp]: "finite (prepared_by r h)" "finite (committed_by r h)"
proof -
  have "prepared_by r h = senders (prepare_matches (view (state r)) (round (state r)) h) (repair_prepare_msgs (state r))"
    "committed_by r h = senders (commit_matches (view (state r)) (round (state r)) h) (repair_commit_msgs (state r))"
    by (auto simp: senders_Collect prepare_matches_iff commit_matches_iff prepared_by_def committed_by_def)
  then show "finite (prepared_by r h)" "finite (committed_by r h)" by simp_all
qed

definition committing :: "replica \<Rightarrow> u64 \<Rightarrow> bool" where
  "committing r h \<longleftrightarrow> one_history r h \<and> phase (state r) = CommitPhase \<and> proposed_history_hash (state r) = h"

lemma replica_run_Cons:
  "process_message E m r = Inr (r1, es) \<Longrightarrow> replica_run E (InMessage m # inputs) r =
     bind_outcome (replica_run E inputs r1) (\<lambda>(r2, fs). Inr (r2, es @ fs))"
  by (simp add: replica_run_def)

lemma prepares_run:
  assumes "iter_ok E"
  shows "voting r h \<Longrightarrow> distinct ss \<Longrightarrow> set ss \<inter> prepared_by r h = {} \<Longrightarrow> ss \<noteq> [] \<Longrightarrow>
    card (prepared_by r h) + length ss = unat (byz_quorum (config r)) \<Longrightarrow>
    v = view (state r) \<Longrightarrow> rd = round (state r) \<Longrightarrow>
    \<exists>r' es. replica_run E (map (\<lambda>s. InMessage (RepairPrepare s v rd h)) ss) r = Inr (r', es) \<and>
      committing r' h \<and> committed_by r' h = {} \<and> same_place r r' \<and>
      Broadcast (RepairCommit (node_id (state r)) v rd h) \<in> set es"
proof (induction ss arbitrary: r)
  case (Cons s ss)
  let ?m = "RepairPrepare s v rd h"
  let ?r1 = "state_update (repair_prepare_msgs_update (finsert ?m)) r"
  have new: "s \<notin> prepared_by r h" using Cons.prems(3) by auto
  then have c: "card (insert s (prepared_by r h)) = Suc (card (prepared_by r h))" by simp
  have m: "?m = RepairPrepare s (view (state r)) (round (state r)) h" using Cons.prems(6,7) by simp
  note step = prepare_message [OF assms Cons.prems(1) m refl]
  show ?case
  proof (cases ss)
    case Nil
    let ?r2 = "state_update (\<lambda>t. t\<lparr>phase := CommitPhase\<rparr>) ?r1"
    have "committing ?r2 h \<and> committed_by ?r2 h = {} \<and> same_place r ?r2"
      using Cons.prems(1) by (auto simp: committing_def voting_def one_history_def committed_by_def same_place_def)
    then show ?thesis
      using step(2) c Cons.prems(5-7) Nil
      by (intro exI [of _ ?r2]) (simp add: replica_run_Cons replica_run_def)
  next
    case (Cons s' ss')
    have v1: "voting ?r1 h" and pl: "same_place r ?r1"
      using Cons.prems(1) by (auto simp: voting_def one_history_def committed_by_def same_place_def)
    have "\<not> unat (byz_quorum (config r)) \<le> card (insert s (prepared_by r h))"
      using Cons.prems(5) c Cons by simp
    then have one: "process_message E ?m r = Inr (?r1, [Broadcast (RepairPrepare (node_id (state r)) v rd h)])"
      using step(2) Cons.prems(6,7) by simp
    have p1: "prepared_by ?r1 h = insert s (prepared_by r h)" by (rule step(1))
    have count: "card (prepared_by ?r1 h) + length ss = unat (byz_quorum (config ?r1))"
      unfolding p1 using c Cons.prems(5) by simp
    have fresh: "set ss \<inter> prepared_by ?r1 h = {}" unfolding p1 using Cons.prems(2,3) by auto
    have "distinct ss" "ss \<noteq> []" "v = view (state ?r1)" "rd = round (state ?r1)"
      using Cons.prems(2,6,7) Cons by simp_all
    from Cons.IH [OF v1 this(1) fresh this(2) count this(3,4)] obtain r' es where
      r': "replica_run E (map (\<lambda>s. InMessage (RepairPrepare s v rd h)) ss) ?r1 = Inr (r', es)"
      "committing r' h" "committed_by r' h = {}" "same_place ?r1 r'"
      "Broadcast (RepairCommit (node_id (state ?r1)) v rd h) \<in> set es"
      by blast
    have "same_place r r'" using pl r'(4) by (simp add: same_place_def)
    moreover have "node_id (state ?r1) = node_id (state r)" by simp
    ultimately show ?thesis
      using r'(2,3,5) by (auto simp: replica_run_Cons [OF one] r'(1))
  qed
qed simp


text \<open>A quorum of commits.\<close>

lemma commit_message:
  assumes "committing r h" and m: "m = RepairCommit s (view (state r)) (round (state r)) h"
    and r': "r' = state_update (repair_commit_msgs_update (finsert m)) r"
  shows "committed_by r' h = insert s (committed_by r h)"
    and "committing r' h" and "same_place r r'"
    and "\<not> unat (byz_quorum (config r)) \<le> card (insert s (committed_by r h)) \<Longrightarrow>
      process_message E m r = Inr (r', [])"
proof -
  show c: "committed_by r' h = insert s (committed_by r h)" by (auto simp: committed_by_def r' m)
  show k: "committing r' h" using assms(1) by (simp add: committing_def one_history_def r')
  show "same_place r r'" by (simp add: same_place_def r')
  show "process_message E m r = Inr (r', [])"
    if few: "\<not> unat (byz_quorum (config r)) \<le> card (insert s (committed_by r h))"
  proof -
    have ph: "phase (state r) = CommitPhase" and inr: "in_repair (state r)"
      and hval: "proposed_history_hash (state r) = h"
      using assms(1) by (auto simp: committing_def one_history_def)
    have "can_apply_repair r' = None"
      using commit_count [of r' h] c few ph hval by (simp add: can_apply_repair_def r' Let_def)
    moreover have "can_repair_done_catchup r' = None"
      by (rule done_none [of _ h]) (use k in \<open>simp add: committing_def\<close>)
    moreover have "phase (state r) \<in> repair_phases" using ph by simp
    ultimately show ?thesis
      using closed_guards [of r] ph inr
      by (simp add: process_message_def message_steps_def receive_defs store_defs Let_def m
          can_broadcast_history_def can_repair_prepare_def can_repair_commit_def r')
  qed
qed

definition finished :: "replica \<Rightarrow> u64 \<Rightarrow> replica \<Rightarrow> bool" where
  "finished r h r' \<longleftrightarrow> phase (state r') = Speculative \<and> \<not> in_repair (state r') \<and>
     round (state r') = round (state r) + 1 \<and> kv_size (state r') = h \<and>
     (h \<noteq> 0 \<longrightarrow> synthetic_log h (kv_store (state r')))"

lemma commits_run:
  "committing r h \<Longrightarrow> round (state r) \<noteq> - 1 \<Longrightarrow> distinct ss \<Longrightarrow> set ss \<inter> committed_by r h = {} \<Longrightarrow>
    ss \<noteq> [] \<Longrightarrow> card (committed_by r h) + length ss = unat (byz_quorum (config r)) \<Longrightarrow>
    v = view (state r) \<Longrightarrow> rd = round (state r) \<Longrightarrow>
    \<exists>r' es. replica_run E (map (\<lambda>s. InMessage (RepairCommit s v rd h)) ss) r = Inr (r', es) \<and>
      finished r h r' \<and> Broadcast (RepairDone (node_id (state r)) v rd h) \<in> set es"
proof (induction ss arbitrary: r)
  case (Cons s ss)
  let ?m = "RepairCommit s v rd h"
  let ?r1 = "state_update (repair_commit_msgs_update (finsert ?m)) r"
  have m: "?m = RepairCommit s (view (state r)) (round (state r)) h" using Cons.prems(7,8) by simp
  note step = commit_message(1-3) [OF Cons.prems(1) m refl] commit_message(4) [OF Cons.prems(1) m refl, of E]
  have c: "card (insert s (committed_by r h)) = Suc (card (committed_by r h))"
    using Cons.prems(4) by simp
  have ph: "phase (state r) = CommitPhase" "in_repair (state r)" "proposed_history_hash (state r) = h"
    using Cons.prems(1) by (auto simp: committing_def one_history_def)
  show ?case
  proof (cases ss)
    case Nil
    have "{s. RepairCommit s (view (state r)) (round (state r)) (proposed_history_hash (state r))
        |\<in>| finsert ?m (repair_commit_msgs (state r))} = insert s (committed_by r h)"
      using m ph(3) by (auto simp: committed_by_def)
    then have quorum: "unat (byz_quorum (config r)) \<le> card {s. RepairCommit s (view (state r)) (round (state r))
        (proposed_history_hash (state r)) |\<in>| finsert ?m (repair_commit_msgs (state r))}"
      using c Cons.prems(6) Nil by simp
    from commit_quorum_completes [OF ph(1,2) Cons.prems(2) _ quorum, of s E] m ph(3)
    obtain r' es where r': "process_message E ?m r = Inr (r', es)" "finished r h r'"
      "Broadcast (RepairDone (node_id (state r)) v rd h) \<in> set es"
      unfolding finished_def Cons.prems(7,8) by auto
    from r'(1) have "replica_run E [InMessage ?m] r = Inr (r', es)"
      by (simp add: replica_run_def)
    with r'(2,3) Nil show ?thesis by (intro exI [of _ r'] exI [of _ es]) simp
  next
    case (Cons s' ss')
    have one: "process_message E ?m r = Inr (?r1, [])"
      by (rule step(4)) (use c Cons.prems(6) Cons in simp)
    have count: "card (committed_by ?r1 h) + length ss = unat (byz_quorum (config ?r1))"
      unfolding step(1) using c Cons.prems(6) by simp
    have fresh: "set ss \<inter> committed_by ?r1 h = {}" unfolding step(1) using Cons.prems(3,4) by auto
    have side: "round (state ?r1) \<noteq> - 1" "distinct ss" "ss \<noteq> []" "v = view (state ?r1)" "rd = round (state ?r1)"
      using Cons.prems(2,3,7,8) Cons by simp_all
    from Cons.IH [OF step(2) side(1,2) fresh side(3) count side(4,5)] obtain r' es where
      r': "replica_run E (map (\<lambda>s. InMessage (RepairCommit s v rd h)) ss) ?r1 = Inr (r', es)"
      "finished ?r1 h r'" "Broadcast (RepairDone (node_id (state ?r1)) v rd h) \<in> set es"
      by blast
    have "finished r h r'" "Broadcast (RepairDone (node_id (state r)) v rd h) \<in> set es"
      using r'(2,3) by (simp_all add: finished_def)
    then show ?thesis by (auto simp: replica_run_Cons [OF one] r'(1))
  qed
qed simp

text \<open>No vote, proposal or completion for the replica's view and round has arrived.\<close>

definition no_votes :: "replica \<Rightarrow> bool" where
  "no_votes r \<longleftrightarrow> (\<forall>s h.
     RepairHistory s (view (state r)) (round (state r)) h |\<notin>| repair_history_msgs (state r) \<and>
     RepairPrepare s (view (state r)) (round (state r)) h |\<notin>| repair_prepare_msgs (state r) \<and>
     RepairCommit s (view (state r)) (round (state r)) h |\<notin>| repair_commit_msgs (state r) \<and>
     RepairDone s (view (state r)) (round (state r)) h |\<notin>| repair_done_msgs (state r))"

section \<open>Collecting logs\<close>

text \<open>The nodes whose LOG for its view and round a replica holds.\<close>

definition logged_by :: "replica \<Rightarrow> node_id set" where
  "logged_by r = {s. \<exists>d. LogMsg s (view (state r)) (round (state r)) d |\<in>| log_msgs (state r)}"

lemma log_senders: "senders (log_matches (view (state r)) (round (state r))) (log_msgs (state r)) = logged_by r"
  by (auto simp: senders_Collect log_matches_iff logged_by_def)

lemma finite_logged [simp]: "finite (logged_by r)"
  unfolding log_senders [symmetric] by simp

text \<open>A leader that waits for logs: no vote for its view and round has arrived.\<close>

definition awaiting_logs :: "replica \<Rightarrow> bool" where
  "awaiting_logs r \<longleftrightarrow> phase (state r) = CollectingLogs \<and> in_repair (state r) \<and> is_leader r \<and> no_votes r \<and>
     0 < unat (byz_quorum (config r)) \<and> 0 < unat (f_plus_1 (config r))"

lemma no_votes_one_history:
  assumes "no_votes r" and "in_repair (state r)"
    and "0 < unat (byz_quorum (config r))" and "0 < unat (f_plus_1 (config r))"
  shows "one_history r h" and "prepared_by r h = {}" and "committed_by r h = {}"
  using assms by (auto simp: one_history_def no_votes_def prepared_by_def committed_by_def)

lemma find_map_none: "(\<And>x. x \<in> set xs \<Longrightarrow> g x = None) \<Longrightarrow> find_map g xs = None"
  by (induction xs) auto

lemma no_votes_prepare:
  assumes "iter_ok E" and "no_votes r"
  shows "can_repair_prepare E r = None"
proof -
  have "history_of (view (state r)) (round (state r)) m = None" if "m |\<in>| repair_history_msgs (state r)" for m
    using that assms(2) by (cases m) (auto simp: no_votes_def)
  then show ?thesis
    using iter_ok_set [OF assms(1)] by (auto simp: can_repair_prepare_def intro!: find_map_none)
qed

lemma log_message:
  assumes "iter_ok E" and "awaiting_logs r" and m: "m = LogMsg s (view (state r)) (round (state r)) d"
    and r': "r' = state_update (log_msgs_update (finsert m)) r"
  shows "logged_by r' = insert s (logged_by r)" and "awaiting_logs r'"
    and "process_message E m r = Inr
      (if unat (byz_quorum (config r)) \<le> card (insert s (logged_by r))
       then handle_broadcast_history r' (of_nat (card (insert s (logged_by r))))
       else (r', []))"
proof -
  show l: "logged_by r' = insert s (logged_by r)" by (auto simp: logged_by_def r' m)
  show w: "awaiting_logs r'" using assms(2) by (simp add: awaiting_logs_def no_votes_def r' is_leader_def split: if_splits)
  let ?h = "of_nat (card (insert s (logged_by r))) :: u64"
  let ?p = "fst (handle_broadcast_history r' ?h)"
  have propose: "can_broadcast_history r' =
      (if unat (byz_quorum (config r)) \<le> card (insert s (logged_by r)) then Some ?h else None)"
    using w log_senders [of r'] l by (simp add: can_broadcast_history_def awaiting_logs_def Let_def r')
  have nv: "no_votes r'" "no_votes ?p" "in_repair (state ?p)"
    "0 < unat (byz_quorum (config ?p))" "0 < unat (f_plus_1 (config ?p))"
    using w by (simp_all add: awaiting_logs_def no_votes_def handle_broadcast_history_def)
  note one = no_votes_one_history [OF nv(2-5)]
  have p: "can_repair_commit ?p = None" "can_apply_repair ?p = None" "can_repair_done_catchup ?p = None"
    using prepare_count [of ?p ?h] one(2) nv(4) done_none [OF one(1)]
    by (simp_all add: can_repair_commit_def can_apply_repair_def Let_def handle_broadcast_history_def)
  have r: "can_repair_commit r' = None" "can_apply_repair r' = None" "can_repair_done_catchup r' = None"
    using w by (auto simp: can_repair_commit_def can_apply_repair_def awaiting_logs_def
        intro!: done_none no_votes_one_history)
  have "phase (state r) \<in> repair_phases" "in_repair (state r)"
    using assms(2) by (simp_all add: awaiting_logs_def)
  then show "process_message E m r = Inr
      (if unat (byz_quorum (config r)) \<le> card (insert s (logged_by r))
       then handle_broadcast_history r' ?h else (r', []))"
    using closed_guards [of r] propose p r no_votes_prepare [OF assms(1) nv(1)] no_votes_prepare [OF assms(1) nv(2)]
    by (simp add: process_message_def message_steps_def receive_defs store_defs Let_def m r' [unfolded m]
        handle_broadcast_history_def)
qed

definition proposed :: "replica \<Rightarrow> replica \<Rightarrow> bool" where
  "proposed r r' \<longleftrightarrow> phase (state r') = PreparePhase \<and> in_repair (state r') \<and> no_votes r' \<and> same_place r r'"

lemma logs_run:
  assumes "iter_ok E"
  shows "awaiting_logs r \<Longrightarrow> ss \<noteq> [] \<Longrightarrow>
    unat (byz_quorum (config r)) \<le> card (set ss \<union> logged_by r) \<Longrightarrow>
    v = view (state r) \<Longrightarrow> rd = round (state r) \<Longrightarrow>
    \<exists>k r' es N. replica_run E (map (\<lambda>s. InMessage (LogMsg s v rd (d s))) (take k ss)) r = Inr (r', es) \<and>
      proposed r r' \<and> Broadcast (RepairHistory (node_id (state r)) v rd (of_nat N)) \<in> set es \<and>
      unat (byz_quorum (config r)) \<le> N \<and> N \<le> card (set ss \<union> logged_by r)"
proof (induction ss arbitrary: r)
  case (Cons s ss)
  let ?m = "LogMsg s v rd (d s)"
  let ?r1 = "state_update (log_msgs_update (finsert ?m)) r"
  have m: "?m = LogMsg s (view (state r)) (round (state r)) (d s)" using Cons.prems(4,5) by simp
  note step = log_message [OF assms Cons.prems(1) m refl]
  show ?case
  proof (cases "unat (byz_quorum (config r)) \<le> card (insert s (logged_by r))")
    case True
    let ?h = "of_nat (card (insert s (logged_by r)))"
    let ?p = "handle_broadcast_history ?r1 ?h"
    have "process_message E ?m r = Inr (fst ?p, snd ?p)" using step(3) True by simp
    from replica_run_Cons [OF this, of "[]"]
    have "replica_run E (map (\<lambda>s. InMessage (LogMsg s v rd (d s))) (take 1 (s # ss))) r = Inr (fst ?p, snd ?p)"
      by (simp add: replica_run_def)
    moreover have "card (insert s (logged_by r)) \<le> card (set (s # ss) \<union> logged_by r)"
      by (intro card_mono) auto
    moreover have "proposed r (fst ?p)"
      using Cons.prems(1) by (simp add: proposed_def awaiting_logs_def no_votes_def same_place_def handle_broadcast_history_def)
    moreover have "Broadcast (RepairHistory (node_id (state r)) v rd ?h) \<in> set (snd ?p)"
      using Cons.prems(4,5) by (simp add: handle_broadcast_history_def)
    ultimately show ?thesis using True by blast
  next
    case False
    then have one: "process_message E ?m r = Inr (?r1, [])" using step(3) by simp
    have "ss \<noteq> []" using False Cons.prems(3) by auto
    moreover have "unat (byz_quorum (config ?r1)) \<le> card (set ss \<union> logged_by ?r1)"
      unfolding step(1) using Cons.prems(3) by simp
    moreover have "v = view (state ?r1)" "rd = round (state ?r1)" using Cons.prems(4,5) by simp_all
    ultimately obtain k r' es N where
      r': "replica_run E (map (\<lambda>s. InMessage (LogMsg s v rd (d s))) (take k ss)) ?r1 = Inr (r', es)"
        "proposed ?r1 r'" "Broadcast (RepairHistory (node_id (state ?r1)) v rd (of_nat N)) \<in> set es"
        "unat (byz_quorum (config ?r1)) \<le> N" "N \<le> card (set ss \<union> logged_by ?r1)"
      using Cons.IH [OF step(2)] by blast
    have "replica_run E (map (\<lambda>s. InMessage (LogMsg s v rd (d s))) (take (Suc k) (s # ss))) r = Inr (r', es)"
      using replica_run_Cons [OF one] r'(1) by simp
    moreover have "proposed r r'" using r'(2) by (simp add: proposed_def same_place_def)
    moreover have "Broadcast (RepairHistory (node_id (state r)) v rd (of_nat N)) \<in> set es" using r'(3) by simp
    moreover have "unat (byz_quorum (config r)) \<le> N" "N \<le> card (set (s # ss) \<union> logged_by r)"
      using r'(4,5) step(1) by simp_all
    ultimately show ?thesis by blast
  qed
qed simp

section \<open>The whole repair\<close>

definition agreement_inputs :: "u64 \<Rightarrow> u64 \<Rightarrow> u64 \<Rightarrow> node_id \<Rightarrow> node_id list \<Rightarrow> node_id list \<Rightarrow> replica_input list" where
  "agreement_inputs v rd h q ps cs = InMessage (RepairHistory q v rd h) #
     map (\<lambda>s. InMessage (RepairPrepare s v rd h)) ps @ map (\<lambda>s. InMessage (RepairCommit s v rd h)) cs"

lemma replica_run_append:
  assumes "replica_run E ins r = Inr (r1, es)" and "replica_run E js r1 = Inr (r2, fs)"
  shows "replica_run E (ins @ js) r = Inr (r2, es @ fs)"
  using assms by (simp add: replica_run_def run_steps_append)

text \<open>Repair makes progress. A replica that collects logs in REPAIR, with no proposal, vote or
  completion for its view and round, and that receives a history proposal, prepares for it of a
  Byzantine quorum and then commits of a Byzantine quorum, handles them all without a panic. It
  ends speculative, out of REPAIR, in the next round, with a log of the proposed size, and has
  broadcast its PREPARE, its COMMIT and its REPAIR-DONE. This holds for every configuration with
  positive thresholds, every iteration order of the message sets and every other state.\<close>

theorem repair_completes:
  assumes "iter_ok E" and "phase (state r) = CollectingLogs" and "in_repair (state r)"
    and "round (state r) \<noteq> - 1" and "no_votes r"
    and "0 < unat (byz_quorum (config r))" and "0 < unat (f_plus_1 (config r))"
    and "distinct ps" and "length ps = unat (byz_quorum (config r))"
    and "distinct cs" and "length cs = unat (byz_quorum (config r))"
  shows "\<exists>r' es. replica_run E (agreement_inputs (view (state r)) (round (state r)) h q ps cs) r = Inr (r', es) \<and>
    phase (state r') = Speculative \<and> \<not> in_repair (state r') \<and>
    round (state r') = round (state r) + 1 \<and> kv_size (state r') = h \<and>
    {Broadcast (RepairPrepare (node_id (state r)) (view (state r)) (round (state r)) h),
     Broadcast (RepairCommit (node_id (state r)) (view (state r)) (round (state r)) h),
     Broadcast (RepairDone (node_id (state r)) (view (state r)) (round (state r)) h)} \<subseteq> set es"
proof -
  let ?v = "view (state r)" and ?rd = "round (state r)" and ?n = "node_id (state r)"
  note no_votes_one_history [OF assms(5,3,6,7), of h]
  from history_message [OF assms(1) this(1) _ this(2,3) refl, of q] assms(2) obtain r1 es1 where
    1: "process_message E (RepairHistory q ?v ?rd h) r = Inr (r1, es1)" "voting r1 h" "same_place r r1"
      "prepared_by r1 h = {}" "Broadcast (RepairPrepare ?n ?v ?rd h) \<in> set es1" by blast
  have p1: "ps \<noteq> []" "card (prepared_by r1 h) + length ps = unat (byz_quorum (config r1))"
    "?v = view (state r1)" "?rd = round (state r1)" "set ps \<inter> prepared_by r1 h = {}"
    using 1(3,4) assms(6,9) by (auto simp: same_place_def)
  from prepares_run [OF assms(1) 1(2) assms(8) p1(5,1-4)] obtain r2 es2 where
    2: "replica_run E (map (\<lambda>s. InMessage (RepairPrepare s ?v ?rd h)) ps) r1 = Inr (r2, es2)"
      "committing r2 h" "committed_by r2 h = {}" "same_place r1 r2"
      "Broadcast (RepairCommit (node_id (state r1)) ?v ?rd h) \<in> set es2" by blast
  have p2: "round (state r2) \<noteq> - 1" "set cs \<inter> committed_by r2 h = {}" "cs \<noteq> []"
    "card (committed_by r2 h) + length cs = unat (byz_quorum (config r2))"
    "?v = view (state r2)" "?rd = round (state r2)"
    using 1(3) 2(3,4) assms(4,6,11) by (auto simp: same_place_def)
  from commits_run [OF 2(2) p2(1) assms(10) p2(2-6), of E] obtain r3 es3 where
    3: "replica_run E (map (\<lambda>s. InMessage (RepairCommit s ?v ?rd h)) cs) r2 = Inr (r3, es3)"
      "finished r2 h r3" "Broadcast (RepairDone (node_id (state r2)) ?v ?rd h) \<in> set es3" by blast
  have "replica_run E (agreement_inputs ?v ?rd h q ps cs) r = Inr (r3, es1 @ es2 @ es3)"
    unfolding agreement_inputs_def by (simp add: replica_run_Cons [OF 1(1)] replica_run_append [OF 2(1) 3(1)])
  then show ?thesis
    using 1(3,5) 2(4,5) 3(2,3) by (auto simp: finished_def same_place_def)
qed

text \<open>A replica of the six that has entered REPAIR on a conflict proof.\<close>

definition demo_collecting :: replica where
  "demo_collecting = run_final [InMessage (ConflictProof 0 0)] ''r1''"

lemma demo_collecting_state:
  "config demo_collecting = six_config" "phase (state demo_collecting) = CollectingLogs"
  "in_repair (state demo_collecting)" "round (state demo_collecting) = 0"
  "view (state demo_collecting) = 0" "node_id (state demo_collecting) = ''r1''"
  "repair_history_msgs (state demo_collecting) = {||}" "repair_prepare_msgs (state demo_collecting) = {||}"
  "repair_commit_msgs (state demo_collecting) = {||}" "repair_done_msgs (state demo_collecting) = {||}"
  by code_simp+

lemma repair_completes_witness:
  "\<exists>r' es. replica_run demo_env (agreement_inputs 0 0 7 ''r0'' (take 5 six_nodes) (drop 1 six_nodes))
       demo_collecting = Inr (r', es) \<and>
     round (state r') = 1 \<and> kv_size (state r') = 7 \<and> Broadcast (RepairDone ''r1'' 0 0 7) \<in> set es"
proof -
  have "no_votes demo_collecting" by (simp add: no_votes_def demo_collecting_state)
  moreover have "distinct (take 5 six_nodes)" "length (take 5 six_nodes) = 5"
    "distinct (drop 1 six_nodes)" "length (drop 1 six_nodes) = 5" by code_simp+
  ultimately have "\<exists>r' es. replica_run demo_env (agreement_inputs 0 0 7 ''r0'' (take 5 six_nodes) (drop 1 six_nodes))
       demo_collecting = Inr (r', es) \<and> phase (state r') = Speculative \<and> \<not> in_repair (state r') \<and>
     round (state r') = 0 + 1 \<and> kv_size (state r') = 7 \<and>
     {Broadcast (RepairPrepare ''r1'' 0 0 7), Broadcast (RepairCommit ''r1'' 0 0 7),
      Broadcast (RepairDone ''r1'' 0 0 7)} \<subseteq> set es"
    using repair_completes [of demo_env demo_collecting "take 5 six_nodes" "drop 1 six_nodes" 7 "''r0''"]
    by (simp add: demo_collecting_state)
  then show ?thesis by auto
qed

end
