(* ===== verification/Cluster_Run.thy ===== *)
theory Cluster_Run
  imports Cluster Repair_Run
begin

text \<open>
  Progress of a whole cluster: schedules of timers and deliveries at the correct nodes, and the
  repair they can always complete. A schedule is driven node by node: what a replica does on a list
  of inputs in isolation (\<open>Repair_Run\<close>) it does in the cluster when the inputs are in the network
  (\<open>drive_run\<close>), and what each node of a list can do, all can do one after the other
  (\<open>everyone\<close>).
\<close>

section \<open>What a reachable cluster keeps\<close>

text \<open>A replica in REPAIR has broadcast its LOG for its view and round.\<close>

definition log_sent :: "effect list \<Rightarrow> replica \<Rightarrow> bool" where
  "log_sent es r \<longleftrightarrow> (\<exists>d. Broadcast (LogMsg (node_id (state r)) (view (state r)) (round (state r)) d) \<in> set es)"

definition logs_on_entry :: "replica \<Rightarrow> replica \<Rightarrow> effect list \<Rightarrow> bool" where
  "logs_on_entry r r' es \<longleftrightarrow> (phase (state r') \<in> repair_phases \<longrightarrow>
     log_sent es r' \<or> phase (state r) \<in> repair_phases \<and> same_place r r')"

lemma transition_logs_on_entry: "transition E M r es r' \<Longrightarrow> logs_on_entry r r' es"
  by (induction rule: transition.induct)
     (auto simp: logs_on_entry_def log_sent_def same_place_def step_simps own_log_msg_def
       dest: guard_phases)

lemma logs_on_entry_trans:
  assumes "logs_on_entry r s es" and "logs_on_entry s t fs"
  shows "logs_on_entry r t (es @ fs)"
proof -
  have "log_sent (es @ fs) t \<or> phase (state r) \<in> repair_phases \<and> same_place r t"
    if t: "phase (state t) \<in> repair_phases"
  proof (cases "log_sent fs t")
    case True
    then show ?thesis by (auto simp: log_sent_def)
  next
    case False
    then have s: "phase (state s) \<in> repair_phases" "same_place s t"
      using assms(2) t by (auto simp: logs_on_entry_def)
    from assms(1) s(1) have "log_sent es s \<or> phase (state r) \<in> repair_phases \<and> same_place r s"
      unfolding logs_on_entry_def by blast
    then show ?thesis using s(2) by (auto simp: log_sent_def same_place_def)
  qed
  then show ?thesis by (simp add: logs_on_entry_def)
qed

interpretation logs_law: transition_law E M logs_on_entry for E M
proof
  show "logs_on_entry r r []" for r by (simp add: logs_on_entry_def same_place_def)
qed (rule logs_on_entry_trans transition_logs_on_entry; assumption)+

text \<open>Every correct node of a reachable cluster runs with the cluster's configuration under its own
  name, holds only messages of the network, and has announced its repair.\<close>

definition member_ok :: "config \<Rightarrow> packet list \<Rightarrow> node_id \<Rightarrow> replica \<Rightarrow> bool" where
  "member_ok cfg w n r \<longleftrightarrow> config r = cfg \<and> node_id (state r) = n \<and> phase_ok (state r) \<and>
     delivered (snd ` set w) (state r) \<and>
     (phase (state r) \<in> repair_phases \<longrightarrow>
        (\<exists>d. (None, LogMsg n (view (state r)) (round (state r)) d) \<in> set w))"

lemma transmit_keeps: "set w \<subseteq> set (transmit es w)"
proof (induction es arbitrary: w)
  case (Cons e es)
  show ?case
    using Cons [of "transmit [e] w"] by (cases e) (auto simp: transmit_def)
qed (simp add: transmit_def)

lemma transmit_broadcast: "Broadcast m \<in> set es \<Longrightarrow> (None, m) \<in> set (transmit es w)"
proof (induction es arbitrary: w)
  case (Cons e es)
  then show ?case
    using transmit_keeps [of "w @ [(None, m)]" es] by (cases e) (auto simp: transmit_def)
qed simp

lemma member_ok_mono: "member_ok cfg w n r \<Longrightarrow> set w \<subseteq> set w' \<Longrightarrow> member_ok cfg w' n r"
  unfolding member_ok_def delivered_def by (meson image_mono order_trans subsetD)

lemma member_ok_new: "member_ok cfg w n (fresh_replica cfg n)"
  by (simp add: member_ok_def delivered_fresh)
    (simp add: fresh_replica_def initial_state_def phase_ok_def)

lemma member_ok_input:
  assumes "member_ok cfg w n r" and "handle_input E i r = Inr (r', es)"
    and "input_msgs [i] \<subseteq> snd ` set w"
  shows "member_ok cfg (transmit es w) n r'"
proof -
  have t: "transitions E (snd ` set w) r es r'"
    by (rule handle_input_transitions [OF assms(2,3)])
  have "frame r r'" "phase_ok (state r')" "delivered (snd ` set w) (state r')"
    using frame.transitions_law [OF t] phase.transitions_law [OF t] deliver.transitions_law [OF t] assms(1)
    by (simp_all add: member_ok_def)
  moreover have "delivered (snd ` set (transmit es w)) (state r')"
    using calculation(3) image_mono [OF transmit_keeps [of w es], of snd]
    unfolding delivered_def by (meson order_trans)
  moreover have "\<exists>d. (None, LogMsg n (view (state r')) (round (state r')) d) \<in> set (transmit es w)"
    if "phase (state r') \<in> repair_phases"
    using logs_law.transitions_law [OF t] that assms(1) calculation(1) transmit_keeps [of w es]
      transmit_broadcast [of _ es w]
    by (fastforce simp: logs_on_entry_def log_sent_def member_ok_def same_place_def frame_def)
  ultimately show ?thesis using assms(1) by (simp add: member_ok_def frame_def)
qed


lemma node_step_member_ok:
  assumes "\<And>n. member_ok cfg (net c) n (members c n)"
    and "input_msgs [i] \<subseteq> snd ` set (net c)"
  shows "member_ok cfg (net (node_step E k i c)) n (members (node_step E k i c) n)"
proof (cases "handle_input E i (members c k)")
  case (Inr w)
  obtain r es where w: "w = (r, es)" by (cases w)
  have "member_ok cfg (transmit es (net c)) k r"
    by (rule member_ok_input [OF assms(1) _ assms(2)]) (use Inr w in simp)
  moreover have "member_ok cfg (transmit es (net c)) n (members c n)"
    by (rule member_ok_mono [OF assms(1) transmit_keeps])
  ultimately show ?thesis by (simp add: node_step_def Inr w)
qed (simp add: node_step_def assms(1))

lemma reachable_members: "reachable E cfg F c \<Longrightarrow> member_ok cfg (net c) n (members c n)"
proof (induction arbitrary: n rule: reachable.induct)
  case start
  show ?case by (simp add: cluster_new_def member_ok_new)
next
  case (step c a c')
  have keep: "member_ok cfg (net c @ [p]) n (members c n)" for p n
    by (rule member_ok_mono [OF step.IH]) auto
  show ?case
  proof (cases a)
    case (Deliver k m)
    then have c': "c' = node_step E k (InMessage m) c" and m: "reaches (net c) k m"
      using step(2) by (auto split: if_splits)
    have "input_msgs [InMessage m] \<subseteq> snd ` set (net c)"
      using reaches_packet [OF m] by (simp add: input_msgs_def)
    then show ?thesis unfolding c' by (rule node_step_member_ok [OF step.IH])
  next
    case (Timer k ev)
    then have c': "c' = node_step E k (InEvent ev) c" using step(2) by (auto split: if_splits)
    show ?thesis unfolding c' by (rule node_step_member_ok [OF step.IH]) (simp add: input_msgs_def)
  next
    case (SubmitOp h)
    then show ?thesis using step(2) keep by (auto simp: Let_def)
  next
    case (Inject p)
    then show ?thesis using step(2) keep by (cases p) (auto split: if_splits)
  qed
qed

section \<open>Driving the replicas\<close>

text \<open>The action that gives a node an input, and a schedule that gives it several.\<close>

definition drive :: "node_id \<Rightarrow> replica_input \<Rightarrow> action" where
  "drive n i = (case i of InMessage m \<Rightarrow> Deliver n m | InEvent ev \<Rightarrow> Timer n ev)"

lemma acts_append:
  "acts E cfg F (as @ bs) c = (case acts E cfg F as c of None \<Rightarrow> None | Some c1 \<Rightarrow> acts E cfg F bs c1)"
  by (induction as arbitrary: c) (auto split: option.splits)

definition broadcast_in :: "packet list \<Rightarrow> replica_input \<Rightarrow> bool" where
  "broadcast_in w i \<longleftrightarrow> (\<forall>m. i = InMessage m \<longrightarrow> (None, m) \<in> set w)"

lemma broadcast_in_mono: "broadcast_in w i \<Longrightarrow> set w \<subseteq> set w' \<Longrightarrow> broadcast_in w' i"
  by (auto simp: broadcast_in_def)

lemma act_drive:
  assumes "handle_input E i (members c n) = Inr (r, es)" and "up cfg F c n" and "broadcast_in (net c) i"
  shows "act E cfg F (drive n i) c = Some (c\<lparr>members := (members c)(n := r), net := transmit es (net c)\<rparr>)"
  using assms by (cases i) (simp_all add: drive_def broadcast_in_def reaches_def node_step_def)

lemma drive_run:
  "replica_run E ins (members c n) = Inr (r, es) \<Longrightarrow> up cfg F c n \<Longrightarrow>
   list_all (broadcast_in (net c)) ins \<Longrightarrow>
   acts E cfg F (map (drive n) ins) c = Some (c\<lparr>members := (members c)(n := r), net := transmit es (net c)\<rparr>)"
proof (induction ins arbitrary: c es)
  case Nil
  then have "r = members c n" "es = []" by (simp_all add: replica_run_def)
  then show ?case by (simp add: transmit_def del: fun_upd_apply)
next
  case (Cons i ins)
  obtain r1 es1 es2 where r1: "handle_input E i (members c n) = Inr (r1, es1)"
    and r2: "replica_run E ins r1 = Inr (r, es2)" and es: "es = es1 @ es2"
    using Cons.prems(1) by (auto simp: replica_run_def bind_outcome_Inr_iff)
  let ?c = "c\<lparr>members := (members c)(n := r1), net := transmit es1 (net c)\<rparr>"
  have "acts E cfg F (map (drive n) ins) ?c = Some (?c\<lparr>members := (members ?c)(n := r), net := transmit es2 (net ?c)\<rparr>)"
  proof (rule Cons.IH)
    show "replica_run E ins (members ?c n) = Inr (r, es2)" using r2 by simp
    show "up cfg F ?c n" using Cons.prems(2) by (simp add: up_def)
    show "list_all (broadcast_in (net ?c)) ins"
      using Cons.prems(3) broadcast_in_mono [OF _ transmit_keeps] by (auto simp: list_all_iff)
  qed
  moreover have "act E cfg F (drive n i) c = Some ?c"
    by (rule act_drive [OF r1 Cons.prems(2)]) (use Cons.prems(3) in simp)
  ultimately show ?case by (simp add: es transmit_append del: fun_upd_apply)
qed

text \<open>A schedule of a cluster: deliveries and timers at the given nodes only, with which every node of
  the list reaches a state with \<open>P\<close> and has broadcast its message \<open>f\<close>.\<close>

definition scheduled :: "env \<Rightarrow> config \<Rightarrow> node_id set \<Rightarrow> node_id set \<Rightarrow> cluster \<Rightarrow> cluster \<Rightarrow> bool" where
  "scheduled E cfg F N c c' \<longleftrightarrow>
     (\<exists>as. set as \<subseteq> (\<Union>n \<in> N. range (drive n)) \<and> acts E cfg F as c = Some c') \<and>
     crashed c' = crashed c \<and> sequencer_of c' = sequencer_of c \<and> set (net c) \<subseteq> set (net c') \<and>
     (\<forall>n. n \<notin> N \<longrightarrow> members c' n = members c n)"

lemma scheduled_refl: "scheduled E cfg F N c c"
  unfolding scheduled_def by (intro conjI exI [of _ "[]"]) simp_all

lemma scheduled_trans:
  assumes "scheduled E cfg F N c c1" and "scheduled E cfg F N' c1 c2"
  shows "scheduled E cfg F (N \<union> N') c c2"
proof -
  obtain as bs where "set as \<subseteq> (\<Union>n \<in> N. range (drive n))" "acts E cfg F as c = Some c1"
    "set bs \<subseteq> (\<Union>n \<in> N'. range (drive n))" "acts E cfg F bs c1 = Some c2"
    using assms unfolding scheduled_def by blast
  then have "set (as @ bs) \<subseteq> (\<Union>n \<in> N \<union> N'. range (drive n)) \<and> acts E cfg F (as @ bs) c = Some c2"
    by (auto simp: acts_append)
  then show ?thesis using assms unfolding scheduled_def by (intro conjI exI [of _ "as @ bs"]) auto
qed

lemma scheduled_up: "scheduled E cfg F N c c' \<Longrightarrow> up cfg F c' n = up cfg F c n"
  by (simp add: scheduled_def up_def)

lemma scheduled_run:
  assumes "replica_run E ins (members c n) = Inr (r, es)" and "up cfg F c n"
    and "list_all (broadcast_in (net c)) ins"
  shows "scheduled E cfg F {n} c (c\<lparr>members := (members c)(n := r), net := transmit es (net c)\<rparr>)"
  unfolding scheduled_def using drive_run [OF assms] transmit_keeps
  by (auto intro!: exI [of _ "map (drive n) ins"])

lemma everyone:
  assumes "\<And>n. n \<in> set ns \<Longrightarrow> \<exists>ins r es. replica_run E ins (members c n) = Inr (r, es) \<and>
      list_all (broadcast_in (net c)) ins \<and> P n r \<and> (\<forall>m \<in> set (f n). Broadcast m \<in> set es)"
    and "distinct ns" and "\<And>n. n \<in> set ns \<Longrightarrow> up cfg F c n"
  shows "\<exists>c'. scheduled E cfg F (set ns) c c' \<and>
    (\<forall>n \<in> set ns. P n (members c' n) \<and> (\<forall>m \<in> set (f n). (None, m) \<in> set (net c')))"
  using assms
proof (induction ns)
  case Nil
  then show ?case using scheduled_refl by (intro exI [of _ c]) simp
next
  case (Cons n ns)
  obtain c1 where c1: "scheduled E cfg F (set ns) c c1"
    "\<forall>k \<in> set ns. P k (members c1 k) \<and> (\<forall>m \<in> set (f k). (None, m) \<in> set (net c1))"
    using Cons.IH Cons.prems by auto
  have same: "members c1 n = members c n" "set (net c) \<subseteq> set (net c1)" "up cfg F c1 n"
    using c1(1) Cons.prems(2,3) scheduled_up [OF c1(1)] by (auto simp: scheduled_def)
  obtain ins r es where r: "replica_run E ins (members c1 n) = Inr (r, es)"
    "list_all (broadcast_in (net c1)) ins" "P n r" "(\<forall>m \<in> set (f n). Broadcast m \<in> set es)"
    using Cons.prems(1) [of n] broadcast_in_mono [OF _ same(2)] unfolding same(1)
    by (auto simp: list_all_iff)
  let ?c = "c1\<lparr>members := (members c1)(n := r), net := transmit es (net c1)\<rparr>"
  have "scheduled E cfg F (set ns \<union> {n}) c ?c"
    by (rule scheduled_trans [OF c1(1) scheduled_run [OF r(1) same(3) r(2)]])
  moreover have "P k (members ?c k) \<and> (\<forall>m \<in> set (f k). (None, m) \<in> set (net ?c))" if "k \<in> set (n # ns)" for k
    using that c1(2) r(3,4) transmit_broadcast [of _ es "net c1"] transmit_keeps [of "net c1" es] by auto
  ultimately show ?case by (intro exI [of _ ?c]) simp
qed


section \<open>Votes for a view\<close>

text \<open>A proposal, vote or completion for a view and round.\<close>

definition repair_vote :: "u64 \<Rightarrow> u64 \<Rightarrow> message \<Rightarrow> bool" where
  "repair_vote v rd m \<longleftrightarrow> (\<exists>s h. m \<in> {RepairHistory s v rd h, RepairPrepare s v rd h,
     RepairCommit s v rd h, RepairDone s v rd h})"

lemma no_votes_net:
  assumes "delivered M (state r)" and "\<And>m. m \<in> M \<Longrightarrow> \<not> repair_vote v rd m"
    and "view (state r') = v" and "round (state r') = rd"
    and "repair_history_msgs (state r') = repair_history_msgs (state r)"
    and "repair_prepare_msgs (state r') = repair_prepare_msgs (state r)"
    and "repair_commit_msgs (state r') = repair_commit_msgs (state r)"
    and "repair_done_msgs (state r') = repair_done_msgs (state r)"
  shows "no_votes r'"
  using assms unfolding delivered_def no_votes_def repair_vote_def by blast

lemma timers_run:
  assumes "phase (state r) = CollectingLogs" and "unat (view (state r)) + k < 2 ^ 64"
  shows "\<exists>es. replica_run E (replicate k (InEvent RepairViewTimeout)) r =
    Inr (state_update (view_update (\<lambda>u. view (state r) + of_nat k)) r, es)"
  using assms
proof (induction k arbitrary: r)
  case 0
  then show ?case by (simp add: replica_run_def)
next
  case (Suc k)
  let ?r = "state_update (view_update (\<lambda>u. view (state r) + 1)) r"
  have max: "view (state r) \<noteq> - 1" using Suc.prems(2) unat_u64_max by auto
  then have "unat (view (state ?r)) = Suc (unat (view (state r)))" by (simp add: unat_succ_u64)
  then obtain es where es: "replica_run E (replicate k (InEvent RepairViewTimeout)) ?r =
      Inr (state_update (view_update (\<lambda>u. view (state r) + 1 + of_nat k)) ?r, es)"
    using Suc.IH [of ?r] Suc.prems by auto
  have "\<exists>fs. handle_event E RepairViewTimeout r = Inr (?r, fs)"
    using Suc.prems(1) max
    by (simp add: handle_event_eq can_view_change_def add_u64_one_ok handle_view_change_def)
  then obtain fs where "handle_event E RepairViewTimeout r = Inr (?r, fs)" by blast
  with es show ?case by (simp add: replica_run_def comp_def add.assoc)
qed

section \<open>A repair of the whole cluster\<close>

lemma scheduled_reachable: "reachable E cfg F c \<Longrightarrow> scheduled E cfg F N c c' \<Longrightarrow> reachable E cfg F c'"
  unfolding scheduled_def using acts_reachable by blast

lemma scheduled_weaken: "scheduled E cfg F N c c' \<Longrightarrow> N \<subseteq> N' \<Longrightarrow> scheduled E cfg F N' c c'"
  unfolding scheduled_def by (meson SUP_subset_mono order_refl order_trans subsetD)

lemma scheduled_then:
  "scheduled E cfg F N c c1 \<Longrightarrow> scheduled E cfg F N' c1 c2 \<Longrightarrow> N' \<subseteq> N \<Longrightarrow> scheduled E cfg F N c c2"
  using scheduled_trans [of E cfg F N c c1 N' c2] by (simp add: Un_absorb2)

text \<open>The replica of a node in a view and round, before any vote for them.\<close>

definition open_round :: "config \<Rightarrow> node_id \<Rightarrow> u64 \<Rightarrow> u64 \<Rightarrow> replica \<Rightarrow> bool" where
  "open_round cfg n v rd r \<longleftrightarrow> config r = cfg \<and> node_id (state r) = n \<and> view (state r) = v \<and>
     round (state r) = rd \<and> in_repair (state r) \<and> no_votes r \<and>
     phase (state r) \<in> {CollectingLogs, PreparePhase}"

text \<open>Timers bring every node that collects logs to a later view.\<close>

lemma views_change:
  assumes "distinct ns" and "\<And>n. n \<in> set ns \<Longrightarrow> up cfg F c n"
    and "\<And>n. n \<in> set ns \<Longrightarrow> phase (state (members c n)) = CollectingLogs \<and> view (state (members c n)) \<le> w"
  obtains c' where "scheduled E cfg F (set ns) c c'"
    and "\<And>n. n \<in> set ns \<Longrightarrow> members c' n = state_update (view_update (\<lambda>u. w)) (members c n)"
proof -
  let ?P = "\<lambda>n r. r = state_update (view_update (\<lambda>u. w)) (members c n)"
  have "\<exists>c'. scheduled E cfg F (set ns) c c' \<and>
      (\<forall>n \<in> set ns. ?P n (members c' n) \<and> (\<forall>m \<in> set []. (None, m) \<in> set (net c')))"
  proof (rule everyone [OF _ assms(1,2)])
    fix n assume n: "n \<in> set ns"
    let ?k = "unat w - unat (view (state (members c n)))"
    have "view (state (members c n)) + of_nat ?k = w" "unat (view (state (members c n))) + ?k < 2 ^ 64"
      using assms(3) [OF n] unat_u64_less [of w] by (simp_all add: word_le_nat_alt of_nat_diff)
    then obtain es where "replica_run E (replicate ?k (InEvent RepairViewTimeout)) (members c n) =
        Inr (state_update (view_update (\<lambda>u. w)) (members c n), es)"
      using timers_run [of "members c n" ?k E] assms(3) [OF n] by auto
    moreover have "list_all (broadcast_in (net c)) (replicate ?k (InEvent RepairViewTimeout))"
      by (simp add: list_all_iff broadcast_in_def)
    ultimately show "\<exists>ins r es. replica_run E ins (members c n) = Inr (r, es) \<and>
        list_all (broadcast_in (net c)) ins \<and> ?P n r \<and> (\<forall>m \<in> set []. Broadcast m \<in> set es)"
      by auto
  qed
  with that show ?thesis by blast
qed


text \<open>The leader proposes once it has received the logs.\<close>

lemma leader_proposes:
  assumes "iter_ok E" and "up cfg F c q" and "awaiting_logs (members c q)"
    and "unat (byz_quorum (config (members c q))) \<le> card (set ns)" and "ns \<noteq> []"
    and "\<And>n. n \<in> set ns \<Longrightarrow>
      (None, LogMsg n (view (state (members c q))) (round (state (members c q))) (d n)) \<in> set (net c)"
  obtains c' N where "scheduled E cfg F {q} c c'" and "proposed (members c q) (members c' q)"
    and "(None, RepairHistory (node_id (state (members c q))) (view (state (members c q)))
           (round (state (members c q))) (of_nat N)) \<in> set (net c')"
    and "unat (byz_quorum (config (members c q))) \<le> N" and "N \<le> card (set ns \<union> logged_by (members c q))"
proof -
  let ?r = "members c q"
  let ?log = "\<lambda>s. InMessage (LogMsg s (view (state ?r)) (round (state ?r)) (d s))"
  have "card (set ns) \<le> card (set ns \<union> logged_by ?r)" by (intro card_mono) auto
  then have "unat (byz_quorum (config ?r)) \<le> card (set ns \<union> logged_by ?r)" using assms(4) by linarith
  from logs_run [OF assms(1,3,5) this refl refl, of d] obtain k r' es N where
    r': "replica_run E (map ?log (take k ns)) ?r = Inr (r', es)" "proposed ?r r'"
      "Broadcast (RepairHistory (node_id (state ?r)) (view (state ?r)) (round (state ?r)) (of_nat N)) \<in> set es"
      "unat (byz_quorum (config ?r)) \<le> N" "N \<le> card (set ns \<union> logged_by ?r)"
    by blast
  have "list_all (broadcast_in (net c)) (map ?log (take k ns))"
    using assms(6) by (auto simp: list_all_iff broadcast_in_def dest: in_set_takeD)
  from scheduled_run [OF r'(1) assms(2) this] that [of "c\<lparr>members := (members c)(q := r'), net := transmit es (net c)\<rparr>" N]
  show ?thesis using r'(2-5) transmit_broadcast by simp
qed

text \<open>Every node prepares the proposal, then commits it, then finishes the round.\<close>

definition prepared :: "config \<Rightarrow> node_id \<Rightarrow> u64 \<Rightarrow> u64 \<Rightarrow> u64 \<Rightarrow> replica \<Rightarrow> bool" where
  "prepared cfg n v rd h r \<longleftrightarrow> config r = cfg \<and> node_id (state r) = n \<and> view (state r) = v \<and>
     round (state r) = rd \<and> voting r h \<and> prepared_by r h = {}"

definition committed :: "config \<Rightarrow> node_id \<Rightarrow> u64 \<Rightarrow> u64 \<Rightarrow> u64 \<Rightarrow> replica \<Rightarrow> bool" where
  "committed cfg n v rd h r \<longleftrightarrow> config r = cfg \<and> node_id (state r) = n \<and> view (state r) = v \<and>
     round (state r) = rd \<and> committing r h \<and> committed_by r h = {}"

definition done_round :: "u64 \<Rightarrow> u64 \<Rightarrow> replica \<Rightarrow> bool" where
  "done_round rd h r \<longleftrightarrow> phase (state r) = Speculative \<and> \<not> in_repair (state r) \<and>
     round (state r) = rd + 1 \<and> kv_size (state r) = h \<and> (h \<noteq> 0 \<longrightarrow> synthetic_log h (kv_store (state r)))"

lemma everyone_prepares:
  assumes "iter_ok E" and "distinct ns" and "\<And>n. n \<in> set ns \<Longrightarrow> up cfg F c n"
    and "\<And>n. n \<in> set ns \<Longrightarrow> open_round cfg n v rd (members c n)"
    and "0 < unat (byz_quorum cfg)" and "0 < unat (f_plus_1 cfg)"
    and "(None, RepairHistory q v rd h) \<in> set (net c)"
  shows "\<exists>c'. scheduled E cfg F (set ns) c c' \<and> (\<forall>n \<in> set ns. prepared cfg n v rd h (members c' n) \<and>
    (\<forall>m \<in> set [RepairPrepare n v rd h]. (None, m) \<in> set (net c')))"
proof (rule everyone [OF _ assms(2,3)])
  fix n assume n: "n \<in> set ns"
  let ?r = "members c n"
  have o: "config ?r = cfg" "node_id (state ?r) = n" "view (state ?r) = v" "round (state ?r) = rd"
    "in_repair (state ?r)" "no_votes ?r" "phase (state ?r) \<in> {CollectingLogs, PreparePhase}"
    using assms(4) [OF n] by (simp_all add: open_round_def)
  note one = no_votes_one_history [of ?r h, OF o(6,5)]
  have "one_history ?r h" "prepared_by ?r h = {}" "committed_by ?r h = {}"
    using one assms(5,6) o(1) by simp_all
  from history_message [OF assms(1) this(1) o(7) this(2,3) refl, of q] obtain r es where
    r: "process_message E (RepairHistory q v rd h) ?r = Inr (r, es)" "voting r h" "same_place ?r r"
      "prepared_by r h = {}" "Broadcast (RepairPrepare n v rd h) \<in> set es"
    unfolding o(2-4) by blast
  then have "replica_run E [InMessage (RepairHistory q v rd h)] ?r = Inr (r, es)"
    by (simp add: replica_run_def)
  moreover have "prepared cfg n v rd h r"
    using r o(1-4) by (simp add: prepared_def same_place_def)
  moreover have "list_all (broadcast_in (net c)) [InMessage (RepairHistory q v rd h)]"
    using assms(7) by (simp add: broadcast_in_def)
  ultimately show "\<exists>ins r es. replica_run E ins ?r = Inr (r, es) \<and> list_all (broadcast_in (net c)) ins \<and>
      prepared cfg n v rd h r \<and> (\<forall>m \<in> set [RepairPrepare n v rd h]. Broadcast m \<in> set es)"
    using r(5) by fastforce
qed

lemma everyone_commits:
  assumes "iter_ok E" and "distinct ns" and "\<And>n. n \<in> set ns \<Longrightarrow> up cfg F c n"
    and "\<And>n. n \<in> set ns \<Longrightarrow> prepared cfg n v rd h (members c n)"
    and "distinct ps" and "ps \<noteq> []" and "length ps = unat (byz_quorum cfg)"
    and "\<And>s. s \<in> set ps \<Longrightarrow> (None, RepairPrepare s v rd h) \<in> set (net c)"
  shows "\<exists>c'. scheduled E cfg F (set ns) c c' \<and> (\<forall>n \<in> set ns. committed cfg n v rd h (members c' n) \<and>
    (\<forall>m \<in> set [RepairCommit n v rd h]. (None, m) \<in> set (net c')))"
proof (rule everyone [OF _ assms(2,3)])
  fix n assume n: "n \<in> set ns"
  let ?r = "members c n" and ?ins = "map (\<lambda>s. InMessage (RepairPrepare s v rd h)) ps"
  have p: "config ?r = cfg" "node_id (state ?r) = n" "view (state ?r) = v" "round (state ?r) = rd"
    "voting ?r h" "prepared_by ?r h = {}"
    using assms(4) [OF n] by (simp_all add: prepared_def)
  obtain r es where "replica_run E ?ins ?r = Inr (r, es)" "committing r h" "committed_by r h = {}"
    "same_place ?r r" "Broadcast (RepairCommit n v rd h) \<in> set es"
    using prepares_run [OF assms(1) p(5) assms(5) _ assms(6), of v rd] p assms(7) by auto
  moreover from this have "committed cfg n v rd h r" using p by (simp add: committed_def same_place_def)
  moreover have "list_all (broadcast_in (net c)) ?ins"
    using assms(8) by (auto simp: list_all_iff broadcast_in_def)
  ultimately show "\<exists>ins r es. replica_run E ins ?r = Inr (r, es) \<and> list_all (broadcast_in (net c)) ins \<and>
      committed cfg n v rd h r \<and> (\<forall>m \<in> set [RepairCommit n v rd h]. Broadcast m \<in> set es)"
    by fastforce
qed

lemma everyone_finishes:
  assumes "distinct ns" and "\<And>n. n \<in> set ns \<Longrightarrow> up cfg F c n"
    and "\<And>n. n \<in> set ns \<Longrightarrow> committed cfg n v rd h (members c n)" and "rd \<noteq> - 1"
    and "distinct cs" and "cs \<noteq> []" and "length cs = unat (byz_quorum cfg)"
    and "\<And>s. s \<in> set cs \<Longrightarrow> (None, RepairCommit s v rd h) \<in> set (net c)"
  shows "\<exists>c'. scheduled E cfg F (set ns) c c' \<and> (\<forall>n \<in> set ns. done_round rd h (members c' n) \<and>
    (\<forall>m \<in> set [RepairDone n v rd h]. (None, m) \<in> set (net c')))"
proof (rule everyone [OF _ assms(1,2)])
  fix n assume n: "n \<in> set ns"
  let ?r = "members c n" and ?ins = "map (\<lambda>s. InMessage (RepairCommit s v rd h)) cs"
  have p: "config ?r = cfg" "node_id (state ?r) = n" "view (state ?r) = v" "round (state ?r) = rd"
    "committing ?r h" "committed_by ?r h = {}"
    using assms(3) [OF n] by (simp_all add: committed_def)
  have side: "round (state ?r) \<noteq> - 1" "set cs \<inter> committed_by ?r h = {}"
    "card (committed_by ?r h) + length cs = unat (byz_quorum (config ?r))"
    using p assms(4,7) by simp_all
  from commits_run [OF p(5) side(1) assms(5) side(2) assms(6) side(3) p(3,4) [symmetric], of E]
  obtain r es where "replica_run E ?ins ?r = Inr (r, es)" "finished ?r h r"
    "Broadcast (RepairDone n v rd h) \<in> set es"
    unfolding p(2) by blast
  moreover from this have "done_round rd h r" using p by (simp add: done_round_def finished_def)
  moreover have "list_all (broadcast_in (net c)) ?ins"
    using assms(8) by (auto simp: list_all_iff broadcast_in_def)
  ultimately show "\<exists>ins r es. replica_run E ins ?r = Inr (r, es) \<and> list_all (broadcast_in (net c)) ins \<and>
      done_round rd h r \<and> (\<forall>m \<in> set [RepairDone n v rd h]. Broadcast m \<in> set es)"
    by fastforce
qed


lemma awaiting_leader:
  assumes "open_round cfg q v rd r" and "phase (state r) = CollectingLogs" and "leads cfg q v"
    and "0 < unat (byz_quorum cfg)" and "0 < unat (f_plus_1 cfg)"
  shows "awaiting_logs r"
proof -
  have "is_leader r"
    using assms(1,3) unfolding leads_iff open_round_def by (simp add: is_leader_def Let_def)
  then show ?thesis using assms by (simp add: awaiting_logs_def open_round_def)
qed

text \<open>The three rounds of votes, when every node of a list holds an open round.\<close>

lemma votes_complete:
  assumes "iter_ok E" and ns: "distinct ns" "\<And>n. n \<in> set ns \<Longrightarrow> up cfg F c n"
    and "\<And>n. n \<in> set ns \<Longrightarrow> open_round cfg n v rd (members c n)" and "rd \<noteq> - 1"
    and "0 < unat (byz_quorum cfg)" and "0 < unat (f_plus_1 cfg)"
    and "unat (byz_quorum cfg) \<le> length ns"
    and "(None, RepairHistory q v rd h) \<in> set (net c)"
  obtains c' where "scheduled E cfg F (set ns) c c'"
    and "\<And>n. n \<in> set ns \<Longrightarrow> done_round rd h (members c' n) \<and> (None, RepairDone n v rd h) \<in> set (net c')"
proof -
  let ?ps = "take (unat (byz_quorum cfg)) ns"
  have ps: "distinct ?ps" "?ps \<noteq> []" "length ?ps = unat (byz_quorum cfg)" "set ?ps \<subseteq> set ns"
    using ns(1) assms(6,8) by (auto simp: set_take_subset)
  obtain c1 where c1: "scheduled E cfg F (set ns) c c1" "\<And>n. n \<in> set ns \<Longrightarrow> prepared cfg n v rd h (members c1 n)"
    "\<And>n. n \<in> set ns \<Longrightarrow> (None, RepairPrepare n v rd h) \<in> set (net c1)"
    using everyone_prepares [OF assms(1) ns assms(4,6,7,9)] by auto
  have up1: "\<And>n. n \<in> set ns \<Longrightarrow> up cfg F c1 n" using ns(2) scheduled_up [OF c1(1)] by simp
  obtain c2 where c2: "scheduled E cfg F (set ns) c1 c2" "\<And>n. n \<in> set ns \<Longrightarrow> committed cfg n v rd h (members c2 n)"
    "\<And>n. n \<in> set ns \<Longrightarrow> (None, RepairCommit n v rd h) \<in> set (net c2)"
    using everyone_commits [OF assms(1) ns(1) up1 c1(2) ps(1-3) c1(3) [OF subsetD [OF ps(4)]]] by auto
  have up2: "\<And>n. n \<in> set ns \<Longrightarrow> up cfg F c2 n" using up1 scheduled_up [OF c2(1)] by simp
  obtain c3 where c3: "scheduled E cfg F (set ns) c2 c3" "\<And>n. n \<in> set ns \<Longrightarrow> done_round rd h (members c3 n)"
    "\<And>n. n \<in> set ns \<Longrightarrow> (None, RepairDone n v rd h) \<in> set (net c3)"
    using everyone_finishes [OF ns(1) up2 c2(2) assms(5) ps(1-3) c2(3) [OF subsetD [OF ps(4)]], of E] by auto
  have "scheduled E cfg F (set ns) c c3"
    using scheduled_then [OF scheduled_then [OF c1(1) c2(1)] c3(1)] by simp
  then show ?thesis using that c3(2,3) by blast
qed

text \<open>A replica that collects logs, as it is once timers have brought it to a view \<open>w\<close> for which it
  has seen no vote.\<close>

definition collects_for :: "u64 \<Rightarrow> u64 \<Rightarrow> replica \<Rightarrow> bool" where
  "collects_for w rd r \<longleftrightarrow> phase (state r) = CollectingLogs \<and> view (state r) \<le> w \<and> round (state r) = rd \<and>
     no_votes (state_update (view_update (\<lambda>u. w)) r)"

text \<open>Timers open a view for which there is no vote: every node collects logs in it, and its LOG is in the
  network.\<close>

lemma view_opens:
  assumes "reachable E cfg F c" and ns: "distinct ns" "\<And>n. n \<in> set ns \<Longrightarrow> up cfg F c n"
    and "\<And>n. n \<in> set ns \<Longrightarrow> collects_for w rd (members c n)"
  obtains c' where "scheduled E cfg F (set ns) c c'"
    and "\<And>n. n \<in> set ns \<Longrightarrow> open_round cfg n w rd (members c' n) \<and>
       phase (state (members c' n)) = CollectingLogs \<and> (\<exists>d. (None, LogMsg n w rd d) \<in> set (net c'))"
proof -
  obtain c1 where c1: "scheduled E cfg F (set ns) c c1"
    "\<And>n. n \<in> set ns \<Longrightarrow> members c1 n = state_update (view_update (\<lambda>u. w)) (members c n)"
    using views_change [OF ns, of w E] assms(4) unfolding collects_for_def by blast
  have "open_round cfg n w rd (members c1 n) \<and> phase (state (members c1 n)) = CollectingLogs \<and>
      (\<exists>d. (None, LogMsg n w rd d) \<in> set (net c1))" if n: "n \<in> set ns" for n
  proof -
    have "member_ok cfg (net c) n (members c n)" by (rule reachable_members [OF assms(1)])
    then have o: "open_round cfg n w rd (members c1 n)" "phase (state (members c1 n)) = CollectingLogs"
      using assms(4) [OF n] c1(2) [OF n]
      by (simp_all add: collects_for_def open_round_def member_ok_def phase_ok_def)
    then show ?thesis
      using reachable_members [OF scheduled_reachable [OF assms(1) c1(1)], of n]
      by (auto simp: member_ok_def open_round_def)
  qed
  with c1(1) that show ?thesis by blast
qed

lemma correct_majority:
  assumes "bft_config cfg" and "finite F" and "card F \<le> unat (cfg_f cfg)"
  obtains ns where "set ns = config_nodes cfg - F" and "distinct ns"
    and "unat (byz_quorum cfg) \<le> length ns"
    and "0 < unat (byz_quorum cfg)" and "0 < unat (f_plus_1 cfg)"
proof -
  obtain ns where ns: "set ns = config_nodes cfg - F" "distinct ns"
    using finite_distinct_list [of "config_nodes cfg - F"] by (auto simp: config_nodes_def)
  then show ?thesis
    using that [of ns] diff_card_le_card_Diff [OF assms(2), of "config_nodes cfg"] assms(3)
      bft_config_bound [OF assms(1)] distinct_card [OF ns(2)]
    by (simp add: bft_config_facts [OF assms(1)])
qed

text \<open>Only configured nodes have logged with a replica.\<close>

lemma logged_members:
  assumes "bft_config cfg" and "reachable E cfg F c"
  shows "logged_by (members c n) \<subseteq> config_nodes cfg"
proof
  fix s assume "s \<in> logged_by (members c n)"
  then obtain m where m: "m |\<in>| log_msgs (state (members c n))" "sender_of m = Some s" "\<not> is_Speculate m"
    by (auto simp: logged_by_def)
  have "m \<in> snd ` set (net c)"
    using m(1) reachable_members [OF assms(2), of n] by (auto simp: member_ok_def delivered_def)
  moreover obtain inp out where "explained E cfg F c inp out" using reachable_explained [OF assms] by blast
  ultimately have "genuine cfg F out m" by (auto simp: explained_def)
  then show "s \<in> config_nodes cfg" using m(2,3) by (simp add: genuine_def split: if_splits)
qed

text \<open>An open view with a leader among the nodes is brought to its proposal, the number of LOGs that the
  leader has counted.\<close>

lemma proposal_made:
  assumes "iter_ok E" and ns: "distinct ns" "\<And>n. n \<in> set ns \<Longrightarrow> up cfg F c n"
    and o: "\<And>n. n \<in> set ns \<Longrightarrow> open_round cfg n w rd (members c n) \<and>
       phase (state (members c n)) = CollectingLogs \<and> (\<exists>d. (None, LogMsg n w rd d) \<in> set (net c))"
    and q: "q \<in> set ns" "leads cfg q w"
    and quorum: "unat (byz_quorum cfg) \<le> length ns" "0 < unat (byz_quorum cfg)" "0 < unat (f_plus_1 cfg)"
    and nodes: "set ns \<subseteq> config_nodes cfg" "logged_by (members c q) \<subseteq> config_nodes cfg"
  obtains c' N where "scheduled E cfg F {q} c c'" and "(None, RepairHistory q w rd (of_nat N)) \<in> set (net c')"
    and "unat (byz_quorum cfg) \<le> N" and "N \<le> card (config_nodes cfg)"
    and "\<And>n. n \<in> set ns \<Longrightarrow> open_round cfg n w rd (members c' n)"
proof -
  obtain d where d: "\<And>n. n \<in> set ns \<Longrightarrow> (None, LogMsg n w rd (d n)) \<in> set (net c)" using o by metis
  have oq: "config (members c q) = cfg" "node_id (state (members c q)) = q"
    "view (state (members c q)) = w" "round (state (members c q)) = rd"
    using o [OF q(1)] by (simp_all add: open_round_def)
  have "awaiting_logs (members c q)"
    using awaiting_leader [of cfg q w rd "members c q"] o [OF q(1)] q(2) quorum(2,3) by simp
  moreover have "unat (byz_quorum cfg) \<le> card (set ns)" "ns \<noteq> []"
    using quorum(1,2) by (auto simp: distinct_card [OF ns(1)])
  ultimately obtain c' N where c': "scheduled E cfg F {q} c c'" "proposed (members c q) (members c' q)"
    "(None, RepairHistory q w rd (of_nat N)) \<in> set (net c')" "unat (byz_quorum cfg) \<le> N"
    "N \<le> card (set ns \<union> logged_by (members c q))"
    using leader_proposes [OF assms(1) ns(2) [OF q(1)], of ns d] d unfolding oq by metis
  have "open_round cfg n w rd (members c' n)" if n: "n \<in> set ns" for n
  proof (cases "n = q")
    case True
    then show ?thesis using c'(2) oq by (simp add: proposed_def same_place_def open_round_def)
  next
    case False
    then have "members c' n = members c n" using c'(1) by (simp add: scheduled_def)
    then show ?thesis using o [OF n] by simp
  qed
  moreover have "N \<le> card (config_nodes cfg)"
    using c'(5) card_mono [of "config_nodes cfg" "set ns \<union> logged_by (members c q)"] nodes
    by (auto simp: config_nodes_def)
  ultimately show ?thesis using c'(1,3,4) that by blast
qed

text \<open>All correct nodes collect logs: a correct leader's view brings them through the repair.\<close>

lemma collectors_complete:
  assumes "bft_config cfg" and "finite F" and "card F \<le> unat (cfg_f cfg)" and "iter_ok E"
    and "reachable E cfg F c" and "crashed c \<inter> (config_nodes cfg - F) = {}"
    and "\<And>n. n \<in> config_nodes cfg - F \<Longrightarrow> collects_for w rd (members c n)"
    and "rd \<noteq> - 1" and "q \<in> config_nodes cfg - F" and "leads cfg q w"
  obtains c' h where "scheduled E cfg F (config_nodes cfg - F) c c'" and "byz_quorum cfg \<le> h" and "h \<le> cfg_n cfg"
    and "h \<noteq> 0" and "\<And>n. n \<in> config_nodes cfg - F \<Longrightarrow> done_round rd h (members c' n) \<and> (None, RepairDone n w rd h) \<in> set (net c')"
proof -
  obtain ns where ns: "set ns = config_nodes cfg - F" "distinct ns" and quorum: "unat (byz_quorum cfg) \<le> length ns"
    "0 < unat (byz_quorum cfg)" "0 < unat (f_plus_1 cfg)"
    by (rule correct_majority [OF assms(1-3)])
  have up: "\<And>n. n \<in> set ns \<Longrightarrow> up cfg F c n" using assms(6) ns(1) by (auto simp: up_def)
  obtain c1 where c1: "scheduled E cfg F (set ns) c c1"
    "\<And>n. n \<in> set ns \<Longrightarrow> open_round cfg n w rd (members c1 n) \<and>
       phase (state (members c1 n)) = CollectingLogs \<and> (\<exists>d. (None, LogMsg n w rd d) \<in> set (net c1))"
    using view_opens [OF assms(5) ns(2) up] assms(7) unfolding ns(1) by blast
  have q: "q \<in> set ns" using assms(9) ns(1) by simp
  have up1: "\<And>n. n \<in> set ns \<Longrightarrow> up cfg F c1 n" using up scheduled_up [OF c1(1)] by simp
  have nodes: "set ns \<subseteq> config_nodes cfg" "logged_by (members c1 q) \<subseteq> config_nodes cfg"
    using ns(1) logged_members [OF assms(1) scheduled_reachable [OF assms(5) c1(1)]] by auto
  obtain c2 N where c2: "scheduled E cfg F {q} c1 c2" "(None, RepairHistory q w rd (of_nat N)) \<in> set (net c2)"
    "unat (byz_quorum cfg) \<le> N" "N \<le> card (config_nodes cfg)"
    "\<And>n. n \<in> set ns \<Longrightarrow> open_round cfg n w rd (members c2 n)"
    using proposal_made [OF assms(4) ns(2) up1 c1(2) q assms(10) quorum nodes] by blast
  have "N \<le> unat (cfg_n cfg)" using c2(4) by (simp add: bft_config_facts [OF assms(1)])
  then have h: "byz_quorum cfg \<le> of_nat N" "of_nat N \<le> cfg_n cfg"
    using c2(3) unat_u64_less [of "cfg_n cfg"] by (simp_all add: word_le_nat_alt unat_of_nat)
  have up2: "\<And>n. n \<in> set ns \<Longrightarrow> up cfg F c2 n" using up1 scheduled_up [OF c2(1)] by simp
  obtain c3 where c3: "scheduled E cfg F (set ns) c2 c3"
    "\<And>n. n \<in> set ns \<Longrightarrow> done_round rd (of_nat N) (members c3 n) \<and> (None, RepairDone n w rd (of_nat N)) \<in> set (net c3)"
    using votes_complete [OF assms(4) ns(2) up2 c2(5) assms(8) quorum(2,3,1) c2(2)] by blast
  have "scheduled E cfg F (config_nodes cfg - F) c c3"
    using scheduled_then [OF scheduled_then [OF c1(1) c2(1)] c3(1)] q ns(1) by simp
  moreover have "(of_nat N :: u64) \<noteq> 0" using h(1) quorum(2) by auto
  ultimately show ?thesis using c3(2) h that unfolding ns(1) by blast
qed

section \<open>Properties\<close>


text \<open>Five correct nodes of six that have entered REPAIR on a forged conflict proof, in view 0. The leader
  of view 1 is \<open>r1\<close>.\<close>

definition entry_schedule :: "action list" where
  "entry_schedule = Inject (None, ConflictProof 0 0) # to_all (ConflictProof 0 0)"

lemma entry_schedule_check:
  "(case acts demo_env six_config {''r5''} entry_schedule (cluster_new six_config) of
      None \<Rightarrow> False
    | Some c \<Rightarrow> crashed c = {} \<and> list_all (\<lambda>p. is_LogMsg (snd p) \<or> is_ConflictProof (snd p)) (net c) \<and>
        list_all (\<lambda>n. phase (state (members c n)) = CollectingLogs \<and> view (state (members c n)) = 0 \<and>
          round (state (members c n)) = 0) [''r0'', ''r1'', ''r2'', ''r3'', ''r4''])"
  by code_simp

lemma correct_six: "config_nodes six_config - {''r5''} = {''r0'', ''r1'', ''r2'', ''r3'', ''r4''}"
  unfolding six_nodes_set by code_simp


end
