(* ===== verification/Sync_Run.thy ===== *)
theory Sync_Run
  imports Cluster_Run
begin

text \<open>
  Operations in a cluster: what replicas that executed the same operations do with each other's
  SYNCs. The decision of a replica on agreeing SYNCs is followed message by message, and then
  brought to a whole cluster with the schedules of \<open>Cluster_Run\<close>.
\<close>

section \<open>Counting agreeing SYNCs\<close>

abbreviation top_idx :: "replica \<Rightarrow> u64" where
  "top_idx r \<equiv> kv_size (state r) - 1"

abbreviation top_of :: "replica \<Rightarrow> hash" where
  "top_of r \<equiv> mem_top_hash (kv_store (state r))"

definition synced_by :: "replica \<Rightarrow> node_id set" where
  "synced_by r = {s. Sync s (round (state r)) (top_idx r) (top_of r) 0 |\<in>| sync_msgs (state r)}"

text \<open>A replica that exchanges SYNCs for its top index: all it holds for the index agree with its log,
  and no other message it holds lets it leave the fast path.\<close>

definition exchanging :: "replica \<Rightarrow> bool" where
  "exchanging r \<longleftrightarrow> phase (state r) = Speculative \<and> \<not> in_repair (state r) \<and> kv_size (state r) \<noteq> 0 \<and>
     (\<forall>m. m |\<in>| sync_msgs (state r) \<longrightarrow> sync_matches (round (state r)) (top_idx r) m \<longrightarrow>
        (\<exists>s. m = Sync s (round (state r)) (top_idx r) (top_of r) 0)) \<and>
     (\<forall>k. count_matching (chkpt_matches (round (state r)) k) (chkpt_msgs (state r)) < unat (f_plus_1 (config r))) \<and>
     (\<forall>k. count_matching (timeout_matches (round (state r)) k) (timeout_msgs (state r)) < unat (f_plus_1 (config r))) \<and>
     no_votes r \<and> card (logged_by r) < unat (byz_quorum (config r))"

lemma sync_count:
  assumes "exchanging r"
  shows "count_matching (sync_matches (round (state r)) (top_idx r)) (sync_msgs (state r)) = card (synced_by r)"
    and "count_matching (sync_agrees (round (state r)) (top_idx r) (top_of r)) (sync_msgs (state r)) =
      card (synced_by r)"
proof -
  let ?sync = "\<lambda>s. Sync s (round (state r)) (top_idx r) (top_of r) 0"
  have agree: "\<exists>s. m = ?sync s" if "m |\<in>| sync_msgs (state r)" "sync_matches (round (state r)) (top_idx r) m" for m
    using assms that by (auto simp: exchanging_def)
  have "{m \<in> fset (sync_msgs (state r)). sync_matches (round (state r)) (top_idx r) m} = ?sync ` synced_by r"
    using agree by (auto simp: synced_by_def)
  moreover have "sync_agrees rd k h m \<Longrightarrow> sync_matches rd k m" for rd k h m by (cases m) auto
  then have "{m \<in> fset (sync_msgs (state r)). sync_agrees (round (state r)) (top_idx r) (top_of r) m} =
      ?sync ` synced_by r"
    using agree by (fastforce simp: synced_by_def)
  moreover have "inj_on ?sync (synced_by r)" by (simp add: inj_on_def)
  ultimately show "count_matching (sync_matches (round (state r)) (top_idx r)) (sync_msgs (state r)) = card (synced_by r)"
    "count_matching (sync_agrees (round (state r)) (top_idx r) (top_of r)) (sync_msgs (state r)) = card (synced_by r)"
    by (simp_all add: count_matching_card card_image)
qed

lemma finite_synced [simp]: "finite (synced_by r)"
proof -
  have "synced_by r \<subseteq> (\<lambda>m. the (sender_of m)) ` fset (sync_msgs (state r))"
    by (force simp: synced_by_def)
  then show ?thesis by (rule finite_subset) simp
qed

text \<open>One more SYNC: the replica answers with its own, and then forms the checkpoint, enters REPAIR, or
  waits, as the number of SYNCs reaches the fast quorum, only the Byzantine quorum, or neither.\<close>

definition own_syncs :: "replica \<Rightarrow> effect list" where
  "own_syncs r = (if kv_size (state r) \<le> chkpt_idx (state r) then [] else handle_send_sync r (top_idx r))"

definition after_sync :: "replica \<Rightarrow> nat \<Rightarrow> replica \<times> effect list" where
  "after_sync r n =
     (if unat (fast_quorum (config r)) \<le> n then handle_form_checkpoint r (top_idx r)
      else if unat (byz_quorum (config r)) \<le> n then handle_conflict_proof r (top_idx r)
      else (r, []))"

lemma sync_message:
  assumes "iter_ok E" and x: "exchanging r" and m: "m = Sync s (round (state r)) (top_idx r) (top_of r) 0"
    and r': "r' = state_update (sync_msgs_update (finsert m)) r"
  shows "synced_by r' = insert s (synced_by r)" and "exchanging r'"
    and "process_message E m r = Inr (fst (after_sync r' (card (insert s (synced_by r)))),
      own_syncs r @ snd (after_sync r' (card (insert s (synced_by r)))))"
proof -
  show y: "synced_by r' = insert s (synced_by r)" by (auto simp: synced_by_def r' m)
  show x': "exchanging r'"
    using x by (auto simp: exchanging_def r' m no_votes_def logged_by_def)
  let ?n = "card (insert s (synced_by r))"
  note count = sync_count [OF x', unfolded y]
  have spec: "phase (state r) = Speculative" "\<not> in_repair (state r)" "kv_size (state r) \<noteq> 0"
    using x by (simp_all add: exchanging_def)
  have form: "can_form_checkpoint r' =
      (if unat (fast_quorum (config r)) \<le> ?n then Some (top_idx r) else None)"
    using spec count by (simp add: can_form_checkpoint_def Let_def r')
  have conflict: "can_conflict_proof r' =
      (if unat (byz_quorum (config r)) \<le> ?n \<and> \<not> unat (fast_quorum (config r)) \<le> ?n then Some (top_idx r) else None)"
    using spec count by (simp add: can_conflict_proof_def Let_def r' not_le)
  let ?c = "fst (handle_form_checkpoint r' (top_idx r))" and ?p = "start_repair r'"
  have conflict_c: "can_conflict_proof ?c = None" if "unat (fast_quorum (config r)) \<le> ?n"
    using that spec count by (simp add: can_conflict_proof_def Let_def handle_form_checkpoint_def r')
  have none: "can_enter_align r' = None" "can_timeout_proof r' = None"
    "can_enter_align ?c = None" "can_timeout_proof ?c = None"
    using x' unfolding exchanging_def
    by (simp_all add: can_enter_align_def can_timeout_proof_def Let_def handle_form_checkpoint_def not_le)
  have late: "can_broadcast_history t = None" "can_repair_prepare E t = None" "can_repair_commit t = None"
    "can_apply_repair t = None" "can_repair_done_catchup t = None" if "phase (state t) = Speculative" for t
    using that by (simp_all add: can_broadcast_history_def can_repair_prepare_def can_repair_commit_def
        can_apply_repair_def can_repair_done_catchup_def)
  have nv: "no_votes ?p" "in_repair (state ?p)"
    "0 < unat (byz_quorum (config ?p))" "0 < unat (f_plus_1 (config ?p))"
    using x' by (auto simp: exchanging_def start_repair_def no_votes_def)
  have lp: "logged_by ?p = logged_by r'" by (simp add: logged_by_def start_repair_def)
  have repair: "can_broadcast_history ?p = None" "can_repair_commit ?p = None" "can_apply_repair ?p = None"
    using x' log_senders [of ?p, unfolded lp]
    by (simp_all add: can_broadcast_history_def can_repair_commit_def can_apply_repair_def Let_def
        exchanging_def start_repair_def not_le)
  note repair = repair no_votes_prepare [OF assms(1) nv(1)] done_none [OF no_votes_one_history(1) [OF nv]]
  have sync: "can_send_sync_threshold r = (if kv_size (state r) \<le> chkpt_idx (state r) then None else Some (top_idx r))"
    using spec by (simp add: can_send_sync_threshold_def)
  have other: "can_speculate t m = None" "can_enter_repair t m = None" "can_state_request m = None"
    "can_state_reply t m = None" for t
    by (simp_all add: m can_speculate_def can_enter_repair_def can_state_reply_def)
  have st: "store_sync r m = r'" "store_chkpt t m = t" "store_timeout t m = t" "store_log t m = t"
    "store_history t m = t" "store_prepare t m = t" "store_commit t m = t" "store_done t m = t" for t
    by (simp_all add: m r' store_defs)
  have cfg: "config r' = config r" "kv_size (state r') = kv_size (state r)" by (simp_all add: r')
  show "process_message E m r = Inr (fst (after_sync r' ?n), own_syncs r @ snd (after_sync r' ?n))"
  proof (cases "unat (fast_quorum (config r)) \<le> ?n")
    case True
    obtain c es where fc: "handle_form_checkpoint r' (top_idx r) = (c, es)" by fastforce
    have c: "phase (state c) = Speculative" using fc spec by (auto simp: handle_form_checkpoint_def Let_def r')
    have "can_conflict_proof c = None" "can_enter_align c = None" "can_timeout_proof c = None"
      using conflict_c [OF True] none(3,4) fc by simp_all
    with True sync other st form late [OF c] fc cfg show ?thesis
      by (simp add: process_message_def message_steps_def receive_defs Let_def own_syncs_def after_sync_def)
  next
    case False
    show ?thesis
    proof (cases "unat (byz_quorum (config r)) \<le> ?n")
      case True
      obtain d es where fc: "handle_conflict_proof r' (top_idx r) = (d, es)" and d: "d = ?p"
        by (simp add: handle_conflict_proof_def)
      have "can_timeout_proof d = None" by (simp add: d can_timeout_proof_def start_repair_def)
      with True False sync other st form conflict none(1) repair [folded d] fc cfg show ?thesis
        by (simp add: process_message_def message_steps_def receive_defs Let_def own_syncs_def after_sync_def)
    next
      case less: False
      have s: "phase (state r') = Speculative" using spec by (simp add: r')
      show ?thesis
        using less False sync other st form conflict none(1,2) late [OF s] cfg
        by (simp add: process_message_def message_steps_def receive_defs Let_def own_syncs_def after_sync_def)
    qed
  qed
qed


text \<open>What a replica has decided about its top index \<open>k\<close> with log hash \<open>H\<close>.\<close>

definition checkpointed :: "u64 \<Rightarrow> hash \<Rightarrow> replica \<Rightarrow> bool" where
  "checkpointed k H r \<longleftrightarrow> phase (state r) = Speculative \<and> chkpt_idx (state r) = k \<and> chkpt_hash (state r) = H"

definition collecting :: "replica \<Rightarrow> bool" where
  "collecting r \<longleftrightarrow> phase (state r) = CollectingLogs \<and> in_repair (state r)"

text \<open>The quorum of SYNCs at which the code decides, and the decision.\<close>

definition decides_at :: "config \<Rightarrow> nat" where
  "decides_at cfg = min (unat (fast_quorum cfg)) (unat (byz_quorum cfg))"

definition decision :: "config \<Rightarrow> node_id \<Rightarrow> u64 \<Rightarrow> u64 \<Rightarrow> hash \<Rightarrow> message" where
  "decision cfg n rd k H = (if unat (fast_quorum cfg) \<le> unat (byz_quorum cfg) then Checkpoint n rd k H else ConflictProof rd k)"

definition decided :: "replica \<Rightarrow> u64 \<Rightarrow> hash \<Rightarrow> replica \<Rightarrow> bool" where
  "decided r k H r' \<longleftrightarrow> same_place r r' \<and> same_votes r r' \<and> kv_store (state r') = kv_store (state r) \<and>
     kv_size (state r') = kv_size (state r) \<and>
     (if unat (fast_quorum (config r)) \<le> unat (byz_quorum (config r)) then checkpointed k H r' else collecting r')"

lemma after_sync_decides:
  assumes "exchanging r" and "n = decides_at (config r)"
  shows "decided r (top_idx r) (top_of r) (fst (after_sync r n))"
    and "Broadcast (decision (config r) (node_id (state r)) (round (state r)) (top_idx r) (top_of r))
      \<in> set (snd (after_sync r n))"
  using assms
  by (auto simp: exchanging_def decided_def after_sync_def decides_at_def decision_def same_place_def
      same_votes_def checkpointed_def collecting_def handle_form_checkpoint_def handle_conflict_proof_def start_repair_def Let_def)

lemma syncs_run:
  assumes "iter_ok E"
  shows "exchanging r \<Longrightarrow> distinct ss \<Longrightarrow> set ss \<inter> synced_by r = {} \<Longrightarrow> ss \<noteq> [] \<Longrightarrow>
    card (synced_by r) + length ss = decides_at (config r) \<Longrightarrow>
    rd = round (state r) \<Longrightarrow> k = top_idx r \<Longrightarrow> H = top_of r \<Longrightarrow>
    \<exists>r' es. replica_run E (map (\<lambda>s. InMessage (Sync s rd k H 0)) ss) r = Inr (r', es) \<and> decided r k H r' \<and>
      Broadcast (decision (config r) (node_id (state r)) rd k H) \<in> set es"
proof (induction ss arbitrary: r)
  case (Cons s ss)
  let ?m = "Sync s rd k H 0"
  let ?r1 = "state_update (sync_msgs_update (finsert ?m)) r"
  have m: "?m = Sync s (round (state r)) (top_idx r) (top_of r) 0" using Cons.prems(6-8) by simp
  note step = sync_message [OF assms Cons.prems(1) m refl]
  have c: "card (insert s (synced_by r)) = Suc (card (synced_by r))" using Cons.prems(3) by simp
  have same: "config ?r1 = config r" "node_id (state ?r1) = node_id (state r)" "round (state ?r1) = round (state r)"
    "kv_size (state ?r1) = kv_size (state r)" "kv_store (state ?r1) = kv_store (state r)"
    "view (state ?r1) = view (state r)"
    by simp_all
  have pass: "decided ?r1 k H r' \<Longrightarrow> decided r k H r'" for r'
    by (simp add: decided_def same_place_def same_votes_def)
  show ?case
  proof (cases ss)
    case Nil
    then have n: "card (insert s (synced_by r)) = decides_at (config ?r1)" using c Cons.prems(5) by simp
    note d = after_sync_decides [OF step(2) n, unfolded same, folded Cons.prems(6-8)]
    have "replica_run E (map (\<lambda>s. InMessage (Sync s rd k H 0)) (s # ss)) r =
        Inr (fst (after_sync ?r1 (card (insert s (synced_by r)))),
          own_syncs r @ snd (after_sync ?r1 (card (insert s (synced_by r)))))"
      using Nil step(3) by (simp add: replica_run_def)
    then show ?thesis using pass [OF d(1)] d(2) by auto
  next
    case (Cons s' ss')
    then have "\<not> unat (fast_quorum (config ?r1)) \<le> card (insert s (synced_by r))"
      "\<not> unat (byz_quorum (config ?r1)) \<le> card (insert s (synced_by r))"
      using c Cons.prems(5) by (auto simp: decides_at_def)
    then have one: "process_message E ?m r = Inr (?r1, own_syncs r)"
      using step(3) by (simp add: after_sync_def)
    have "distinct ss" "set ss \<inter> synced_by ?r1 = {}" "ss \<noteq> []"
      "card (synced_by ?r1) + length ss = decides_at (config ?r1)"
      "rd = round (state ?r1)" "k = top_idx ?r1" "H = top_of ?r1"
      unfolding step(1) using Cons.prems(2,3,5-8) c Cons by auto
    from Cons.IH [OF step(2) this] obtain r' es where
      "replica_run E (map (\<lambda>s. InMessage (Sync s rd k H 0)) ss) ?r1 = Inr (r', es)" "decided ?r1 k H r'"
      "Broadcast (decision (config r) (node_id (state r)) rd k H) \<in> set es"
      unfolding same by blast
    then show ?thesis using replica_run_Cons [OF one] pass by auto
  qed
qed simp


section \<open>Executing operations\<close>

text \<open>The store after executing \<open>n\<close> operations from index \<open>k\<close> on.\<close>

fun exec_store :: "env \<Rightarrow> nat \<Rightarrow> u64 \<Rightarrow> mem_inner \<Rightarrow> mem_inner" where
  "exec_store E 0 k store = store"
| "exec_store E (Suc n) k store = exec_store E n (k + 1)
     (case mem_put store k (next_entry E store k) of Inl e \<Rightarrow> store | Inr store' \<Rightarrow> store')"

definition at_log :: "mem_inner \<Rightarrow> u64 \<Rightarrow> replica \<Rightarrow> replica" where
  "at_log store k r = state_update (\<lambda>s. s\<lparr>kv_store := store, kv_size := k\<rparr>) r"

definition sync_of :: "replica \<Rightarrow> message" where
  "sync_of r = Sync (node_id (state r)) (round (state r)) (top_idx r) (top_of r) (eta_star (state r))"

lemma speculate_step:
  assumes "encode_total E" and "fast_log E r" and "kv_size (state r) \<noteq> - 1" and "is_Speculate m"
  shows "\<exists>es. process_message E m r = Inr (at_log (exec_store E 1 (kv_size (state r)) (kv_store (state r)))
        (kv_size (state r) + 1) r, es) \<and>
      fast_log E (at_log (exec_store E 1 (kv_size (state r)) (kv_store (state r))) (kv_size (state r) + 1) r) \<and>
      Broadcast (sync_of (at_log (exec_store E 1 (kv_size (state r)) (kv_store (state r)))
        (kv_size (state r) + 1) r)) \<in> set es"
proof -
  let ?k = "kv_size (state r)" and ?st = "kv_store (state r)"
  have q: "quiet r" and ok: "log_ok (state r)" using assms(2) by (simp_all add: fast_log_def)
  obtain store h where sp: "handle_speculate E r ?k =
       Inr (state_update (\<lambda>s. s\<lparr>kv_store := store, kv_size := ?k + 1\<rparr>) r,
            [Broadcast (SpecReply (node_id (state r)) (round (state r)) ?k h)])"
    by (rule handle_speculate_ok [OF assms(1) ok assms(3)])
  let ?r = "at_log (exec_store E 1 ?k ?st) (?k + 1) r"
  have "mem_put ?st ?k (next_entry E ?st ?k) = Inr store"
    by (rule handle_speculate_Inr [OF sp]) (auto dest!: arg_cong [where f = "\<lambda>r. kv_store (state r)"])
  then have r: "state_update (\<lambda>s. s\<lparr>kv_store := store, kv_size := ?k + 1\<rparr>) r = ?r" by (simp add: at_log_def)
  have pos: "?k + 1 \<noteq> 0" using assms(3) by (simp add: eq_neg_iff_add_eq_0)
  have run: "process_message E m r = Inr (?r, [Broadcast (SpecReply (node_id (state r)) (round (state r)) ?k h)] @
      handle_send_sync ?r (kv_size (state ?r) - 1))"
    by (rule quiet_speculate [OF q assms(4) sp [unfolded r]])
      (use pos assms(2) in \<open>auto simp: fast_log_def word_gt_0 at_log_def\<close>)
  then have "fast_log E ?r"
    using fast_log_step [OF assms] by (metis Inr_inject fst_conv)
  with run show ?thesis by (auto simp: handle_send_sync_def Let_def sync_of_def)
qed

lemma exec_store_add: "exec_store E n (k + 1) (exec_store E 1 k st) = exec_store E (Suc n) k st"
  by simp

lemma speculates_run:
  assumes "encode_total E"
  shows "fast_log E r \<Longrightarrow> \<forall>m \<in> set ms. is_Speculate m \<Longrightarrow> ms \<noteq> [] \<Longrightarrow>
    unat (kv_size (state r)) + length ms < 2 ^ 64 \<Longrightarrow>
    \<exists>es. replica_run E (map InMessage ms) r =
        Inr (at_log (exec_store E (length ms) (kv_size (state r)) (kv_store (state r)))
               (kv_size (state r) + of_nat (length ms)) r, es) \<and>
      Broadcast (sync_of (at_log (exec_store E (length ms) (kv_size (state r)) (kv_store (state r)))
               (kv_size (state r) + of_nat (length ms)) r)) \<in> set es"
proof (induction ms arbitrary: r)
  case (Cons m ms)
  let ?k = "kv_size (state r)" and ?st = "kv_store (state r)"
  let ?r = "at_log (exec_store E 1 ?k ?st) (?k + 1) r"
  have ne: "?k \<noteq> - 1" using Cons.prems(4) unat_u64_max by auto
  obtain es where es: "process_message E m r = Inr (?r, es)" "fast_log E ?r" "Broadcast (sync_of ?r) \<in> set es"
    using speculate_step [OF assms Cons.prems(1) ne, of m] Cons.prems(2) by auto
  show ?case
  proof (cases "ms = []")
    case True
    have "replica_run E (map InMessage (m # ms)) r = Inr (?r, es)"
      using es(1) True by (simp add: replica_run_def)
    with es(3) True show ?thesis by simp
  next
    case False
    have k: "kv_size (state ?r) = ?k + 1" "kv_store (state ?r) = exec_store E 1 ?k ?st"
      by (simp_all add: at_log_def del: exec_store.simps)
    have again: "at_log a b ?r = at_log a b r" for a b by (simp add: at_log_def comp_def)
    have "unat (kv_size (state ?r)) + length ms < 2 ^ 64"
      unfolding k(1) using Cons.prems(4) ne by (simp add: unat_succ_u64)
    from Cons.IH [OF es(2) _ False this] Cons.prems(2)
    obtain fs where fs: "replica_run E (map InMessage ms) ?r =
        Inr (at_log (exec_store E (Suc (length ms)) ?k ?st) (?k + 1 + of_nat (length ms)) r, fs)"
      "Broadcast (sync_of (at_log (exec_store E (Suc (length ms)) ?k ?st) (?k + 1 + of_nat (length ms)) r)) \<in> set fs"
      unfolding k again exec_store_add by auto
    then show ?thesis using replica_run_Cons [OF es(1)] by (auto simp: add.assoc simp del: exec_store.simps)
  qed
qed simp


section \<open>Operations in a cluster\<close>

lemma submits:
  "\<exists>c' ms. acts E cfg F (map SubmitOp hs) c = Some c' \<and> members c' = members c \<and> crashed c' = crashed c \<and>
     net c' = net c @ map (Pair None) ms \<and> length ms = length hs \<and> (\<forall>m \<in> set ms. is_Speculate m)"
proof (induction hs arbitrary: c)
  case (Cons h hs)
  let ?sq = "snd (submit wire_api h (sequencer_of c))"
  let ?c = "c\<lparr>sequencer_of := ?sq, net := net c @ [(None, last (sender ?sq))]\<rparr>"
  obtain c' ms where c': "acts E cfg F (map SubmitOp hs) ?c = Some c'" "members c' = members ?c"
    "crashed c' = crashed ?c" "net c' = net ?c @ map (Pair None) ms" "length ms = length hs"
    "\<forall>m \<in> set ms. is_Speculate m"
    using Cons.IH by blast
  have "is_Speculate (last (sender ?sq))"
    by (simp add: submit_def eta_next_def wire_api_def Let_def)
  then show ?case
    using c' by (intro exI [of _ c'] exI [of _ "last (sender ?sq) # ms"]) (simp add: Let_def)
qed (auto intro!: exI [of _ "[]"])

lemma at_log_fresh:
  assumes "bft_config cfg" and "k \<noteq> 0"
  shows "exchanging (at_log st k (fresh_replica cfg n))" and "synced_by (at_log st k (fresh_replica cfg n)) = {}"
proof -
  have "0 < unat (byz_quorum cfg)" "0 < unat (f_plus_1 cfg)"
    using bft_config_bound [OF assms(1)] by (simp_all add: bft_config_facts [OF assms(1)])
  then show "exchanging (at_log st k (fresh_replica cfg n))" "synced_by (at_log st k (fresh_replica cfg n)) = {}"
    using assms(2)
    by (simp_all add: exchanging_def synced_by_def at_log_def fresh_replica_def initial_state_def no_votes_def logged_by_def)
qed

lemma of_nat_length_pos: "xs \<noteq> [] \<Longrightarrow> length xs < 2 ^ 64 \<Longrightarrow> (of_nat (length xs) :: u64) \<noteq> 0"
  by (auto simp: word_of_nat_eq_0_iff dest!: dvd_imp_le)

text \<open>Every correct node executes the operations and announces its log.\<close>

lemma everyone_executes:
  assumes "encode_total E" and "bft_config cfg" and "distinct ns" and "\<And>n. n \<in> set ns \<Longrightarrow> up cfg F c n"
    and "\<And>n. n \<in> set ns \<Longrightarrow> members c n = fresh_replica cfg n"
    and "ms \<noteq> []" and "length ms < 2 ^ 64" and "\<forall>m \<in> set ms. is_Speculate m \<and> (None, m) \<in> set (net c)"
    and "st = exec_store E (length ms) 0 mem_new" and "k = of_nat (length ms)"
  shows "\<exists>c'. scheduled E cfg F (set ns) c c' \<and> (\<forall>n \<in> set ns. members c' n = at_log st k (fresh_replica cfg n) \<and>
    (\<forall>m \<in> set [Sync n 0 (k - 1) (mem_top_hash st) 0]. (None, m) \<in> set (net c')))"
proof (rule everyone [OF _ assms(3,4)])
  fix n assume n: "n \<in> set ns"
  let ?r = "fresh_replica cfg n"
  have pos: "fast_quorum cfg \<noteq> 0" "byz_quorum cfg \<noteq> 0" "f_plus_1 cfg \<noteq> 0"
    using bft_config_bound [OF assms(2)] bft_config_facts [OF assms(2)] by auto
  have init: "kv_size (state ?r) = 0" "kv_store (state ?r) = mem_new"
    by (simp_all add: fresh_replica_def initial_state_def)
  have "sync_of (at_log st k ?r) = Sync n 0 (k - 1) (mem_top_hash st) 0"
    by (simp add: sync_of_def at_log_def fresh_replica_def initial_state_def)
  then obtain es where "replica_run E (map InMessage ms) ?r = Inr (at_log st k ?r, es)"
    "Broadcast (Sync n 0 (k - 1) (mem_top_hash st) 0) \<in> set es"
    using speculates_run [OF assms(1) fast_log_fresh [OF pos], of ms n] assms(6-8)
    by (auto simp: init assms(9,10))
  moreover have "list_all (broadcast_in (net c)) (map InMessage ms)"
    using assms(8) by (auto simp: list_all_iff broadcast_in_def)
  ultimately show "\<exists>ins r es. replica_run E ins (members c n) = Inr (r, es) \<and> list_all (broadcast_in (net c)) ins \<and>
      r = at_log st k ?r \<and> (\<forall>m \<in> set [Sync n 0 (k - 1) (mem_top_hash st) 0]. Broadcast m \<in> set es)"
    unfolding assms(5) [OF n] by fastforce
qed

lemma everyone_decides:
  assumes "iter_ok E" and "bft_config cfg" and "distinct ns" and "\<And>n. n \<in> set ns \<Longrightarrow> up cfg F c n"
    and "\<And>n. n \<in> set ns \<Longrightarrow> members c n = at_log st k (fresh_replica cfg n)" and "k \<noteq> 0"
    and "distinct ss" and "ss \<noteq> []" and "length ss = decides_at cfg"
    and "\<And>s. s \<in> set ss \<Longrightarrow> (None, Sync s 0 (k - 1) (mem_top_hash st) 0) \<in> set (net c)"
  shows "\<exists>c'. scheduled E cfg F (set ns) c c' \<and> (\<forall>n \<in> set ns.
    decided (at_log st k (fresh_replica cfg n)) (k - 1) (mem_top_hash st) (members c' n) \<and>
    (\<forall>m \<in> set [decision cfg n 0 (k - 1) (mem_top_hash st)]. (None, m) \<in> set (net c')))"
proof (rule everyone [OF _ assms(3,4)])
  fix n assume n: "n \<in> set ns"
  let ?r = "at_log st k (fresh_replica cfg n)"
  let ?ins = "map (\<lambda>s. InMessage (Sync s 0 (k - 1) (mem_top_hash st) 0)) ss"
  note x = at_log_fresh [OF assms(2,6), of st n]
  have r: "config ?r = cfg" "node_id (state ?r) = n" "round (state ?r) = 0" "top_idx ?r = k - 1" "top_of ?r = mem_top_hash st"
    by (simp_all add: at_log_def fresh_replica_def initial_state_def)
  have "set ss \<inter> synced_by ?r = {}" "card (synced_by ?r) + length ss = decides_at (config ?r)"
    using x(2) assms(9) r(1) by simp_all
  from syncs_run [OF assms(1) x(1) assms(7) this(1) assms(8) this(2) r(3-5) [symmetric]] obtain r es where
    "replica_run E ?ins ?r = Inr (r, es)" "decided ?r (k - 1) (mem_top_hash st) r"
    "Broadcast (decision cfg n 0 (k - 1) (mem_top_hash st)) \<in> set es"
    unfolding r(1,2) by blast
  moreover have "list_all (broadcast_in (net c)) ?ins"
    using assms(10) by (auto simp: list_all_iff broadcast_in_def)
  ultimately show "\<exists>ins r es. replica_run E ins (members c n) = Inr (r, es) \<and> list_all (broadcast_in (net c)) ins \<and>
      decided ?r (k - 1) (mem_top_hash st) r \<and>
      (\<forall>m \<in> set [decision cfg n 0 (k - 1) (mem_top_hash st)]. Broadcast m \<in> set es)"
    unfolding assms(5) [OF n] by fastforce
qed

text \<open>The whole way: operations are submitted, executed and announced by all correct nodes, and decided.\<close>

lemma operations_decided:
  assumes "bft_config cfg" and "finite F" and "card F \<le> unat (cfg_f cfg)" and "iter_ok E" and "encode_total E"
    and "hs \<noteq> []" and "length hs < 2 ^ 64" and "st = exec_store E (length hs) 0 mem_new" and "k = of_nat (length hs)"
  obtains c0 c1 c2 where "acts E cfg F (map SubmitOp hs) (cluster_new cfg) = Some c0" and "crashed c0 = {}"
    and "scheduled E cfg F (config_nodes cfg - F) c0 c1" and "scheduled E cfg F (config_nodes cfg - F) c1 c2"
    and "\<And>n. n \<in> config_nodes cfg - F \<Longrightarrow> members c1 n = at_log st k (fresh_replica cfg n)"
    and "\<And>n. n \<in> config_nodes cfg - F \<Longrightarrow> decided (at_log st k (fresh_replica cfg n)) (k - 1) (mem_top_hash st) (members c2 n) \<and>
       (None, decision cfg n 0 (k - 1) (mem_top_hash st)) \<in> set (net c2)"
proof -
  obtain ns where ns: "set ns = config_nodes cfg - F" "distinct ns" and quorum: "unat (byz_quorum cfg) \<le> length ns"
    "0 < unat (byz_quorum cfg)" "0 < unat (f_plus_1 cfg)"
    by (rule correct_majority [OF assms(1-3)])
  obtain c0 ms where c0: "acts E cfg F (map SubmitOp hs) (cluster_new cfg) = Some c0"
    "members c0 = fresh_replica cfg" "crashed c0 = {}" "net c0 = map (Pair None) ms"
    "length ms = length hs" "\<forall>m \<in> set ms. is_Speculate m"
    using submits [of E cfg F hs "cluster_new cfg"] by (auto simp: cluster_new_def)
  have up0: "\<And>n. n \<in> set ns \<Longrightarrow> up cfg F c0 n" using ns(1) c0(3) by (auto simp: up_def)
  have ms: "ms \<noteq> []" "length ms < 2 ^ 64" "\<forall>m \<in> set ms. is_Speculate m \<and> (None, m) \<in> set (net c0)"
    using assms(6,7) c0(4-6) by auto
  obtain c1 where c1: "scheduled E cfg F (set ns) c0 c1"
    "\<And>n. n \<in> set ns \<Longrightarrow> members c1 n = at_log st k (fresh_replica cfg n)"
    "\<And>n. n \<in> set ns \<Longrightarrow> (None, Sync n 0 (k - 1) (mem_top_hash st) 0) \<in> set (net c1)"
    using everyone_executes [OF assms(5,1) ns(2) up0 _ ms, of st k] c0(2,5) assms(8,9) by auto
  have up1: "\<And>n. n \<in> set ns \<Longrightarrow> up cfg F c1 n" using up0 scheduled_up [OF c1(1)] by simp
  let ?ss = "take (decides_at cfg) ns"
  have "0 < unat (fast_quorum cfg)"
    using bft_config_bound [OF assms(1)] by (simp add: bft_config_facts [OF assms(1)])
  then have ss: "distinct ?ss" "?ss \<noteq> []" "length ?ss = decides_at cfg" "set ?ss \<subseteq> set ns"
    using ns(2) quorum by (auto simp: set_take_subset decides_at_def)
  have "k \<noteq> 0" using of_nat_length_pos [OF assms(6,7)] assms(9) by simp
  then obtain c2 where "scheduled E cfg F (set ns) c1 c2"
    "\<And>n. n \<in> set ns \<Longrightarrow> decided (at_log st k (fresh_replica cfg n)) (k - 1) (mem_top_hash st) (members c2 n) \<and>
      (None, decision cfg n 0 (k - 1) (mem_top_hash st)) \<in> set (net c2)"
    using everyone_decides [OF assms(4,1) ns(2) up1 c1(2) _ ss(1-3) c1(3) [OF subsetD [OF ss(4)]]] by auto
  with c0(1,3) c1(1,2) that show ?thesis unfolding ns(1) by blast
qed

section \<open>Properties\<close>

text \<open>C5: What happens to operations when nothing goes wrong. Let clients submit operations to a new
  cluster with at most \<open>f\<close> faulty nodes. Then deliveries at the correct nodes lead all of them to the
  same log of these operations and the same log hash, and then, on agreeing SYNCs of correct nodes
  alone, to one decision, without a panic. If the fast quorum does not exceed the Byzantine
  quorum (\<open>p \<ge> f\<close>) every correct node has formed the checkpoint of that log and announced it. If it
  does (\<open>p < f\<close>), every correct node has sent a CONFLICT-PROOF and entered REPAIR instead, although
  no two of the SYNCs differ.\<close>

theorem cluster_operations_decide:
  assumes "bft_config cfg" and "finite F" and "card F \<le> unat (cfg_f cfg)" and "iter_ok E" and "encode_total E"
    and "hs \<noteq> []" and "length hs < 2 ^ 64"
  shows "\<exists>as c' store. set as \<subseteq> (\<Union>n \<in> config_nodes cfg - F. range (drive n)) \<and>
    acts E cfg F (map SubmitOp hs @ as) (cluster_new cfg) = Some c' \<and> crashed c' = {} \<and>
    (\<forall>n \<in> config_nodes cfg - F. kv_store (state (members c' n)) = store \<and>
       kv_size (state (members c' n)) = of_nat (length hs) \<and> round (state (members c' n)) = 0 \<and>
       (if unat (fast_quorum cfg) \<le> unat (byz_quorum cfg)
        then phase (state (members c' n)) = Speculative \<and>
          chkpt_idx (state (members c' n)) = of_nat (length hs) - 1 \<and>
          (None, Checkpoint n 0 (of_nat (length hs) - 1) (mem_top_hash store)) \<in> set (net c')
        else phase (state (members c' n)) = CollectingLogs \<and>
          (None, ConflictProof 0 (of_nat (length hs) - 1)) \<in> set (net c')))"
proof -
  let ?N = "config_nodes cfg - F" and ?k = "of_nat (length hs) :: u64"
  let ?st = "exec_store E (length hs) 0 mem_new"
  obtain c0 c1 c2 where c: "acts E cfg F (map SubmitOp hs) (cluster_new cfg) = Some c0" "crashed c0 = {}"
    "scheduled E cfg F ?N c0 c1" "scheduled E cfg F ?N c1 c2"
    "\<And>n. n \<in> ?N \<Longrightarrow> decided (at_log ?st ?k (fresh_replica cfg n)) (?k - 1) (mem_top_hash ?st) (members c2 n) \<and>
      (None, decision cfg n 0 (?k - 1) (mem_top_hash ?st)) \<in> set (net c2)"
    by (rule operations_decided [OF assms refl refl]) blast
  have "scheduled E cfg F ?N c0 c2" using scheduled_then [OF c(3,4)] by simp
  then obtain as where as: "set as \<subseteq> (\<Union>n \<in> ?N. range (drive n))" "acts E cfg F as c0 = Some c2"
    "crashed c2 = {}"
    unfolding scheduled_def c(2) by blast
  have "acts E cfg F (map SubmitOp hs @ as) (cluster_new cfg) = Some c2" using c(1) as(2) by (simp add: acts_append)
  then show ?thesis
    using as(1,3) c(5)
    by (intro exI [of _ as] exI [of _ c2] exI [of _ ?st])
       (auto simp: decided_def same_place_def checkpointed_def collecting_def decision_def at_log_def
          fresh_replica_def initial_state_def)
qed

text \<open>The smallest cluster without fast-path faults: \<open>n = 4\<close>, \<open>f = 1\<close>, \<open>p = 0\<close>.\<close>

definition four_config :: config where
  "four_config = (case for_test True 4 1 0 of Inl e \<Rightarrow> six_config | Inr c \<Rightarrow> c)"

lemma four_config_bft: "bft_config four_config" "cfg_f four_config = 1"
  "\<not> unat (fast_quorum four_config) \<le> unat (byz_quorum four_config)"
  "''r0'' \<in> config_nodes four_config"
proof -
  have c: "for_test True 4 1 0 = Inr four_config" "cfg_n four_config = 4" "cfg_f four_config = 1" "cfg_p four_config = 0"
    by code_simp+
  then show "bft_config four_config" unfolding bft_config_def by (auto intro!: exI [of _ True])
  show "cfg_f four_config = 1" by (rule c(3))
  show "\<not> unat (fast_quorum four_config) \<le> unat (byz_quorum four_config)" by code_simp
  show "''r0'' \<in> config_nodes four_config" by code_simp
qed

lemma cluster_operations_decide_witness:
  "(\<exists>as c'. acts demo_env six_config {''r5''} (map SubmitOp [zero_hash, zero_hash] @ as) (cluster_new six_config) = Some c' \<and>
      (\<exists>H. (None, Checkpoint ''r0'' 0 1 H) \<in> set (net c'))) \<and>
   (\<exists>as c'. acts demo_env four_config {} (map SubmitOp [zero_hash] @ as) (cluster_new four_config) = Some c' \<and>
      phase (state (members c' ''r0'')) = CollectingLogs \<and> (None, ConflictProof 0 0) \<in> set (net c'))"
proof
  have six: "finite {''r5''}" "card {''r5''} \<le> unat (cfg_f six_config)" "''r0'' \<in> config_nodes six_config - {''r5''}"
    "unat (fast_quorum six_config) \<le> unat (byz_quorum six_config)"
    using correct_members by (simp_all add: six_config_def)
  show "\<exists>as c'. acts demo_env six_config {''r5''} (map SubmitOp [zero_hash, zero_hash] @ as) (cluster_new six_config) = Some c' \<and>
      (\<exists>H. (None, Checkpoint ''r0'' 0 1 H) \<in> set (net c'))"
    using cluster_operations_decide [OF six_config_bft six(1,2) demo_env_ok(2,1), of "[zero_hash, zero_hash]"]
      six(3,4) by fastforce
  have four: "finite {}" "card ({} :: node_id set) \<le> unat (cfg_f four_config)" by simp_all
  show "\<exists>as c'. acts demo_env four_config {} (map SubmitOp [zero_hash] @ as) (cluster_new four_config) = Some c' \<and>
      phase (state (members c' ''r0'')) = CollectingLogs \<and> (None, ConflictProof 0 0) \<in> set (net c')"
    using cluster_operations_decide [OF four_config_bft(1) four demo_env_ok(2,1), of "[zero_hash]"]
      four_config_bft(3,4) by fastforce
qed

end
