(* ===== verification/Spec_Invariants.thy ===== *)
theory Spec_Invariants
  imports Cluster_Run
begin

text \<open>
  The safety invariants that the Quint specification \<^verbatim>\<open>src/specs/aspen.qnt\<close> states of a system, as
  predicates on the clusters of \<open>Cluster\<close>, and what the code guarantees of them: a correct replica sends
  one LOG per view and round, correct nodes send nothing without evidence in the network, and
  as long as one history is proposed per view and round the invariants on histories hold.
\<close>

section \<open>Invariants of the specification\<close>

text \<open>The safety invariants of \<^verbatim>\<open>aspen.qnt\<close> on a cluster: the messages of a node are those that reach it,
  and the faulty nodes, which have no state here, are left out of the quantifiers.\<close>

abbreviation local_state :: "cluster \<Rightarrow> node_id \<Rightarrow> replica_state" where
  "local_state c n \<equiv> state (members c n)"

definition messages :: "cluster \<Rightarrow> node_id \<Rightarrow> message set" where
  "messages c n = {m. reaches (net c) n m}"

definition checkpoints_agree :: "node_id set \<Rightarrow> cluster \<Rightarrow> bool" where
  "checkpoints_agree correct c \<longleftrightarrow> (\<forall>r1 \<in> correct. \<forall>r2 \<in> correct.
     let st1 = local_state c r1; st2 = local_state c r2
     in chkpt_idx st1 = chkpt_idx st2 \<and> chkpt_idx st1 > 0 \<longrightarrow> chkpt_hash st1 = chkpt_hash st2)"

definition repair_history_agreement :: "node_id set \<Rightarrow> cluster \<Rightarrow> bool" where
  "repair_history_agreement correct c \<longleftrightarrow> (\<forall>r1 \<in> correct. \<forall>r2 \<in> correct.
     let st1 = local_state c r1; st2 = local_state c r2
     in phase st1 = CommitPhase \<and> phase st2 = CommitPhase \<and> view st1 = view st2 \<and> round st1 = round st2 \<longrightarrow>
        proposed_history_hash st1 = proposed_history_hash st2)"

definition phase_consistency :: "node_id set \<Rightarrow> cluster \<Rightarrow> bool" where
  "phase_consistency correct c \<longleftrightarrow> (\<forall>r \<in> correct. let st = local_state c r
     in in_repair st \<longrightarrow> phase st \<noteq> Speculative \<and> phase st \<noteq> Aligning)"

definition only_leader_proposes_history :: "config \<Rightarrow> node_id set \<Rightarrow> cluster \<Rightarrow> bool" where
  "only_leader_proposes_history cfg correct c \<longleftrightarrow> (\<forall>r \<in> correct. let st = local_state c r
     in phase st = PreparePhase \<longrightarrow> (\<exists>m \<in> messages c r. case m of
          RepairHistory s v rd h \<Rightarrow> v = view st \<and> rd = round st \<and> leads cfg s (view st) | _ \<Rightarrow> False))"

definition log_equivocation_in :: "node_id \<Rightarrow> message set \<Rightarrow> bool" where
  "log_equivocation_in n ms \<longleftrightarrow> (\<exists>v rd a b. LogMsg n v rd a \<in> ms \<and> LogMsg n v rd b \<in> ms \<and> a \<noteq> b)"

definition prepare_equivocation_in :: "node_id \<Rightarrow> message set \<Rightarrow> bool" where
  "prepare_equivocation_in n ms \<longleftrightarrow>
     (\<exists>v rd a b. RepairPrepare n v rd a \<in> ms \<and> RepairPrepare n v rd b \<in> ms \<and> a \<noteq> b)"

definition no_honest_equivocation :: "config \<Rightarrow> node_id set \<Rightarrow> cluster \<Rightarrow> bool" where
  "no_honest_equivocation cfg correct c \<longleftrightarrow> (\<forall>r \<in> correct. \<forall>receiver \<in> config_nodes cfg.
     \<not> log_equivocation_in r (messages c receiver) \<and> \<not> prepare_equivocation_in r (messages c receiver))"

section \<open>One LOG per view and round\<close>

text \<open>The LOGs a replica may have sent, in the order of rounds and then of views. In REPAIR it has sent
  the one for its view and round, and otherwise none for its round.\<close>

definition log_stage :: "u64 \<Rightarrow> u64 \<Rightarrow> nat" where
  "log_stage v rd = unat rd * 18446744073709551617 + unat v + 1"

definition stage :: "replica_state \<Rightarrow> nat" where
  "stage s = (if in_repair s then log_stage (view s) (round s) else unat (round s) * 18446744073709551617)"

lemma log_stage_inject:
  assumes "log_stage v rd = log_stage v' rd'"
  shows "v = v' \<and> rd = rd'"
proof -
  have eq: "unat rd * 18446744073709551617 + unat v = unat rd' * 18446744073709551617 + unat v'"
    using assms by (simp add: log_stage_def)
  have "unat v < 18446744073709551617" "unat v' < 18446744073709551617"
    using unat_u64_less [of v] unat_u64_less [of v'] by simp_all
  then have "unat v = unat v'" "unat rd = unat rd'"
    using arg_cong [OF eq, of "\<lambda>n. n mod 18446744073709551617"] arg_cong [OF eq, of "\<lambda>n. n div 18446744073709551617"]
    by simp_all
  then show ?thesis by (simp flip: unat_eq_iff)
qed

lemma stage_bounds: "unat (round s) * 18446744073709551617 \<le> stage s"
    "stage s < (unat (round s) + 1) * 18446744073709551617"
  using unat_u64_less [of "view s"] by (simp_all add: stage_def log_stage_def)

lemma stage_next: "add_u64 True (round s) 1 = Inr (round s') \<Longrightarrow> stage s < stage s'"
  using stage_bounds(2) [of s] stage_bounds(1) [of s'] by (simp add: add_u64_one_checked unat_succ_u64 split: if_splits)

definition logs_advance :: "replica \<Rightarrow> replica \<Rightarrow> effect list \<Rightarrow> bool" where
  "logs_advance r r' es \<longleftrightarrow> phase_ok (state r) \<longrightarrow> phase_ok (state r') \<and> stage (state r) \<le> stage (state r') \<and>
     (\<forall>n v rd d. LogMsg n v rd d \<in> sent es \<longrightarrow>
        stage (state r) < log_stage v rd \<and> log_stage v rd \<le> stage (state r') \<and>
        (\<forall>d'. LogMsg n v rd d' \<in> sent es \<longrightarrow> d' = d))"

lemma logs_advance_trans:
  assumes "logs_advance r s es" and "logs_advance s t fs"
  shows "logs_advance r t (es @ fs)"
proof -
  have "phase_ok (state t) \<and> stage (state r) \<le> stage (state t) \<and>
     (\<forall>n v rd d. LogMsg n v rd d \<in> sent es \<union> sent fs \<longrightarrow>
        stage (state r) < log_stage v rd \<and> log_stage v rd \<le> stage (state t) \<and>
        (\<forall>d'. LogMsg n v rd d' \<in> sent es \<union> sent fs \<longrightarrow> d' = d))" if "phase_ok (state r)"
  proof (intro conjI allI impI)
    have r: "phase_ok (state s)" "stage (state r) \<le> stage (state s)"
      "\<And>n v rd d. LogMsg n v rd d \<in> sent es \<Longrightarrow>
        stage (state r) < log_stage v rd \<and> log_stage v rd \<le> stage (state s) \<and>
        (\<forall>d'. LogMsg n v rd d' \<in> sent es \<longrightarrow> d' = d)"
      using assms(1) that unfolding logs_advance_def by blast+
    have s: "phase_ok (state t)" "stage (state s) \<le> stage (state t)"
      "\<And>n v rd d. LogMsg n v rd d \<in> sent fs \<Longrightarrow>
        stage (state s) < log_stage v rd \<and> log_stage v rd \<le> stage (state t) \<and>
        (\<forall>d'. LogMsg n v rd d' \<in> sent fs \<longrightarrow> d' = d)"
      using assms(2) r(1) unfolding logs_advance_def by blast+
    show "phase_ok (state t)" "stage (state r) \<le> stage (state t)" using r(2) s(1,2) by simp_all
    fix n v rd d
    assume m: "LogMsg n v rd d \<in> sent es \<union> sent fs"
    show "stage (state r) < log_stage v rd" "log_stage v rd \<le> stage (state t)"
      using m r(2) r(3) [of n v rd d] s(2) s(3) [of n v rd d] by (meson UnE order_trans le_less_trans less_le_trans)+
    fix d'
    assume "LogMsg n v rd d' \<in> sent es \<union> sent fs"
    moreover have "\<not> (LogMsg n v rd x \<in> sent es \<and> LogMsg n v rd y \<in> sent fs)" for x y
      using r(3) [of n v rd x] s(3) [of n v rd y] by linarith
    moreover have "LogMsg n v rd d \<in> sent es \<Longrightarrow> LogMsg n v rd d' \<in> sent es \<Longrightarrow> d' = d"
      "LogMsg n v rd d \<in> sent fs \<Longrightarrow> LogMsg n v rd d' \<in> sent fs \<Longrightarrow> d' = d"
      using r(3) s(3) by blast+
    ultimately show "d' = d" using m by blast
  qed
  then show ?thesis by (simp add: logs_advance_def)
qed

text \<open>Most transitions send no LOG and keep the view, the round and the phase's side of REPAIR.\<close>

lemma logs_advance_quiet:
  assumes "phase_ok (state r')" and "view (state r') = view (state r)" and "round (state r') = round (state r)"
    and "in_repair (state r') = in_repair (state r)" and "\<And>n v rd d. LogMsg n v rd d \<notin> sent es"
  shows "logs_advance r r' es"
  using assms by (simp add: logs_advance_def stage_def)

lemma logs_advance_enter:
  assumes "\<not> in_repair (state r)" and "state r' = state (start_repair r)"
    and "\<And>m. m \<in> sent es \<Longrightarrow> m = own_log_msg r \<or> \<not> is_LogMsg m"
  shows "logs_advance r r' es"
proof -
  have "n = node_id (state r) \<and> v = view (state r) \<and> rd = round (state r) \<and> d = mem_top_hash (kv_store (state r))"
    if "LogMsg n v rd d \<in> sent es" for n v rd d
    using assms(3) [OF that] by (simp add: own_log_msg_def)
  moreover have "phase_ok (state r')" "stage (state r') = log_stage (view (state r)) (round (state r))"
    "stage (state r) < stage (state r')"
    using assms(1,2) by (simp_all add: stage_def log_stage_def start_repair_def phase_ok_def)
  ultimately show ?thesis by (simp add: logs_advance_def) blast
qed

lemma logs_advance_finish:
  assumes "phase_ok (state r')" and "add_u64 True (round (state r)) 1 = Inr (round (state r'))"
    and "\<And>n v rd d. LogMsg n v rd d \<notin> sent es"
  shows "logs_advance r r' es"
  using assms(1,3) stage_next [OF assms(2)] by (simp add: logs_advance_def)

lemma transition_logs_advance:
  assumes "transition E M r es r'" and E: "overflow_checks E"
  shows "logs_advance r r' es"
proof (cases "phase_ok (state r)")
  case True
  then have "phase_ok (state r')" by (rule transition_phase_ok [OF assms(1)])
  with assms(1) show ?thesis using True
  proof cases
    case (conflict_proof k)
    then have "\<not> in_repair (state r)" using True can_conflict_proof_phase [OF conflict_proof(1)] by (simp add: phase_ok_def)
    then show ?thesis using conflict_proof(2)
      by (intro logs_advance_enter) (auto simp: handle_conflict_proof_def sent_def)
  next
    case (timeout_proof k)
    then have "\<not> in_repair (state r)" using True can_timeout_proof_phase [OF timeout_proof(1)] by (simp add: phase_ok_def)
    then show ?thesis using timeout_proof(2)
      by (intro logs_advance_enter) (auto simp: handle_timeout_proof_def sent_def)
  next
    case (enter_repair m rd)
    then show ?thesis 
      by (intro logs_advance_enter) (auto simp: handle_enter_repair_def sent_def dest: can_enter_repair_phase)
  next
    case (apply_repair h)
    then show ?thesis using \<open>phase_ok (state r')\<close> E
      by (intro logs_advance_finish) (auto simp: handle_apply_repair_def Let_def bind_outcome_Inr_iff sent_def)
  next
    case (repair_done_catchup rd)
    then show ?thesis using \<open>phase_ok (state r')\<close> E
      by (intro logs_advance_finish) (auto simp: handle_repair_done_catchup_def bind_outcome_Inr_iff sent_def)
  next
    case (view_change ev v)
    then have "in_repair (state r)" "add_u64 True (view (state r)) 1 = Inr v"
      using True E can_view_change_phase [OF view_change(1)] by (simp_all add: phase_ok_def)
    then show ?thesis using view_change \<open>phase_ok (state r')\<close>
      by (auto simp: logs_advance_def handle_view_change_def sent_def stage_def log_stage_def
          add_u64_one_checked unat_succ_u64 split: if_splits)
  qed (intro logs_advance_quiet; auto simp: step_simps sent_def phase_ok_def dest: guard_phases)+
qed (simp add: logs_advance_def)

interpretation log_law: transition_law E M "\<lambda>r r' es. overflow_checks E \<longrightarrow> logs_advance r r' es" for E M
  by unfold_locales
    (auto simp: logs_advance_def [of r r "[]" for r] intro: logs_advance_trans transition_logs_advance)

lemma run_one_log:
  assumes "replica_run E inputs (fresh_replica cfg n) = Inr (r, es)" and "overflow_checks E"
    and "LogMsg s v rd a \<in> sent es" and "LogMsg s v rd b \<in> sent es"
  shows "a = b"
proof -
  have "logs_advance (fresh_replica cfg n) r es"
    using log_law.run_law [OF assms(1) subset_refl] assms(2) by simp
  moreover have "phase_ok (state (fresh_replica cfg n))"
    using initial_state_ok(1) by (simp add: fresh_replica_def)
  ultimately show ?thesis using assms(3,4) unfolding logs_advance_def by blast
qed

section \<open>The network backs what correct nodes send\<close>

lemma at_least_mono: "at_least n P \<Longrightarrow> (\<And>s. P s \<Longrightarrow> Q s) \<Longrightarrow> at_least n Q"
  unfolding at_least_def by blast

lemma evidence_mono:
  assumes "evidence M cfg m" and "M \<subseteq> M'"
  shows "evidence M' cfg m"
proof -
  have "messages_at_least k M p \<Longrightarrow> messages_at_least k M' p" for k p
    using assms(2) unfolding messages_at_least_def by (meson order_trans)
  moreover have "at_least k (\<lambda>s. f s \<in> M) \<Longrightarrow> at_least k (\<lambda>s. f s \<in> M')" for k f
    using assms(2) by (auto elim: at_least_mono)
  moreover have "at_least k (\<lambda>s. \<exists>x. f s x \<in> M) \<Longrightarrow> at_least k (\<lambda>s. \<exists>x. f s x \<in> M')" for k and f :: "node_id \<Rightarrow> hash \<Rightarrow> message"
    using assms(2) by (auto elim!: at_least_mono)
  ultimately show ?thesis using assms by (cases m) auto
qed

definition net_backed :: "config \<Rightarrow> node_id set \<Rightarrow> packet list \<Rightarrow> bool" where
  "net_backed cfg C w \<longleftrightarrow>
     (\<forall>m \<in> snd ` set w. \<forall>s \<in> C. sender_of m = Some s \<longrightarrow> evidence (snd ` set w) cfg m)"

lemma net_backed_add:
  assumes "net_backed cfg C w" and "snd ` set w \<subseteq> snd ` set w'"
    and "\<And>m. m \<in> snd ` set w' \<Longrightarrow> m \<in> snd ` set w \<or> evidence (snd ` set w) cfg m \<or> (\<forall>s \<in> C. sender_of m \<noteq> Some s)"
  shows "net_backed cfg C w'"
  unfolding net_backed_def
proof (intro ballI impI)
  fix m s assume m: "m \<in> snd ` set w'" "s \<in> C" "sender_of m = Some s"
  then have "evidence (snd ` set w) cfg m"
    using assms(1) assms(3) [OF m(1)] unfolding net_backed_def by blast
  then show "evidence (snd ` set w') cfg m" using assms(2) by (rule evidence_mono)
qed

lemma node_step_backed:
  assumes "net_backed cfg C (net c)" and "member_ok cfg (net c) n (members c n)" and "iter_ok E"
    and "input_msgs [i] \<subseteq> snd ` set (net c)"
  shows "net_backed cfg C (net (node_step E n i c))"
proof (cases "handle_input E i (members c n)")
  case (Inr w)
  obtain r es where w: "handle_input E i (members c n) = Inr (r, es)" using Inr by (cases w) simp
  have "\<forall>e \<in> set es. evidence (snd ` set (net c)) cfg (effect_message e)"
    using proof_law.transitions_law [OF handle_input_transitions [OF w assms(4)]] assms(2,3)
    by (simp add: sends_with_evidence_def member_ok_def)
  then have "net_backed cfg C (transmit es (net c))"
    by (intro net_backed_add [OF assms(1)]) (auto simp: transmit_packets sent_def)
  then show ?thesis by (simp add: node_step_def w)
qed (simp add: node_step_def assms(1))

lemma reachable_backed:
  assumes "reachable E cfg F c" and "iter_ok E"
  shows "net_backed cfg (config_nodes cfg - F) (net c)"
  using assms(1)
proof (induction rule: reachable.induct)
  case start
  show ?case by (simp add: net_backed_def cluster_new_def)
next
  case (step c a c')
  have ok: "member_ok cfg (net c) n (members c n)" for n by (rule reachable_members [OF step(1)])
  show ?case
  proof (cases a)
    case (Deliver k m)
    then have c': "c' = node_step E k (InMessage m) c" and m: "reaches (net c) k m"
      using step(2) by (auto split: if_splits)
    have "input_msgs [InMessage m] \<subseteq> snd ` set (net c)"
      using reaches_packet [OF m] by (simp add: input_msgs_def)
    then show ?thesis unfolding c' by (rule node_step_backed [OF step.IH ok assms(2)])
  next
    case (Timer k ev)
    then have c': "c' = node_step E k (InEvent ev) c" using step(2) by (auto split: if_splits)
    show ?thesis unfolding c' by (rule node_step_backed [OF step.IH ok assms(2)]) (simp add: input_msgs_def)
  next
    case (SubmitOp h)
    then obtain m where "net c' = net c @ [(None, m)]" "is_Speculate m"
      using step(2) by (auto simp: submit_def eta_next_def wire_api_def Let_def)
    then show ?thesis by (intro net_backed_add [OF step.IH]) (auto simp: is_Speculate_def)
  next
    case (Inject p)
    obtain d m where p: "p = (d, m)" by (cases p)
    have c': "net c' = net c @ [(d, m)]" and m: "forgeable cfg F m \<or> m \<in> snd ` set (net c)"
      using step(2) unfolding Inject p by (auto split: if_splits)
    have "evidence (snd ` set (net c)) cfg m \<or> (\<forall>s \<in> config_nodes cfg - F. sender_of m \<noteq> Some s)"
      if "forgeable cfg F m"
      using that by (auto simp: forgeable_def split: option.splits)
    then show ?thesis using m by (intro net_backed_add [OF step.IH]) (auto simp: c')
  qed
qed

lemma correct_prepare_history:
  assumes "reachable E cfg F c" and "iter_ok E" and "s \<in> config_nodes cfg - F"
    and "RepairPrepare s v rd h \<in> snd ` set (net c)"
  obtains q where "RepairHistory q v rd h \<in> snd ` set (net c)"
  using bspec [OF bspec [OF reachable_backed [OF assms(1,2), unfolded net_backed_def] assms(4)] assms(3)] by auto

lemma certificate_prepares:
  assumes "prepare_certificate r" and "delivered M (state r)"
  shows "at_least (unat (byz_quorum (config r)))
    (\<lambda>q. RepairPrepare q (view (state r)) (round (state r)) (proposed_history_hash (state r)) \<in> M)"
  using assms(1) unfolding prepare_certificate_def
proof (rule count_senders)
  show "RepairPrepare q (view (state r)) (round (state r)) (proposed_history_hash (state r)) \<in> M"
    if "m |\<in>| repair_prepare_msgs (state r)" "sender_of m = Some q"
      "prepare_matches (view (state r)) (round (state r)) (proposed_history_hash (state r)) m" for m q
    using that subsetD [OF delivered_subset(5) [OF assms(2)], of m] by (auto simp: prepare_matches_iff)
qed

text \<open>A correct node in the commit phase rests on a history that is in the network.\<close>

lemma commit_phase_history:
  assumes "bft_config cfg" and "finite F" and "card F \<le> unat (cfg_f cfg)" and "iter_ok E"
    and "reachable E cfg F c" and "n \<in> config_nodes cfg - F" and "phase (state (members c n)) = CommitPhase"
  obtains q where "RepairHistory q (view (state (members c n))) (round (state (members c n)))
    (proposed_history_hash (state (members c n))) \<in> snd ` set (net c)"
proof -
  let ?s = "state (members c n)"
  let ?p = "\<lambda>q. RepairPrepare q (view ?s) (round ?s) (proposed_history_hash ?s)"
  obtain inp out where ex: "explained E cfg F c inp out" using reachable_explained [OF assms(1,5)] by blast
  then have run: "replica_run E (inp n) (fresh_replica cfg n) = Inr (members c n, out n)"
    using assms(6) unfolding explained_def correct_runs_def by blast
  have "config (members c n) = cfg"
    using frame.run_law [OF run subset_refl] by (simp add: frame_def fresh_replica_def)
  moreover have "prepare_certificate (members c n)"
    using cert.run_law [OF run subset_refl] initial_state_ok(4) assms(7) by (simp add: cert_ok_def)
  moreover have "delivered (input_msgs (inp n)) ?s"
    using deliver.run_law [OF run subset_refl] delivered_fresh by simp
  ultimately have "at_least (unat (byz_quorum cfg)) (\<lambda>q. ?p q \<in> input_msgs (inp n))"
    using certificate_prepares by metis
  then have "unat (byz_quorum cfg) \<le> card (correct_with cfg F c ?p) + card F"
    by (rule correct_with_bound [OF ex assms(2,6)]) simp
  moreover have "unat (byz_quorum cfg) > unat (cfg_f cfg)"
    using bft_config_bound [OF assms(1)] by (simp add: bft_config_facts [OF assms(1)])
  ultimately have "correct_with cfg F c ?p \<noteq> {}" using assms(3) by (metis add_0 card.empty leD le_trans)
  then obtain s where "s \<in> config_nodes cfg - F" "?p s \<in> snd ` set (net c)"
    unfolding correct_with_def by blast
  then show ?thesis using correct_prepare_history [OF assms(5,4)] that by blast
qed

section \<open>The invariants that hold\<close>

definition one_history_each :: "packet list \<Rightarrow> bool" where
  "one_history_each w \<longleftrightarrow> (\<forall>q q' v rd h h'. RepairHistory q v rd h \<in> snd ` set w \<and>
     RepairHistory q' v rd h' \<in> snd ` set w \<longrightarrow> h = h')"

lemma one_historyD:
  "one_history_each w \<Longrightarrow> RepairHistory q v rd h \<in> snd ` set w \<Longrightarrow> RepairHistory q' v rd h' \<in> snd ` set w \<Longrightarrow> h = h'"
  unfolding one_history_each_def by blast

lemma messages_net: "m \<in> messages c n \<Longrightarrow> m \<in> snd ` set (net c)"
  by (simp add: messages_def reaches_packet)

lemma no_log_equivocation:
  assumes "bft_config cfg" and "overflow_checks E" and "reachable E cfg F c" and "r \<in> config_nodes cfg - F"
  shows "\<not> log_equivocation_in r (messages c n)"
proof
  obtain inp out where ex: "explained E cfg F c inp out" using reachable_explained [OF assms(1,3)] by blast
  then have run: "replica_run E (inp r) (fresh_replica cfg r) = Inr (members c r, out r)"
    using assms(4) unfolding explained_def correct_runs_def by blast
  assume "log_equivocation_in r (messages c n)"
  then obtain v rd a b where ab: "LogMsg r v rd a \<in> messages c n" "LogMsg r v rd b \<in> messages c n" "a \<noteq> b"
    unfolding log_equivocation_in_def by blast
  have "LogMsg r v rd a \<in> sent (out r)" "LogMsg r v rd b \<in> sent (out r)"
    using reachable_packet [OF ex messages_net _ assms(4)] ab(1,2) by simp_all
  then show False using run_one_log [OF run assms(2)] ab(3) by blast
qed

lemma no_prepare_equivocation:
  assumes "reachable E cfg F c" and "iter_ok E" and "r \<in> config_nodes cfg - F" and "one_history_each (net c)"
  shows "\<not> prepare_equivocation_in r (messages c n)"
proof
  assume "prepare_equivocation_in r (messages c n)"
  then obtain v rd a b where ab: "RepairPrepare r v rd a \<in> snd ` set (net c)"
    "RepairPrepare r v rd b \<in> snd ` set (net c)" "a \<noteq> b"
    unfolding prepare_equivocation_in_def using messages_net by blast
  show False
    using correct_prepare_history [OF assms(1-3) ab(1)] correct_prepare_history [OF assms(1-3) ab(2)]
      one_historyD [OF assms(4)] ab(3) by metis
qed

lemma history_agreement:
  assumes "bft_config cfg" and "finite F" and "card F \<le> unat (cfg_f cfg)" and "iter_ok E"
    and "reachable E cfg F c" and "one_history_each (net c)"
  shows "repair_history_agreement (config_nodes cfg - F) c"
  unfolding repair_history_agreement_def Let_def
proof (intro ballI impI, elim conjE)
  fix a b
  assume n: "a \<in> config_nodes cfg - F" "b \<in> config_nodes cfg - F"
    and ph: "phase (state (members c a)) = CommitPhase" "phase (state (members c b)) = CommitPhase"
    and eq: "view (state (members c a)) = view (state (members c b))"
      "round (state (members c a)) = round (state (members c b))"
  show "proposed_history_hash (state (members c a)) = proposed_history_hash (state (members c b))"
    using commit_phase_history [OF assms(1-5) n(1) ph(1)] commit_phase_history [OF assms(1-5) n(2) ph(2)]
      one_historyD [OF assms(6)] eq by metis
qed

section \<open>Property\<close>

text \<open>C10: Invariants of the specification. In every reachable cluster with at most \<open>f\<close> faulty nodes and a
  checked build, no correct replica is in REPAIR in a speculative or aligning phase and no correct
  replica equivocates in its LOGs. As long as the network holds one history per view and round,
  correct replicas in the commit phase of one view and round wait for the same history,
  and no correct replica equivocates in its REPAIR-PREPAREs either.\<close>

theorem spec_invariants_hold:
  assumes "bft_config cfg" and "finite F" and "card F \<le> unat (cfg_f cfg)"
    and "overflow_checks E" and "iter_ok E" and "reachable E cfg F c"
  shows "phase_consistency (config_nodes cfg - F) c \<and>
    (\<forall>r \<in> config_nodes cfg - F. \<forall>n. \<not> log_equivocation_in r (messages c n)) \<and>
    (one_history_each (net c) \<longrightarrow> repair_history_agreement (config_nodes cfg - F) c \<and>
       no_honest_equivocation cfg (config_nodes cfg - F) c)"
proof (intro conjI impI ballI allI)
  show "phase_consistency (config_nodes cfg - F) c"
    using reachable_members [OF assms(6)] by (auto simp: phase_consistency_def Let_def member_ok_def phase_ok_def)
  show "\<not> log_equivocation_in r (messages c n)" if "r \<in> config_nodes cfg - F" for r n
    by (rule no_log_equivocation [OF assms(1,4,6) that])
  assume one: "one_history_each (net c)"
  show "repair_history_agreement (config_nodes cfg - F) c"
    by (rule history_agreement [OF assms(1-3,5,6) one])
  show "no_honest_equivocation cfg (config_nodes cfg - F) c"
    using no_log_equivocation [OF assms(1,4,6)] no_prepare_equivocation [OF assms(6,5) _ one]
    by (simp add: no_honest_equivocation_def)
qed

lemma repair_schedule_histories:
  "(case acts demo_env six_config {''r5''} repair_schedule (cluster_new six_config) of
      None \<Rightarrow> False
    | Some c \<Rightarrow> list_all (\<lambda>p. case snd p of RepairHistory q v rd h \<Rightarrow> h = 5 | _ \<Rightarrow> True) (net c))"
  by code_simp

lemma spec_invariants_hold_witness:
  "\<exists>c. reachable demo_env six_config {''r5''} c \<and>
     repair_history_agreement (config_nodes six_config - {''r5''}) c \<and>
     no_honest_equivocation six_config (config_nodes six_config - {''r5''}) c"
proof -
  obtain c where c: "acts demo_env six_config {''r5''} repair_schedule (cluster_new six_config) = Some c"
    "\<forall>p \<in> set (net c). case snd p of RepairHistory q v rd h \<Rightarrow> h = 5 | _ \<Rightarrow> True"
    using repair_schedule_histories by (auto simp: list_all_iff split: option.splits)
  have reach: "reachable demo_env six_config {''r5''} c" by (rule acts_reachable [OF reachable.start c(1)])
  have "h = 5" if "RepairHistory q v rd h \<in> snd ` set (net c)" for q v rd h
    using that c(2) by force
  then have "one_history_each (net c)" unfolding one_history_each_def by blast
  moreover have "overflow_checks demo_env" "finite {''r5''}" "card {''r5''} \<le> unat (cfg_f six_config)"
    by (simp_all add: demo_env_def six_config_def)
  ultimately show ?thesis
    using spec_invariants_hold [OF six_config_bft _ _ _ demo_env_ok(2) reach] reach by blast
qed

end
