(* ===== verification/Proof_Run.thy ===== *)
theory Proof_Run
  imports Spec_Invariants
begin

text \<open>
  From a proof to the end of the repair: a TIMEOUT-PROOF or CONFLICT-PROOF in the network brings
  the correct nodes into REPAIR, timers bring them to a view for which nobody has voted, of which
  there is one with a correct leader as long as the network is small against \<open>2 ^ 64\<close>, and that view
  completes the repair (\<open>Cluster_Run\<close>).
\<close>

section \<open>A replica and a proof\<close>

text \<open>A replica that has not voted in a repair of its round: it is in front of REPAIR or collects logs.\<close>

definition waits :: "replica \<Rightarrow> bool" where
  "waits r \<longleftrightarrow> (if in_repair (state r) then phase (state r) = CollectingLogs else phase (state r) \<notin> repair_phases)"

text \<open>What the steps in front of entry into REPAIR do to a replica that handles a proof. A checkpoint may
  form or alignment begin first, or the replica may find a proof of its own.\<close>

definition before_entry :: "replica \<Rightarrow> replica \<Rightarrow> effect list \<Rightarrow> bool" where
  "before_entry r r' es \<longleftrightarrow> same_place r r' \<and> same_votes r r' \<and> (waits r \<longrightarrow> waits r')"

lemma before_entry_refl [simp]: "before_entry r r es"
  by (simp add: before_entry_def same_place_def same_votes_def)

lemma before_entry_trans: "before_entry r s es \<Longrightarrow> before_entry s t fs \<Longrightarrow> before_entry r t (es @ fs)"
  by (simp add: before_entry_def same_place_def same_votes_def)

lemma start_repair_before [simp]: "before_entry r (start_repair r) es"
  by (simp add: before_entry_def same_place_def same_votes_def waits_def start_repair_def)

text \<open>A proof is no SPECULATE, and the first six steps store none.\<close>

lemma proof_steps:
  assumes "is_TimeoutProof m \<or> is_ConflictProof m"
  shows "take 6 (message_steps E m) =
    [\<lambda>r. Inr (r, []),
     \<lambda>r. when_some (can_send_sync_threshold r) (\<lambda>k. Inr (r, handle_send_sync r k)) r,
     \<lambda>r. Inr (case can_form_checkpoint r of Some k \<Rightarrow> handle_form_checkpoint r k | None \<Rightarrow> (r, [])),
     \<lambda>r. Inr (on_receive_checkpoint r m),
     \<lambda>r. when_some (can_conflict_proof r) (\<lambda>k. Inr (handle_conflict_proof r k)) r,
     \<lambda>r. Inr (case can_timeout_proof r of Some k \<Rightarrow> handle_timeout_proof r k | None \<Rightarrow> (r, []))]"
  using assms by (auto simp: message_steps_def can_speculate_def receive_defs store_defs Let_def fun_eq_iff)

lemma checkpoint_before: 
  assumes "is_TimeoutProof m \<or> is_ConflictProof m" 
  shows "before_entry r (fst (on_receive_checkpoint r m)) es"
proof -
  have st: "store_chkpt r m = r" using assms by (auto simp: store_defs)
  show ?thesis
    by (auto simp: on_receive_checkpoint_def st Let_def before_entry_def same_place_def same_votes_def waits_def
      handle_enter_align_def can_enter_align_def split: option.splits if_splits)
qed

lemma proof_step_before:
  assumes "is_TimeoutProof m \<or> is_ConflictProof m" and "f \<in> set (take 6 (message_steps E m))"
    and "f r = Inr (r', es)"
  shows "before_entry r r' es"
proof -
  have "handle_form_checkpoint r k = (r', es) \<Longrightarrow> before_entry r r' es" for k
    by (auto simp: handle_form_checkpoint_def before_entry_def same_place_def same_votes_def waits_def Let_def)
  moreover have "handle_conflict_proof r k = (r', es) \<Longrightarrow> before_entry r r' es"
    "handle_timeout_proof r k = (r', es) \<Longrightarrow> before_entry r r' es" for k
    by (auto simp: handle_conflict_proof_def handle_timeout_proof_def)
  ultimately show ?thesis
    using assms(2,3) checkpoint_before [OF assms(1), of r es] unfolding proof_steps [OF assms(1)]
    by (auto simp: when_some_def split: option.splits)
qed

lemma proof_step_total:
  assumes "is_TimeoutProof m \<or> is_ConflictProof m" and "f \<in> set (take 6 (message_steps E m))"
  shows "\<exists>w. f r = Inr w"
  using assms(2) unfolding proof_steps [OF assms(1)] by (auto simp: when_some_def split: option.splits)

text \<open>A replica that waits, in or before REPAIR, and holds no vote and no quorum of LOGs, collects logs
  once it has handled a proof.\<close>

lemma proof_enters:
  assumes "iter_ok E" and "is_TimeoutProof m \<or> is_ConflictProof m" and "waits r" and "no_votes r"
    and "card (logged_by r) < unat (byz_quorum (config r))" and "0 < unat (f_plus_1 (config r))"
  shows "\<exists>r' es. process_message E m r = Inr (r', es) \<and> phase (state r') = CollectingLogs \<and>
    same_place r r' \<and> same_votes r r'"
proof -
  obtain s es where s: "run_steps (take 6 (message_steps E m)) r = Inr (s, es)"
    using run_steps_total [of "take 6 (message_steps E m)" r] proof_step_total [OF assms(2)] by fastforce
  have "step_contract before_entry (take 6 (message_steps E m))"
    by unfold_locales (auto intro: before_entry_trans proof_step_before [OF assms(2)])
  from step_contract.run_ok [OF this s] have keep: "same_place r s" "same_votes r s" "waits s"
    using assms(3) by (simp_all add: before_entry_def)
  define t where "t = (if in_repair (state s) then s else start_repair s)"
  obtain fs where t: "when_some (can_enter_repair s m) (\<lambda>rd. Inr (handle_enter_repair s rd)) s = Inr (t, fs)"
    using assms(2)
    by (cases "in_repair (state s)") (auto simp: t_def can_enter_repair_def handle_enter_repair_def when_some_def)
  have in_t: "phase (state t) = CollectingLogs" "in_repair (state t)" "same_place r t" "same_votes r t"
    using keep by (simp_all add: t_def start_repair_def waits_def same_place_def same_votes_def)
  have same: "no_votes t" "logged_by t = logged_by r" "config t = config r"
    using in_t(3,4) assms(4) by (auto simp: no_votes_def logged_by_def same_place_def same_votes_def)
  have quorum: "0 < unat (byz_quorum (config t))" "0 < unat (f_plus_1 (config t))"
    using assms(5,6) same(3) by auto
  have "can_broadcast_history t = None"
    using assms(5) log_senders [of t] same(2,3) by (simp add: can_broadcast_history_def Let_def not_le)
  moreover have "can_repair_prepare E t = None" by (rule no_votes_prepare [OF assms(1) same(1)])
  moreover have "can_repair_commit t = None" "can_apply_repair t = None"
    using in_t(1) by (simp_all add: can_repair_commit_def can_apply_repair_def)
  moreover have "can_repair_done_catchup t = None"
    by (rule done_none [OF no_votes_one_history(1) [OF same(1) in_t(2) quorum]])
  ultimately have "run_steps (drop 7 (message_steps E m)) t = Inr (t, [])"
    using assms(2) closed_guards [of t] in_t(1)
    by (cases m) (simp_all add: message_steps_def receive_defs store_defs Let_def)
  then have "process_message E m r = Inr (t, es @ fs)"
    unfolding process_message_def by (subst message_steps_at_entry) (simp add: run_steps_append s t)
  with in_t show ?thesis by blast
qed

section \<open>LOGs of the current round\<close>

text \<open>A correct node that has logged for its round is in REPAIR.\<close>

lemma run_log_stage:
  assumes "replica_run E inputs (fresh_replica cfg n) = Inr (r, es)" and "overflow_checks E"
    and "LogMsg s v rd d \<in> sent es"
  shows "log_stage v rd \<le> stage (state r)"
proof -
  have "logs_advance (fresh_replica cfg n) r es"
    using log_law.run_law [OF assms(1) subset_refl] assms(2) by simp
  moreover have "phase_ok (state (fresh_replica cfg n))"
    using initial_state_ok(1) by (simp add: fresh_replica_def)
  ultimately show ?thesis using assms(3) unfolding logs_advance_def by blast
qed

lemma logged_in_repair:
  assumes "bft_config cfg" and "overflow_checks E" and "reachable E cfg F c"
    and "s \<in> config_nodes cfg - F" and "(d, LogMsg s v (round (state (members c s))) x) \<in> set (net c)"
  shows "in_repair (state (members c s))"
proof (rule ccontr)
  assume out: "\<not> ?thesis"
  obtain inp out where ex: "explained E cfg F c inp out" using reachable_explained [OF assms(1,3)] by blast
  have "LogMsg s v (round (state (members c s))) x \<in> sent (out s)"
    by (rule reachable_packet [OF ex]) (use assms(4,5) in \<open>force+\<close>)
  moreover have "replica_run E (inp s) (fresh_replica cfg s) = Inr (members c s, out s)"
    using ex assms(4) by (simp add: explained_def correct_runs_def)
  ultimately have "log_stage v (round (state (members c s))) \<le> stage (state (members c s))"
    using run_log_stage [OF _ assms(2)] by blast
  with out show False by (simp add: stage_def log_stage_def)
qed


text \<open>At a node outside REPAIR only the nodes in REPAIR and the faulty ones can have logged for its round.\<close>

lemma few_logs:
  assumes "bft_config cfg" and "finite F" and "overflow_checks E" and "reachable E cfg F c"
    and "\<And>n. n \<in> config_nodes cfg - F \<Longrightarrow> round (state (members c n)) = rd"
    and "n \<in> config_nodes cfg - F"
  shows "card (logged_by (members c n)) \<le> card {s \<in> config_nodes cfg - F. in_repair (state (members c s))} + card F"
proof -
  let ?R = "{s \<in> config_nodes cfg - F. in_repair (state (members c s))}"
  have "logged_by (members c n) \<subseteq> ?R \<union> F"
  proof
    fix s assume s: "s \<in> logged_by (members c n)"
    then obtain x where "LogMsg s (view (state (members c n))) rd x |\<in>| log_msgs (state (members c n))"
      using assms(5) [OF assms(6)] by (auto simp: logged_by_def)
    then have "LogMsg s (view (state (members c n))) rd x \<in> snd ` set (net c)"
      using reachable_members [OF assms(4), of n] by (auto simp: member_ok_def delivered_def)
    then obtain d where "(d, LogMsg s (view (state (members c n))) rd x) \<in> set (net c)" by auto
    moreover have "s \<in> config_nodes cfg" using s logged_members [OF assms(1,4)] by blast
    ultimately show "s \<in> ?R \<union> F"
      using logged_in_repair [OF assms(1,3,4), where s = s] assms(5) [of s] by auto
  qed
  moreover have "finite ?R" by (simp add: config_nodes_def)
  ultimately have "card (logged_by (members c n)) \<le> card (?R \<union> F)" using assms(2) by (intro card_mono) auto
  also have "\<dots> \<le> card ?R + card F" by (rule card_Un_le)
  finally show ?thesis .
qed

text \<open>A proof in the network brings every node that waits to collect logs.\<close>

lemma proof_collects:
  assumes "iter_ok E" and "reachable E cfg F c" and ns: "distinct ns" "\<And>n. n \<in> set ns \<Longrightarrow> up cfg F c n"
    and n: "\<And>n. n \<in> set ns \<Longrightarrow> phase (state (members c n)) \<in> {Speculative, Aligning, CollectingLogs} \<and>
       view (state (members c n)) \<le> w \<and> round (state (members c n)) = rd"
    and out: "\<And>n. n \<in> set ns \<Longrightarrow> phase (state (members c n)) \<noteq> CollectingLogs \<Longrightarrow>
       (\<exists>p. (is_TimeoutProof p \<or> is_ConflictProof p) \<and> (None, p) \<in> set (net c)) \<and>
       card (logged_by (members c n)) < unat (byz_quorum cfg) \<and>
       (\<forall>m \<in> snd ` set (net c). \<not> repair_vote (view (state (members c n))) rd m)"
    and "0 < unat (f_plus_1 cfg)" and votes: "\<And>m. m \<in> snd ` set (net c) \<Longrightarrow> \<not> repair_vote w rd m"
  obtains c' where "scheduled E cfg F (set ns) c c'" and "\<And>n. n \<in> set ns \<Longrightarrow> collects_for w rd (members c' n)"
proof -
  have "\<exists>c'. scheduled E cfg F (set ns) c c' \<and>
      (\<forall>n \<in> set ns. collects_for w rd (members c' n) \<and> (\<forall>m \<in> set []. (None, m) \<in> set (net c')))"
  proof (rule everyone [OF _ ns])
    fix k assume k: "k \<in> set ns"
    let ?r = "members c k"
    have ok: "member_ok cfg (net c) k ?r" by (rule reachable_members [OF assms(2)])
    have collects: "collects_for w rd r" if "phase (state r) = CollectingLogs" "same_place ?r r" "same_votes ?r r" for r
    proof -
      have "no_votes (state_update (view_update (\<lambda>u. w)) r)"
        by (rule no_votes_net [of "snd ` set (net c)" ?r w rd])
          (use ok n [OF k] votes that in \<open>simp_all add: member_ok_def same_place_def same_votes_def\<close>)
      then show ?thesis using that n [OF k] by (simp add: collects_for_def same_place_def)
    qed
    have "\<exists>ins r es. replica_run E ins ?r = Inr (r, es) \<and> list_all (broadcast_in (net c)) ins \<and> collects_for w rd r"
    proof (cases "phase (state ?r) = CollectingLogs")
      case True
      then have "collects_for w rd ?r" by (rule collects) (simp_all add: same_place_def same_votes_def)
      then show ?thesis by (intro exI [of _ "[]"] exI [of _ ?r]) (simp add: replica_run_def)
    next
      case False
      obtain p where p: "is_TimeoutProof p \<or> is_ConflictProof p" "(None, p) \<in> set (net c)" using out [OF k False] by blast
      have w: "waits ?r" using n [OF k] ok by (auto simp: waits_def member_ok_def phase_ok_def)
      have v: "no_votes ?r"
        by (rule no_votes_net [of "snd ` set (net c)" ?r "view (state ?r)" rd])
          (use ok n [OF k] out [OF k False] in \<open>auto simp: member_ok_def\<close>)
      have "config ?r = cfg" using ok by (simp add: member_ok_def)
      then obtain r es where r: "process_message E p ?r = Inr (r, es)" "phase (state r) = CollectingLogs"
        "same_place ?r r" "same_votes ?r r"
        using proof_enters [OF assms(1) p(1) w v] out [OF k False] assms(7) by auto
      from collects [OF r(2-4)] r(1) p(2) show ?thesis
        by (intro exI [of _ "[InMessage p]"] exI [of _ r] exI [of _ es]) (simp add: replica_run_def broadcast_in_def)
    qed
    then show "\<exists>ins r es. replica_run E ins ?r = Inr (r, es) \<and> list_all (broadcast_in (net c)) ins \<and>
        collects_for w rd r \<and> (\<forall>m \<in> set []. Broadcast m \<in> set es)"
      by simp
  qed
  with that show ?thesis by blast
qed

section \<open>A view without votes\<close>

text \<open>In every block of \<open>n\<close> views each node leads one, and a message votes in one view.\<close>

lemma repair_vote_view: "repair_vote v rd m \<Longrightarrow> repair_vote u rd m \<Longrightarrow> u = v"
  by (auto simp: repair_vote_def)

lemma leader_block:
  assumes "bft_config cfg" and "q \<in> config_nodes cfg" and "unat V + (j + 1) * unat (cfg_n cfg) \<le> 2 ^ 64"
  shows "\<exists>u. leads cfg q u \<and> unat V + j * unat (cfg_n cfg) \<le> unat u \<and>
    unat u < unat V + (j + 1) * unat (cfg_n cfg)"
proof -
  let ?n = "unat (cfg_n cfg)"
  define b where "b = unat V + j * ?n"
  obtain i where i: "i < ?n" "nodes_ordered cfg ! i = q"
    using assms(2) bft_config_facts(6) [OF assms(1)] by (auto simp: config_nodes_def in_set_conv_nth)
  obtain d where d: "d < ?n" and m: "(b + d) mod ?n = i" using one_residue [OF i(1), of b] by blast
  then have "b + d < 2 ^ 64" using assms(3) by (simp add: b_def algebra_simps)
  then have u: "unat (of_nat (b + d) :: u64) = b + d"
    by (simp add: unat_of_nat del: of_nat_add)
  have "leads cfg q (of_nat (b + d))"
    using i m u bft_config_facts(6) [OF assms(1)] unfolding leads_iff by auto
  with u d show ?thesis by (intro exI [of _ "of_nat (b + d)"]) (simp add: b_def)
qed

lemma open_view:
  assumes "bft_config cfg" and "q \<in> config_nodes cfg"
    and "length w < (2 ^ 64 - unat V) div unat (cfg_n cfg)"
  obtains u where "V \<le> u" and "leads cfg q u" and "\<And>m. m \<in> snd ` set w \<Longrightarrow> \<not> repair_vote u rd m"
proof -
  let ?n = "unat (cfg_n cfg)" and ?K = "(2 ^ 64 - unat V) div unat (cfg_n cfg)"
  have "\<exists>u. leads cfg q u \<and> unat V + j * ?n \<le> unat u \<and> unat u < unat V + (j + 1) * ?n" if "j < ?K" for j
  proof (rule leader_block [OF assms(1,2)])
    have "(j + 1) * ?n \<le> ?K * ?n" using that by (intro mult_le_mono1) simp
    also have "\<dots> \<le> 2 ^ 64 - unat V" by (rule div_times_less_eq_dividend)
    finally show "unat V + (j + 1) * ?n \<le> 2 ^ 64" using unat_u64_less [of V] by simp
  qed
  then obtain u where u: "\<And>j. j < ?K \<Longrightarrow> leads cfg q (u j) \<and> unat V + j * ?n \<le> unat (u j) \<and>
      unat (u j) < unat V + (j + 1) * ?n"
    by metis
  have "\<exists>j < ?K. \<forall>m \<in> snd ` set w. \<not> repair_vote (u j) rd m"
  proof (rule ccontr)
    assume "\<not> ?thesis"
    then obtain f where f: "\<And>j. j < ?K \<Longrightarrow> f j \<in> snd ` set w \<and> repair_vote (u j) rd (f j)" by metis
    have "j = k" if jk: "j < ?K" "k < ?K" "f j = f k" for j k
    proof -
      have "u j = u k" using f [OF jk(1)] f [OF jk(2)] jk(3) repair_vote_view by metis
      then have "j * ?n < (k + 1) * ?n" "k * ?n < (j + 1) * ?n" using u [OF jk(1)] u [OF jk(2)] by auto
      then show ?thesis by (simp only: mult_less_cancel2) linarith
    qed
    then have "card (f ` {..<?K}) = ?K" by (subst card_image) (auto intro: inj_onI)
    moreover have "card (f ` {..<?K}) \<le> card (snd ` set w)" using f by (intro card_mono) auto
    moreover have "card (snd ` set w) \<le> length w"
      using card_image_le [of "set w" snd] card_length [of w] by simp
    ultimately show False using assms(3) by simp
  qed
  then obtain j where j: "j < ?K" "\<forall>m \<in> snd ` set w. \<not> repair_vote (u j) rd m" by blast
  have "V \<le> u j" using u [OF j(1)] by (simp add: word_le_nat_alt)
  with that [of "u j"] u [OF j(1)] j(2) show ?thesis by blast
qed


section \<open>Properties\<close>


text \<open>A forged conflict proof that one node of six has followed, in view 0.\<close>

definition proof_schedule :: "action list" where
  "proof_schedule = [Inject (None, ConflictProof 0 0), Deliver ''r0'' (ConflictProof 0 0)]"

lemma proof_schedule_check:
  "(case acts demo_env six_config {''r5''} proof_schedule (cluster_new six_config) of
      None \<Rightarrow> False
    | Some c \<Rightarrow> crashed c = {} \<and> length (net c) = 2 \<and>
        list_all (\<lambda>p. is_LogMsg (snd p) \<or> is_ConflictProof (snd p)) (net c) \<and>
        List.member (net c) (None, ConflictProof 0 0) \<and>
        list_all (\<lambda>n. (phase (state (members c n)) = Speculative \<and> n \<noteq> ''r0'' \<and> \<not> in_repair (state (members c n)) \<or>
            phase (state (members c n)) = CollectingLogs \<and> n = ''r0'') \<and>
          view (state (members c n)) = 0 \<and> round (state (members c n)) = 0) [''r0'', ''r1'', ''r2'', ''r3'', ''r4''])"
  by code_simp


end
