(* ===== verification/Operations_Run.thy ===== *)
theory Operations_Run
  imports Sync_Run Proof_Run
begin

text \<open>
  What becomes of operations whose SYNCs lead to REPAIR: the composition of execution and decision
  (\<open>Sync_Run\<close>) with the repair of the whole cluster (\<open>Cluster_Run\<close>).
\<close>

section \<open>The executed log\<close>

lemma exec_store_fast:
  assumes "encode_total E"
  shows "fast_log E r \<Longrightarrow> unat (kv_size (state r)) + n < 2 ^ 64 \<Longrightarrow>
    fast_log E (at_log (exec_store E n (kv_size (state r)) (kv_store (state r))) (kv_size (state r) + of_nat n) r)"
proof (induction n arbitrary: r)
  case 0
  then show ?case by (cases r) (simp add: at_log_def)
next
  case (Suc n)
  let ?k = "kv_size (state r)" and ?st = "kv_store (state r)"
  let ?r = "at_log (exec_store E 1 ?k ?st) (?k + 1) r"
  have ne: "?k \<noteq> - 1" using Suc.prems(2) unat_u64_max by auto
  have r: "fast_log E ?r" using speculate_step [OF assms Suc.prems(1) ne, of "Speculate s rd h e" for s rd h e] by auto
  have k: "kv_size (state ?r) = ?k + 1" "kv_store (state ?r) = exec_store E 1 ?k ?st"
    by (simp_all add: at_log_def del: exec_store.simps)
  have again: "at_log a b ?r = at_log a b r" for a b by (simp add: at_log_def comp_def)
  have "unat (kv_size (state ?r)) + n < 2 ^ 64"
    unfolding k(1) using Suc.prems(2) ne by (simp add: unat_succ_u64)
  from Suc.IH [OF r this] show ?case
    unfolding k again exec_store_add by (simp add: add.assoc del: exec_store.simps)
qed

text \<open>The hash chain of the executed operations, of exactly their number.\<close>

lemma executed_log:
  assumes "encode_total E" and "bft_config cfg" and "n < 2 ^ 64"
  shows "chained E (mem_lookup (exec_store E n 0 mem_new)) (of_nat n)"
    and "mem_size E (exec_store E n 0 mem_new) = Inr (of_nat n)"
proof -
  let ?r = "fresh_replica cfg ''r0''"
  have pos: "fast_quorum cfg \<noteq> 0" "byz_quorum cfg \<noteq> 0" "f_plus_1 cfg \<noteq> 0"
    using bft_config_bound [OF assms(2)] bft_config_facts [OF assms(2)] by auto
  have init: "kv_size (state ?r) = 0" "kv_store (state ?r) = mem_new"
    by (simp_all add: fresh_replica_def initial_state_def)
  have fresh: "fast_log E ?r" by (rule fast_log_fresh [OF pos])
  have "fast_log E (at_log (exec_store E n 0 mem_new) (of_nat n) ?r)"
    using exec_store_fast [OF assms(1) fresh, of n] assms(3) unfolding init by simp
  then have "chained E (mem_lookup (exec_store E n 0 mem_new)) (of_nat n)"
    "mem_ok (exec_store E n 0 mem_new)" "log_shape (mem_lookup (exec_store E n 0 mem_new)) (of_nat n)"
    by (simp_all add: fast_log_def log_ok_def at_log_def)
  then show "chained E (mem_lookup (exec_store E n 0 mem_new)) (of_nat n)"
    "mem_size E (exec_store E n 0 mem_new) = Inr (of_nat n)"
    using mem.log_size by blast+
qed

text \<open>A node that decided on a conflict proof is ready for a repair in any view.\<close>

lemma decided_collects:
  assumes "decided (at_log st k (fresh_replica cfg n)) i H r" and "unat (byz_quorum cfg) < unat (fast_quorum cfg)"
  shows "collects_for w 0 r"
  using assms
  by (auto simp: decided_def collecting_def collects_for_def same_place_def same_votes_def no_votes_def at_log_def
      fresh_replica_def initial_state_def)

section \<open>Properties\<close>

text \<open>C6: Without a fault, executed operations are lost. Let the fast quorum exceed the
  Byzantine quorum (\<open>p < f\<close>), and let clients submit operations to a new cluster in
  which no faulty node ever sends anything. Deliveries lead all correct nodes to one hash-chained
  log of all the operations, and from there deliveries and timers at the correct nodes lead all of
  them through a repair into round 1, each with a log of \<open>h\<close> synthetic entries,
  \<open>h\<close> being between the Byzantine quorum and \<open>n\<close> however many operations
  there were.\<close>

theorem operations_lost:
  assumes "bft_config cfg" and "finite F" and "card F \<le> unat (cfg_f cfg)" and "iter_ok E" and "encode_total E"
    and "hs \<noteq> []" and "length hs < 2 ^ 64" and "unat (byz_quorum cfg) < unat (fast_quorum cfg)"
  shows "\<exists>as bs c1 c2 store h. set as \<union> set bs \<subseteq> (\<Union>n \<in> config_nodes cfg - F. range (drive n)) \<and>
    acts E cfg F (map SubmitOp hs @ as) (cluster_new cfg) = Some c1 \<and> acts E cfg F bs c1 = Some c2 \<and> crashed c2 = {} \<and>
    chained E (mem_lookup store) (of_nat (length hs)) \<and> mem_size E store = Inr (of_nat (length hs)) \<and>
    byz_quorum cfg \<le> h \<and> h \<le> cfg_n cfg \<and>
    (\<forall>n \<in> config_nodes cfg - F.
       phase (state (members c1 n)) = Speculative \<and> round (state (members c1 n)) = 0 \<and>
       kv_size (state (members c1 n)) = of_nat (length hs) \<and> kv_store (state (members c1 n)) = store \<and>
       phase (state (members c2 n)) = Speculative \<and> round (state (members c2 n)) = 1 \<and>
       kv_size (state (members c2 n)) = h \<and> synthetic_log h (kv_store (state (members c2 n))))"
proof -
  let ?N = "config_nodes cfg - F" and ?k = "of_nat (length hs) :: u64"
  let ?st = "exec_store E (length hs) 0 mem_new"
  obtain c0 c1 c2 where c: "acts E cfg F (map SubmitOp hs) (cluster_new cfg) = Some c0" "crashed c0 = {}"
    "scheduled E cfg F ?N c0 c1" "scheduled E cfg F ?N c1 c2"
    "\<And>n. n \<in> ?N \<Longrightarrow> members c1 n = at_log ?st ?k (fresh_replica cfg n)"
    "\<And>n. n \<in> ?N \<Longrightarrow> decided (at_log ?st ?k (fresh_replica cfg n)) (?k - 1) (mem_top_hash ?st) (members c2 n)"
    by (rule operations_decided [OF assms(1-7) refl refl]) blast
  obtain q where q: "q \<in> ?N"
    using correct_majority [OF assms(1-3)] by (metis list.set_intros(1) list.size(3) neq_Nil_conv not_le)
  obtain w where w: "leads cfg q w"
    using leader_block [OF assms(1), of q 0 0] q unat_u64_less [of "cfg_n cfg"] by auto
  have reach: "reachable E cfg F c2"
    using scheduled_reachable [OF scheduled_reachable [OF acts_reachable [OF reachable.start c(1)] c(3)] c(4)] .
  have up: "crashed c2 \<inter> ?N = {}" using c(2-4) by (simp add: scheduled_def)
  obtain c3 h where c3: "scheduled E cfg F ?N c2 c3" "byz_quorum cfg \<le> h" "h \<le> cfg_n cfg" "h \<noteq> 0"
    "\<And>n. n \<in> ?N \<Longrightarrow> done_round 0 h (members c3 n)"
  proof (rule collectors_complete [OF assms(1-4) reach up decided_collects [OF c(6) assms(8)] _ q w])
    show "(0 :: u64) \<noteq> - 1" by simp
  qed blast+
  obtain as bs where as: "set as \<subseteq> (\<Union>n \<in> ?N. range (drive n))" "acts E cfg F as c0 = Some c1"
    "set bs \<subseteq> (\<Union>n \<in> ?N. range (drive n))" "acts E cfg F bs c1 = Some c3" "crashed c3 = {}"
    using c(2,3) scheduled_then [OF c(4) c3(1) order_refl] unfolding scheduled_def by auto
  have "acts E cfg F (map SubmitOp hs @ as) (cluster_new cfg) = Some c1" using c(1) as(2) by (simp add: acts_append)
  then show ?thesis
    using as(1,3-5) c3(2-5) c(5) executed_log [OF assms(5,1,7)]
    by (intro exI [of _ as] exI [of _ bs] exI [of _ c1] exI [of _ c3] exI [of _ ?st] exI [of _ h])
      (simp add: done_round_def at_log_def fresh_replica_def initial_state_def)
qed

text \<open>Five operations in a cluster of four, with no bound on fast-path faults: the logs shrink.\<close>

lemma operations_lost_witness:
  "\<exists>as bs c1 c2. acts demo_env four_config {''r3''} (map SubmitOp (replicate 5 zero_hash) @ as) (cluster_new four_config) = Some c1 \<and>
     acts demo_env four_config {''r3''} bs c1 = Some c2 \<and>
     kv_size (state (members c1 ''r0'')) = 5 \<and> kv_size (state (members c2 ''r0'')) \<le> 4"
proof -
  have small: "finite {''r3''}" "card {''r3''} \<le> unat (cfg_f four_config)" "replicate 5 zero_hash \<noteq> []"
    "length (replicate 5 zero_hash) < 2 ^ 64" "unat (byz_quorum four_config) < unat (fast_quorum four_config)"
    using four_config_bft(2,3) by simp_all
  have r0: "''r0'' \<in> config_nodes four_config - {''r3''}" using four_config_bft(4) by simp
  have n: "cfg_n four_config = 4" by code_simp
  from operations_lost [OF four_config_bft(1) small(1,2) demo_env_ok(2,1) small(3-5)]
  obtain as bs c1 c2 h where "acts demo_env four_config {''r3''} (map SubmitOp (replicate 5 zero_hash) @ as) (cluster_new four_config) = Some c1"
    "acts demo_env four_config {''r3''} bs c1 = Some c2" "h \<le> cfg_n four_config"
    "\<forall>n \<in> config_nodes four_config - {''r3''}. kv_size (state (members c1 n)) = of_nat (length (replicate 5 zero_hash)) \<and>
       kv_size (state (members c2 n)) = h"
    by blast
  with bspec [OF this(4) r0] n show ?thesis by auto
qed

end
