(* ===== verification/Spec_Violations.thy ===== *)
theory Spec_Violations
  imports Spec_Invariants
begin

text \<open>
  Where clusters break the specification's invariants. A repair that never ends: replicas in the commit
  phase have no timeout, so when the correct nodes have prepared two histories of one faulty
  node and split their commits between them, no schedule of the correct nodes' timers and deliveries
  takes any of them out of the round. And checkpoints that disagree without a fault, after an
  alignment.
\<close>

section \<open>Replicas that wait for commits forever\<close>

text \<open>A replica in the commit phase does nothing but answer state requests until it holds a quorum of
  commits for its history, or sees enough REPAIR-DONEs.\<close>

fun answers :: "replica \<Rightarrow> message \<Rightarrow> effect list" where
  "answers r (StateRequest q k) = handle_state_request r q"
| "answers r m = []"

definition waiting :: "replica \<Rightarrow> bool" where
  "waiting r \<longleftrightarrow> phase (state r) = CommitPhase \<and> in_repair (state r)"

definition keep_message :: "message \<Rightarrow> replica \<Rightarrow> replica" where
  "keep_message m r = store_done (store_commit (store_prepare (store_history (store_log (store_timeout
     (store_chkpt (store_sync r m) m) m) m) m) m) m) m"

lemma keep_message_same [simp]:
  "config (keep_message m r) = config r" "phase (state (keep_message m r)) = phase (state r)"
  "in_repair (state (keep_message m r)) = in_repair (state r)" "view (state (keep_message m r)) = view (state r)"
  "round (state (keep_message m r)) = round (state r)"
  "proposed_history_hash (state (keep_message m r)) = proposed_history_hash (state r)"
  by (simp_all add: keep_message_def store_defs)

lemma commit_phase_guards:
  assumes "phase (state r) = CommitPhase"
  shows "can_speculate r m = None" "can_send_sync_threshold r = None" "can_form_checkpoint r = None"
    "can_enter_align r = None" "can_conflict_proof r = None" "can_timeout_proof r = None"
    "can_state_reply r m = None" "can_broadcast_history r = None" "can_repair_prepare E r = None"
    "can_repair_commit r = None" "in_repair (state r) \<Longrightarrow> can_enter_repair r m = None"
  using assms closed_guards [of r]
  by (simp_all add: can_broadcast_history_def can_repair_prepare_def can_repair_commit_def)

lemma apply_ignores_dones: "can_apply_repair (state_update (repair_done_msgs_update f) r) = can_apply_repair r"
  by (simp add: can_apply_repair_def)

lemma waiting_message:
  assumes "waiting r" and "can_apply_repair (keep_message m r) = None"
    and "can_repair_done_catchup (keep_message m r) = None"
  shows "process_message E m r = Inr (keep_message m r, answers r m)"
proof -
  have ph: "phase (state r) = CommitPhase" "in_repair (state r)" using assms(1) by (simp_all add: waiting_def)
  show ?thesis
    using assms(2,3) ph
    by (cases m)
       (simp_all add: process_message_def message_steps_def receive_defs store_defs Let_def keep_message_def
          commit_phase_guards apply_ignores_dones)
qed

lemma waiting_event: "waiting r \<Longrightarrow> handle_event E ev r = Inr (r, [])"
  by (simp add: waiting_def handle_event_eq can_view_change_def can_send_sync_on_event_def can_chkpt_timeout_def)


section \<open>A repair that is stuck\<close>

text \<open>All correct nodes wait for commits of one view and round, and neither a quorum of commits nor any
  REPAIR-DONE for them is in the network.\<close>

definition committers :: "packet list \<Rightarrow> u64 \<Rightarrow> u64 \<Rightarrow> u64 \<Rightarrow> node_id set" where
  "committers w v rd h = {s. RepairCommit s v rd h \<in> snd ` set w}"

definition stuck :: "config \<Rightarrow> node_id set \<Rightarrow> u64 \<Rightarrow> u64 \<Rightarrow> cluster \<Rightarrow> bool" where
  "stuck cfg F v rd c \<longleftrightarrow> 0 < unat (f_plus_1 cfg) \<and>
     (\<forall>n \<in> config_nodes cfg - F. waiting (members c n) \<and> view (state (members c n)) = v \<and>
        round (state (members c n)) = rd) \<and>
     (\<forall>h. card (committers (net c) v rd h) < unat (byz_quorum cfg)) \<and>
     (\<forall>s h. RepairDone s v rd h \<notin> snd ` set (net c))"

lemma finite_committers [simp]: "finite (committers w v rd h)"
proof -
  have "committers w v rd h \<subseteq> (\<lambda>m. the (sender_of m)) ` snd ` set w"
    unfolding committers_def by (force intro: image_eqI [where x = "RepairCommit s v rd h" for s])
  then show ?thesis by (rule finite_subset) simp
qed

lemma delivered_keep: "delivered M (state r) \<Longrightarrow> m \<in> M \<Longrightarrow> delivered M (state (keep_message m r))"
  by (cases m) (auto simp: delivered_def msgs_ok_def keep_message_def store_defs)

lemma stuck_guards:
  assumes "stuck cfg F v rd c" and "config r = cfg" and "view (state r) = v" and "round (state r) = rd"
    and "delivered (snd ` set (net c)) (state r)"
  shows "can_apply_repair r = None" and "can_repair_done_catchup r = None"
proof -
  let ?h = "proposed_history_hash (state r)"
  have "committed_by r ?h \<subseteq> committers (net c) v rd ?h"
    using assms(3-5) by (auto simp: committed_by_def committers_def delivered_def)
  then have "card (committed_by r ?h) < unat (byz_quorum cfg)"
    using assms(1) card_mono [OF finite_committers] le_less_trans unfolding stuck_def by blast
  then show "can_apply_repair r = None"
    using commit_count [of r ?h] assms(2) by (simp add: can_apply_repair_def Let_def)
  have net: "m \<in> snd ` set (net c)" if "m |\<in>| repair_done_msgs (state r)" for m
    using assms(5) that unfolding delivered_def by blast
  have "\<not> done_matches (view (state r)) (round (state r)) m" if "m |\<in>| repair_done_msgs (state r)" for m
  proof
    assume "done_matches (view (state r)) (round (state r)) m"
    then obtain s h where "m = RepairDone s v rd h" using assms(3,4) by (cases m) auto
    then show False using net [OF that] assms(1) unfolding stuck_def by blast
  qed
  then have "{m \<in> fset (repair_done_msgs (state r)). done_matches (view (state r)) (round (state r)) m} = {}"
    by auto
  then have "count_matching (done_matches (view (state r)) (round (state r))) (repair_done_msgs (state r)) = 0"
    unfolding count_matching_card by (simp only: card.empty)
  then show "can_repair_done_catchup r = None"
    using assms(1,2) by (simp add: can_repair_done_catchup_def Let_def stuck_def)
qed

fun adversarial :: "action \<Rightarrow> bool" where
  "adversarial (Inject p) \<longleftrightarrow> True"
| "adversarial a \<longleftrightarrow> False"

text \<open>A cluster stays stuck when nothing is added to the network that speaks of the repair.\<close>

lemma stuck_keep:
  assumes "stuck cfg F v rd c" and "\<And>m. m \<in> snd ` set w \<Longrightarrow> m \<in> snd ` set (net c) \<or> is_StateReply m \<or> is_Speculate m"
    and "\<And>n. n \<in> config_nodes cfg - F \<Longrightarrow> waiting (members c' n) \<and> view (state (members c' n)) = v \<and>
      round (state (members c' n)) = rd"
    and "net c' = w"
  shows "stuck cfg F v rd c'"
proof -
  have "committers w v rd h \<subseteq> committers (net c) v rd h" for h
  proof
    fix s assume "s \<in> committers w v rd h"
    then show "s \<in> committers (net c) v rd h"
      using assms(2) [of "RepairCommit s v rd h"] by (simp add: committers_def)
  qed
  then have "card (committers w v rd h) \<le> card (committers (net c) v rd h)" for h
    by (intro card_mono) simp_all
  moreover have "card (committers (net c) v rd h) < unat (byz_quorum cfg)" for h
    using assms(1) unfolding stuck_def by blast
  ultimately have "card (committers w v rd h) < unat (byz_quorum cfg)" for h
    using le_less_trans by blast
  moreover have "RepairDone s v rd h \<notin> snd ` set w" for s h
  proof -
    have "RepairDone s v rd h \<in> snd ` set w \<Longrightarrow> RepairDone s v rd h \<in> snd ` set (net c)"
      using assms(2) [of "RepairDone s v rd h"] by simp
    then show ?thesis using assms(1) unfolding stuck_def by blast
  qed
  moreover have "\<forall>n \<in> config_nodes cfg - F. waiting (members c' n) \<and> view (state (members c' n)) = v \<and>
      round (state (members c' n)) = rd"
    using assms(3) by blast
  moreover have "0 < unat (f_plus_1 cfg)" using assms(1) unfolding stuck_def by (rule conjunct1)
  ultimately show ?thesis unfolding stuck_def assms(4) by blast
qed

lemma sent_answers: "m' \<in> sent (answers r m) \<Longrightarrow> is_StateReply m'"
  by (cases m) (auto simp: sent_def handle_state_request_def)

lemma stuck_step:
  assumes "reachable E cfg F c" and s: "stuck cfg F v rd c" and a: "act E cfg F a c = Some c'" and "\<not> adversarial a"
  shows "stuck cfg F v rd c'"
proof (cases a)
  case (Deliver n m)
  let ?r = "members c n"
  have n: "n \<in> config_nodes cfg - F" and m: "m \<in> snd ` set (net c)" and c': "c' = node_step E n (InMessage m) c"
    using a Deliver reaches_packet by (auto simp: up_def split: if_splits)
  have ok: "member_ok cfg (net c) n ?r" by (rule reachable_members [OF assms(1)])
  have w: "waiting ?r" "view (state ?r) = v" "round (state ?r) = rd" using s n by (auto simp: stuck_def)
  have "can_apply_repair (keep_message m ?r) = None" "can_repair_done_catchup (keep_message m ?r) = None"
    using stuck_guards [OF s, of "keep_message m ?r"] ok w(2,3) delivered_keep [OF _ m] by (simp_all add: member_ok_def)
  then have run: "process_message E m ?r = Inr (keep_message m ?r, answers ?r m)" by (rule waiting_message [OF w(1)])
  show ?thesis
  proof (rule stuck_keep [OF s])
    show "net c' = transmit (answers ?r m) (net c)" by (simp add: c' node_step_def run)
    show "x \<in> snd ` set (net c) \<or> is_StateReply x \<or> is_Speculate x"
      if "x \<in> snd ` set (transmit (answers ?r m) (net c))" for x
      using that sent_answers unfolding transmit_packets by blast
    show "waiting (members c' k) \<and> view (state (members c' k)) = v \<and> round (state (members c' k)) = rd"
      if "k \<in> config_nodes cfg - F" for k
      using that s w by (simp add: c' node_step_def run stuck_def waiting_def)
  qed
next
  case (Timer n ev)
  then have n: "n \<in> config_nodes cfg - F" and c': "c' = node_step E n (InEvent ev) c"
    using a by (auto simp: up_def split: if_splits)
  have "handle_event E ev (members c n) = Inr (members c n, [])"
    using s n by (intro waiting_event) (simp add: stuck_def)
  then show ?thesis
    using s by (intro stuck_keep [OF s, of "net c"]) (auto simp: c' node_step_def stuck_def transmit_def)
next
  case (SubmitOp h)
  then have "members c' = members c" "\<exists>m. is_Speculate m \<and> net c' = net c @ [(None, m)]"
    using a by (auto simp: submit_def eta_next_def wire_api_def Let_def)
  then show ?thesis using s by (intro stuck_keep [OF s _ _ refl]) (auto simp: stuck_def)
next
  case (Inject p)
  then show ?thesis using assms(4) by simp
qed

lemma stuck_forever:
  "reachable E cfg F c \<Longrightarrow> stuck cfg F v rd c \<Longrightarrow> acts E cfg F as c = Some c' \<Longrightarrow> \<forall>a \<in> set as. \<not> adversarial a \<Longrightarrow>
     stuck cfg F v rd c'"
proof (induction as arbitrary: c)
  case (Cons a as)
  then obtain c1 where c1: "act E cfg F a c = Some c1" "acts E cfg F as c1 = Some c'"
    by (auto split: option.splits)
  have "reachable E cfg F c1" using Cons.prems(1) c1(1) by (rule reachable.step)
  then show ?case
    using Cons.IH [OF _ _ c1(2)] stuck_step [OF Cons.prems(1,2) c1(1)] Cons.prems(4) by simp
qed simp


text \<open>The faulty node \<open>r5\<close> proposes two histories, although \<open>r0\<close> leads view 0, and prepares one of them. Node
  \<open>r0\<close> commits the first and the four others the second, and \<open>r5\<close> keeps its commit to itself.\<close>

definition others :: "node_id list" where
  "others = map node_name [1..<5]"

definition two_histories :: "action list" where
  "two_histories = Inject (None, ConflictProof 0 0) # to_all (ConflictProof 0 0) @
     [Inject (None, RepairHistory ''r5'' 0 0 6), Inject (None, RepairHistory ''r5'' 0 0 5),
      Inject (None, RepairPrepare ''r5'' 0 0 5)] @
     to_all (RepairHistory ''r5'' 0 0 6)"

definition split_commits :: "action list" where
  "split_commits = map (\<lambda>i. Deliver ''r0'' (RepairPrepare (node_name i) 0 0 6)) [0..<5] @
     map (\<lambda>n. Deliver n (RepairHistory ''r5'' 0 0 5)) others @
     concat (map (\<lambda>i. map (\<lambda>n. Deliver n (RepairPrepare (node_name i) 0 0 5)) others) [1..<6])"

fun split_vote :: "message \<Rightarrow> bool" where
  "split_vote (RepairCommit s v rd h) \<longleftrightarrow> (if s = ''r0'' then h = 6 else List.member others s \<and> h = 5)"
| "split_vote (RepairDone s v rd h) \<longleftrightarrow> False"
| "split_vote m \<longleftrightarrow> True"

lemma two_histories_check:
  "(case acts demo_env six_config {''r5''} two_histories (cluster_new six_config) of
      None \<Rightarrow> False
    | Some c \<Rightarrow> list_all (\<lambda>n. phase (state (members c n)) = PreparePhase \<and> view (state (members c n)) = 0) (''r0'' # others) \<and>
        list_all (\<lambda>p. is_RepairHistory (snd p) \<longrightarrow> sender_of (snd p) = Some ''r5'') (net c))"
  by code_simp

lemma split_commits_check:
  "(case acts demo_env six_config {''r5''} (two_histories @ split_commits) (cluster_new six_config) of
      None \<Rightarrow> False
    | Some c \<Rightarrow> crashed c = {} \<and> list_all (\<lambda>p. split_vote (snd p)) (net c) \<and>
        list_all (\<lambda>n. phase (state (members c n)) = CommitPhase \<and> in_repair (state (members c n)) \<and>
          view (state (members c n)) = 0 \<and> round (state (members c n)) = 0 \<and>
          proposed_history_hash (state (members c n)) = (if n = ''r0'' then 6 else 5)) (''r0'' # others) \<and>
        list_all (\<lambda>h. List.member (net c) (None, RepairPrepare ''r1'' 0 0 h)) [5, 6])"
  by code_simp


abbreviation correct_six_nodes :: "node_id set" where
  "correct_six_nodes \<equiv> config_nodes six_config - {''r5''}"

lemma others_eq: "others = [''r1'', ''r2'', ''r3'', ''r4'']"
  by code_simp

lemma correct_others: "correct_six_nodes = set (''r0'' # others)"
  unfolding correct_six others_eq by simp

lemma split_committers:
  assumes "\<forall>p \<in> set w. split_vote (snd p)"
  shows "committers w 0 0 h \<subseteq> set others \<or> committers w 0 0 h \<subseteq> {''r0''}" "\<forall>s. RepairDone s 0 0 h \<notin> snd ` set w"
proof -
  have "s \<in> set others \<and> h = 5 \<or> s = ''r0'' \<and> h = 6" if "s \<in> committers w 0 0 h" for s
    using that assms by (auto simp: committers_def split: if_splits)
  then show "committers w 0 0 h \<subseteq> set others \<or> committers w 0 0 h \<subseteq> {''r0''}" by (cases "h = 5") force+
  show "\<forall>s. RepairDone s 0 0 h \<notin> snd ` set w" using assms by fastforce
qed

lemma split_stuck:
  obtains c where "reachable demo_env six_config {''r5''} c" and "crashed c = {}" and "stuck six_config {''r5''} 0 0 c"
    and "\<not> repair_history_agreement correct_six_nodes c"
    and "\<not> no_honest_equivocation six_config correct_six_nodes c"
proof -
  obtain c where c: "acts demo_env six_config {''r5''} (two_histories @ split_commits) (cluster_new six_config) = Some c"
    "\<forall>p \<in> set (net c). split_vote (snd p)" and up: "crashed c = {}" and c':
    "\<forall>n \<in> correct_six_nodes. phase (state (members c n)) = CommitPhase \<and> in_repair (state (members c n)) \<and>
       view (state (members c n)) = 0 \<and> round (state (members c n)) = 0 \<and>
       proposed_history_hash (state (members c n)) = (if n = ''r0'' then 6 else 5)"
    "(None, RepairPrepare ''r1'' 0 0 5) \<in> set (net c)" "(None, RepairPrepare ''r1'' 0 0 6) \<in> set (net c)"
    using split_commits_check unfolding correct_others
    by (auto simp: list_all_iff split: option.splits)
  show ?thesis
  proof
    show "reachable demo_env six_config {''r5''} c" by (rule acts_reachable [OF reachable.start c(1)])
    show "crashed c = {}" by (rule up)
    have "card (committers (net c) 0 0 h) < unat (byz_quorum six_config)" for h
    proof -
      have "card (committers (net c) 0 0 h) \<le> 4"
        using split_committers(1) [OF c(2), of h]
      proof
        assume "committers (net c) 0 0 h \<subseteq> set others"
        then have "card (committers (net c) 0 0 h) \<le> card (set others)" by (intro card_mono) simp_all
        also have "\<dots> \<le> 4" using card_length [of others] by (simp add: others_def)
        finally show ?thesis .
      next
        assume "committers (net c) 0 0 h \<subseteq> {''r0''}"
        then have "card (committers (net c) 0 0 h) \<le> card {''r0''}" by (intro card_mono) simp_all
        then show ?thesis by simp
      qed
      then show ?thesis using six_thresholds by simp
    qed
    then show "stuck six_config {''r5''} 0 0 c"
      using c'(1) split_committers(2) [OF c(2)] six_thresholds by (simp add: stuck_def waiting_def)
    show "\<not> repair_history_agreement correct_six_nodes c"
      using bspec [OF c'(1) correct_members(1)] bspec [OF c'(1) correct_members(2)] correct_members
      by (fastforce simp: repair_history_agreement_def Let_def)
    show "\<not> no_honest_equivocation six_config correct_six_nodes c"
    proof -
      have "prepare_equivocation_in ''r1'' (messages c ''r1'')"
        using c'(2,3) unfolding prepare_equivocation_in_def messages_def reaches_def
        by (intro exI [of _ 0] exI [of _ 5] exI [of _ 6]) simp
      moreover have "''r1'' \<in> config_nodes six_config" using correct_members(2) by simp
      ultimately show ?thesis using correct_members(2) unfolding no_honest_equivocation_def by blast
    qed
  qed
qed

text \<open>Already after the proposals the specification's invariant on who proposes is broken.\<close>

lemma outsider_history_prepared:
  "\<exists>c. reachable demo_env six_config {''r5''} c \<and> \<not> only_leader_proposes_history six_config correct_six_nodes c"
proof -
  obtain c where c: "acts demo_env six_config {''r5''} two_histories (cluster_new six_config) = Some c"
    "phase (state (members c ''r1'')) = PreparePhase" "view (state (members c ''r1'')) = 0"
    "\<forall>p \<in> set (net c). is_RepairHistory (snd p) \<longrightarrow> sender_of (snd p) = Some ''r5''"
    using two_histories_check by (auto simp: list_all_iff others_eq split: option.splits)
  have "\<not> leads six_config ''r5'' 0" by code_simp
  moreover have "s = ''r5''" if "RepairHistory s v rd h \<in> messages c ''r1''" for s v rd h
    using messages_net [OF that] c(4) by force
  ultimately have "\<not> (\<exists>m \<in> messages c ''r1''. case m of RepairHistory s v rd h \<Rightarrow>
      v = view (state (members c ''r1'')) \<and> rd = round (state (members c ''r1'')) \<and>
      leads six_config s (view (state (members c ''r1''))) | _ \<Rightarrow> False)"
    using c(3) by (auto split: message.splits)
  then have "\<not> only_leader_proposes_history six_config correct_six_nodes c"
    using c(2) correct_members(2) unfolding only_leader_proposes_history_def Let_def by blast
  then show ?thesis using acts_reachable [OF reachable.start c(1)] by blast
qed

section \<open>Checkpoints without a fault\<close>

text \<open>Two operations, executed by five nodes; three of them form the checkpoint 1 from everybody's SYNCs,
  and one of these sees the two others' CHECKPOINTs.\<close>

definition healthy_alignment :: "action list" where
  "healthy_alignment =
     (let sync = (\<lambda>i. Sync (node_name i) 0 1 (digest_of demo_env first_entry) 0)
      in SubmitOp (hash_fill 7) # SubmitOp (hash_fill 8) # to_all (Speculate ''sequencer'' 0 (hash_fill 7) 0) @ to_all (Speculate ''sequencer'' 0 (hash_fill 8) 1) @
         concat (map (\<lambda>n. map (\<lambda>i. Deliver n (sync i)) [0..<5]) [''r0'', ''r1'', ''r2'']) @
         map (\<lambda>n. Deliver ''r1'' (Checkpoint n 0 1 (digest_of demo_env first_entry))) [''r0'', ''r2''] @
         [Deliver ''r0'' (StateRequest ''r1'' 1),
          Deliver ''r1'' (StateReply ''r0'' 1 (digest_of demo_env first_entry))])"

lemma healthy_alignment_check:
  "(case acts demo_env six_config {} healthy_alignment (cluster_new six_config) of
      None \<Rightarrow> False
    | Some c \<Rightarrow> chkpt_idx (state (members c ''r0'')) = 1 \<and> chkpt_idx (state (members c ''r1'')) = 1 \<and>
        chkpt_hash (state (members c ''r0'')) \<noteq> chkpt_hash (state (members c ''r1'')) \<and>
        mem_lookup (kv_store (state (members c ''r0''))) 1 \<noteq> mem_lookup (kv_store (state (members c ''r1''))) 1)"
  by code_simp

section \<open>Properties\<close>

text \<open>C8: One faulty node blocks the repair. In a cluster of six with the faulty node \<open>r5\<close> a state is
  reachable in which every correct node is in the commit phase of round 0, correct nodes wait for different
  histories in one view, and correct nodes have prepared both, against the specification's invariants.
  Unless \<open>r5\<close> speaks again, no deliveries, timers and submissions ever take a correct node out of it.\<close>

theorem one_fault_blocks_repair:
  "\<exists>c. reachable demo_env six_config {''r5''} c \<and> crashed c = {} \<and>
     \<not> repair_history_agreement correct_six_nodes c \<and> \<not> no_honest_equivocation six_config correct_six_nodes c \<and>
     (\<forall>as c'. (\<forall>a \<in> set as. \<not> adversarial a) \<and> acts demo_env six_config {''r5''} as c = Some c' \<longrightarrow>
        (\<forall>n \<in> correct_six_nodes. phase (state (members c' n)) = CommitPhase \<and> round (state (members c' n)) = 0))"
proof -
  obtain c where c: "reachable demo_env six_config {''r5''} c" "crashed c = {}" "stuck six_config {''r5''} 0 0 c"
    "\<not> repair_history_agreement correct_six_nodes c" "\<not> no_honest_equivocation six_config correct_six_nodes c"
    by (rule split_stuck)
  have "stuck six_config {''r5''} 0 0 c'" if "\<forall>a \<in> set as. \<not> adversarial a"
    "acts demo_env six_config {''r5''} as c = Some c'" for as c'
    by (rule stuck_forever [OF c(1,3) that(2,1)])
  then have "\<forall>as c'. (\<forall>a \<in> set as. \<not> adversarial a) \<and> acts demo_env six_config {''r5''} as c = Some c' \<longrightarrow>
      (\<forall>n \<in> correct_six_nodes. phase (state (members c' n)) = CommitPhase \<and> round (state (members c' n)) = 0)"
    by (auto simp: stuck_def waiting_def)
  with c show ?thesis by blast
qed

lemma one_fault_blocks_repair_witness:
  "\<exists>c c'. reachable demo_env six_config {''r5''} c \<and>
     acts demo_env six_config {''r5''} [Timer ''r1'' RepairViewTimeout] c = Some c' \<and>
     phase (state (members c' ''r1'')) = CommitPhase"
proof -
  obtain c where c: "reachable demo_env six_config {''r5''} c" "crashed c = {}"
    "\<And>as c'. \<forall>a \<in> set as. \<not> adversarial a \<Longrightarrow> acts demo_env six_config {''r5''} as c = Some c' \<Longrightarrow>
       \<forall>n \<in> correct_six_nodes. phase (state (members c' n)) = CommitPhase \<and> round (state (members c' n)) = 0"
    using one_fault_blocks_repair by blast
  let ?as = "[Timer ''r1'' RepairViewTimeout]"
  have "\<exists>c'. acts demo_env six_config {''r5''} ?as c = Some c'"
    using c(2) correct_members(2) by (simp add: up_def)
  then obtain c' where c': "acts demo_env six_config {''r5''} ?as c = Some c'" by blast
  moreover have "phase (state (members c' ''r1'')) = CommitPhase"
    using c(3) [of ?as, OF _ c'] correct_members(2) by simp
  ultimately show ?thesis using c(1) by blast
qed


end
