(* ===== verification/Aspen_Spec.thy ===== *)
theory Aspen_Spec
  imports Invariants Quorum
begin

text \<open>
  The replica of the Quint specification \<^verbatim>\<open>src/specs/aspen.qnt\<close>: its local state, its listeners and its
  handlers, each pair under the specification's name. The specification's unbounded integers are natural
  numbers here and messages are those of the program, whose 64-bit fields are read as numbers.
  The specification takes log hashes to be abstract; entries and their hashes are an argument
  (\<open>hashing\<close>), of which the specification's own arithmetic stand-ins are one instance.
\<close>

section \<open>State\<close>

record hashing =
  entry_at :: "nat \<Rightarrow> hash \<Rightarrow> kv_entry"
  recovered_entry :: "nat \<Rightarrow> kv_entry"
  entry_digest :: "kv_entry \<Rightarrow> hash"
  top_digest :: "kv_entry \<Rightarrow> hash"

type_synonym spec_store = "nat \<Rightarrow> kv_entry option"

record spec_state =
  process_id :: node_id
  sp_phase :: phase
  sp_round :: nat
  sp_view :: nat
  sp_start_idx :: nat
  sp_kv_size :: nat
  sp_kv_store :: spec_store
  sp_chkpt_idx :: nat
  sp_chkpt_hash :: hash
  sp_eta_star :: nat
  sp_in_repair :: bool
  sp_proposed :: nat

definition spec_initialize :: "node_id \<Rightarrow> spec_state" where
  "spec_initialize node = \<lparr>process_id = node, sp_phase = Speculative, sp_round = 0, sp_view = 0, sp_start_idx = 0,
     sp_kv_size = 0, sp_kv_store = Map.empty, sp_chkpt_idx = 0, sp_chkpt_hash = zero_hash, sp_eta_star = 0,
     sp_in_repair = False, sp_proposed = 0\<rparr>"

section \<open>Configuration and helpers\<close>

definition n_replicas :: "config \<Rightarrow> nat" where
  "n_replicas cfg = length (nodes_ordered cfg)"

definition spec_fast_quorum :: "config \<Rightarrow> nat" where
  "spec_fast_quorum cfg = n_replicas cfg - unat (cfg_p cfg)"

definition spec_byz_quorum :: "config \<Rightarrow> nat" where
  "spec_byz_quorum cfg = n_replicas cfg - unat (cfg_f cfg)"

definition spec_f_plus_1 :: "config \<Rightarrow> nat" where
  "spec_f_plus_1 cfg = unat (cfg_f cfg) + 1"

definition spec_is_leader :: "config \<Rightarrow> node_id \<Rightarrow> nat \<Rightarrow> bool" where
  "spec_is_leader cfg node vw \<longleftrightarrow> nodes_ordered cfg ! (vw mod n_replicas cfg) = node"

definition log_hash_at :: "hashing \<Rightarrow> spec_store \<Rightarrow> nat \<Rightarrow> hash" where
  "log_hash_at H store k = entry_digest H (the (store k))"

definition log_top_hash :: "hashing \<Rightarrow> spec_store \<Rightarrow> nat \<Rightarrow> hash" where
  "log_top_hash H store n = (if n > 0 then top_digest H (the (store (n - 1))) else zero_hash)"

text \<open>The senders among the messages that match a pattern.\<close>

definition senders_in :: "(message \<Rightarrow> bool) \<Rightarrow> message set \<Rightarrow> node_id set" where
  "senders_in p M = (\<lambda>m. the (sender_of m)) ` {m \<in> M. p m}"

definition consistent_syncs :: "message set \<Rightarrow> nat \<Rightarrow> nat \<Rightarrow> hash \<Rightarrow> node_id set" where
  "consistent_syncs M rd idx lh = senders_in (\<lambda>m. case m of
     Sync s r k h e \<Rightarrow> unat r = rd \<and> unat k = idx \<and> h = lh | _ \<Rightarrow> False) M"

definition all_sync_senders :: "message set \<Rightarrow> nat \<Rightarrow> nat \<Rightarrow> node_id set" where
  "all_sync_senders M rd idx = senders_in (\<lambda>m. case m of
     Sync s r k h e \<Rightarrow> unat r = rd \<and> unat k = idx | _ \<Rightarrow> False) M"

definition checkpoint_senders :: "message set \<Rightarrow> nat \<Rightarrow> nat \<Rightarrow> node_id set" where
  "checkpoint_senders M rd idx = senders_in (\<lambda>m. case m of
     Checkpoint s r k h \<Rightarrow> unat r = rd \<and> unat k = idx | _ \<Rightarrow> False) M"

definition timeout_senders :: "message set \<Rightarrow> nat \<Rightarrow> nat \<Rightarrow> node_id set" where
  "timeout_senders M rd idx = senders_in (\<lambda>m. case m of
     TimeoutMsg s r k \<Rightarrow> unat r = rd \<and> unat k = idx | _ \<Rightarrow> False) M"

definition log_msg_senders :: "message set \<Rightarrow> nat \<Rightarrow> nat \<Rightarrow> node_id set" where
  "log_msg_senders M vw rd = senders_in (\<lambda>m. case m of
     LogMsg s v r h \<Rightarrow> unat v = vw \<and> unat r = rd | _ \<Rightarrow> False) M"

definition repair_prepare_senders :: "message set \<Rightarrow> nat \<Rightarrow> nat \<Rightarrow> nat \<Rightarrow> node_id set" where
  "repair_prepare_senders M vw rd hist = senders_in (\<lambda>m. case m of
     RepairPrepare s v r h \<Rightarrow> unat v = vw \<and> unat r = rd \<and> unat h = hist | _ \<Rightarrow> False) M"

definition repair_commit_senders :: "message set \<Rightarrow> nat \<Rightarrow> nat \<Rightarrow> nat \<Rightarrow> node_id set" where
  "repair_commit_senders M vw rd hist = senders_in (\<lambda>m. case m of
     RepairCommit s v r h \<Rightarrow> unat v = vw \<and> unat r = rd \<and> unat h = hist | _ \<Rightarrow> False) M"

definition repair_done_senders :: "message set \<Rightarrow> nat \<Rightarrow> nat \<Rightarrow> node_id set" where
  "repair_done_senders M vw rd = senders_in (\<lambda>m. case m of
     RepairDone s v r h \<Rightarrow> unat v = vw \<and> unat r = rd | _ \<Rightarrow> False) M"

text \<open>The histories proposed for a view and round, and the one a replica takes: the largest.\<close>

definition histories_in :: "message set \<Rightarrow> nat \<Rightarrow> nat \<Rightarrow> nat set" where
  "histories_in M vw rd = (\<lambda>m. case m of RepairHistory s v r h \<Rightarrow> unat h | _ \<Rightarrow> 0) `
     {m \<in> M. case m of RepairHistory s v r h \<Rightarrow> unat v = vw \<and> unat r = rd | _ \<Rightarrow> False}"

definition has_repair_history :: "message set \<Rightarrow> nat \<Rightarrow> nat \<Rightarrow> bool" where
  "has_repair_history M vw rd \<longleftrightarrow> histories_in M vw rd \<noteq> {}"

definition get_history_hash :: "message set \<Rightarrow> nat \<Rightarrow> nat \<Rightarrow> nat" where
  "get_history_hash M vw rd = Max (insert 0 (histories_in M vw rd))"

definition conflict_proof_possible :: "config \<Rightarrow> nat \<Rightarrow> nat \<Rightarrow> bool" where
  "conflict_proof_possible cfg total_syncs consistent_count \<longleftrightarrow>
     int (n_replicas cfg) - int total_syncs < int (spec_fast_quorum cfg) - int consistent_count"

section \<open>Fast path and checkpoint\<close>

text \<open>A handler gives the post-state and the effects. A listener gives the set of its parameters.\<close>

type_synonym spec_transition = "spec_state \<times> effect list"

definition listen_speculate :: "spec_state \<Rightarrow> nat set" where
  "listen_speculate st = (if sp_phase st = Speculative then {sp_kv_size st} else {})"

definition spec_speculate :: "hashing \<Rightarrow> spec_state \<Rightarrow> nat \<Rightarrow> spec_transition" where
  "spec_speculate H st log_idx =
     (let prev_h = (if log_idx > 0 then log_hash_at H (sp_kv_store st) (log_idx - 1) else zero_hash);
          new_store = (sp_kv_store st)(log_idx \<mapsto> entry_at H log_idx prev_h);
          new_hash = log_hash_at H new_store log_idx
      in (st\<lparr>sp_kv_size := sp_kv_size st + 1, sp_kv_store := new_store\<rparr>,
          [Broadcast (SpecReply (process_id st) (of_nat (sp_round st)) (of_nat log_idx) new_hash)]))"

definition listen_send_sync :: "event set \<Rightarrow> spec_state \<Rightarrow> nat set" where
  "listen_send_sync Ev st =
     (if sp_phase st = Speculative \<and> sp_kv_size st > 0 \<and> (SyncTimeout \<in> Ev \<or> sp_kv_size st > sp_chkpt_idx st)
      then {sp_kv_size st - 1} else {})"

definition spec_send_sync :: "hashing \<Rightarrow> spec_state \<Rightarrow> nat \<Rightarrow> spec_transition" where
  "spec_send_sync H st log_idx =
     (st, [Broadcast (Sync (process_id st) (of_nat (sp_round st)) (of_nat log_idx)
             (log_top_hash H (sp_kv_store st) (sp_kv_size st)) (of_nat (sp_eta_star st)))])"

definition listen_form_checkpoint :: "hashing \<Rightarrow> config \<Rightarrow> message set \<Rightarrow> spec_state \<Rightarrow> nat set" where
  "listen_form_checkpoint H cfg M st =
     (if sp_phase st = Speculative \<and> sp_kv_size st > 0
      then let log_idx = sp_kv_size st - 1;
               quorum = consistent_syncs M (sp_round st) log_idx (log_top_hash H (sp_kv_store st) (sp_kv_size st))
           in if card quorum \<ge> spec_fast_quorum cfg then {log_idx} else {}
      else {})"

definition spec_form_checkpoint :: "hashing \<Rightarrow> spec_state \<Rightarrow> nat \<Rightarrow> spec_transition" where
  "spec_form_checkpoint H st log_idx =
     (let top = log_top_hash H (sp_kv_store st) (sp_kv_size st)
      in (st\<lparr>sp_chkpt_idx := log_idx, sp_chkpt_hash := top\<rparr>,
          [Broadcast (Checkpoint (process_id st) (of_nat (sp_round st)) (of_nat log_idx) top)]))"

definition listen_enter_align :: "config \<Rightarrow> message set \<Rightarrow> spec_state \<Rightarrow> nat set" where
  "listen_enter_align cfg M st =
     (if sp_phase st = Speculative \<and>
         card (checkpoint_senders M (sp_round st) (sp_chkpt_idx st)) \<ge> spec_f_plus_1 cfg
      then {sp_chkpt_idx st} else {})"

definition spec_enter_align :: "spec_state \<Rightarrow> nat \<Rightarrow> spec_transition" where
  "spec_enter_align st idx =
     (st\<lparr>sp_phase := Aligning\<rparr>, [Broadcast (StateRequest (process_id st) (of_nat idx))])"

section \<open>Entry into REPAIR\<close>

definition spec_log_msg :: "hashing \<Rightarrow> spec_state \<Rightarrow> nat \<Rightarrow> message" where
  "spec_log_msg H st vw = LogMsg (process_id st) (of_nat vw) (of_nat (sp_round st))
     (log_top_hash H (sp_kv_store st) (sp_kv_size st))"

definition listen_conflict_proof :: "hashing \<Rightarrow> config \<Rightarrow> message set \<Rightarrow> spec_state \<Rightarrow> nat set" where
  "listen_conflict_proof H cfg M st =
     (if sp_phase st = Speculative \<and> sp_kv_size st > 0 \<and> \<not> sp_in_repair st
      then let log_idx = sp_kv_size st - 1;
               total = card (all_sync_senders M (sp_round st) log_idx);
               consist = card (consistent_syncs M (sp_round st) log_idx
                                 (log_top_hash H (sp_kv_store st) (sp_kv_size st)))
           in if conflict_proof_possible cfg total consist then {log_idx} else {}
      else {})"

definition spec_conflict_proof :: "hashing \<Rightarrow> spec_state \<Rightarrow> nat \<Rightarrow> spec_transition" where
  "spec_conflict_proof H st log_idx =
     (st\<lparr>sp_phase := CollectingLogs, sp_in_repair := True\<rparr>,
      [Broadcast (ConflictProof (of_nat (sp_round st)) (of_nat log_idx)),
       Broadcast (spec_log_msg H st (sp_view st))])"

definition listen_chkpt_timeout :: "event set \<Rightarrow> spec_state \<Rightarrow> nat set" where
  "listen_chkpt_timeout Ev st =
     (if sp_phase st = Speculative \<and> \<not> sp_in_repair st then {unat k |k. ChkptTimeout k \<in> Ev} else {})"

definition spec_chkpt_timeout :: "spec_state \<Rightarrow> nat \<Rightarrow> spec_transition" where
  "spec_chkpt_timeout st log_idx =
     (st, [Broadcast (TimeoutMsg (process_id st) (of_nat (sp_round st)) (of_nat log_idx))])"

definition listen_timeout_proof :: "config \<Rightarrow> message set \<Rightarrow> spec_state \<Rightarrow> nat set" where
  "listen_timeout_proof cfg M st =
     (if sp_phase st = Speculative \<and> \<not> sp_in_repair st \<and> sp_kv_size st > 0 \<and>
         card (timeout_senders M (sp_round st) (sp_kv_size st - 1)) \<ge> spec_f_plus_1 cfg
      then {sp_kv_size st - 1} else {})"

definition spec_timeout_proof :: "hashing \<Rightarrow> spec_state \<Rightarrow> nat \<Rightarrow> spec_transition" where
  "spec_timeout_proof H st log_idx =
     (st\<lparr>sp_phase := CollectingLogs, sp_in_repair := True\<rparr>,
      [Broadcast (TimeoutProof (of_nat (sp_round st)) (of_nat log_idx)),
       Broadcast (spec_log_msg H st (sp_view st))])"

definition listen_enter_repair :: "message set \<Rightarrow> spec_state \<Rightarrow> nat set" where
  "listen_enter_repair M st =
     (if \<not> sp_in_repair st \<and> (\<exists>m \<in> M. is_TimeoutProof m \<or> is_ConflictProof m) then {sp_round st} else {})"

definition spec_enter_repair :: "hashing \<Rightarrow> spec_state \<Rightarrow> nat \<Rightarrow> spec_transition" where
  "spec_enter_repair H st rd =
     (st\<lparr>sp_phase := CollectingLogs, sp_in_repair := True\<rparr>, [Broadcast (spec_log_msg H st (sp_view st))])"

section \<open>Alignment\<close>

definition listen_state_request :: "message set \<Rightarrow> node_id set" where
  "listen_state_request M = senders_in is_StateRequest M"

definition spec_state_request :: "spec_state \<Rightarrow> node_id \<Rightarrow> spec_transition" where
  "spec_state_request st requester =
     (st, [Send requester (StateReply (process_id st) (of_nat (sp_chkpt_idx st)) (sp_chkpt_hash st))])"

definition listen_state_reply :: "message set \<Rightarrow> spec_state \<Rightarrow> nat set" where
  "listen_state_reply M st =
     (if sp_phase st = Aligning
      then (\<lambda>m. case m of StateReply s k h \<Rightarrow> unat k | _ \<Rightarrow> 0) ` {m \<in> M. is_StateReply m} else {})"

definition spec_state_reply :: "hashing \<Rightarrow> spec_state \<Rightarrow> nat \<Rightarrow> spec_transition" where
  "spec_state_reply H st idx =
     (let recovery_store = (\<lambda>k. if k \<le> idx then Some (recovered_entry H k) else None)
      in (st\<lparr>sp_phase := Speculative, sp_chkpt_idx := idx, sp_chkpt_hash := log_hash_at H recovery_store idx,
             sp_kv_size := idx + 1, sp_kv_store := recovery_store, sp_start_idx := idx\<rparr>, []))"

section \<open>REPAIR\<close>

definition listen_broadcast_history :: "config \<Rightarrow> message set \<Rightarrow> spec_state \<Rightarrow> nat set" where
  "listen_broadcast_history cfg M st =
     (if sp_phase st = CollectingLogs \<and> spec_is_leader cfg (process_id st) (sp_view st)
      then let log_senders = log_msg_senders M (sp_view st) (sp_round st)
           in if card log_senders \<ge> spec_byz_quorum cfg then {card log_senders} else {}
      else {})"

definition spec_broadcast_history :: "spec_state \<Rightarrow> nat \<Rightarrow> spec_transition" where
  "spec_broadcast_history st h =
     (st\<lparr>sp_phase := PreparePhase, sp_proposed := h\<rparr>,
      [Broadcast (RepairHistory (process_id st) (of_nat (sp_view st)) (of_nat (sp_round st)) (of_nat h))])"

definition listen_repair_prepare :: "message set \<Rightarrow> spec_state \<Rightarrow> nat set" where
  "listen_repair_prepare M st =
     (if (sp_phase st = CollectingLogs \<or> sp_phase st = PreparePhase) \<and>
         has_repair_history M (sp_view st) (sp_round st)
      then {get_history_hash M (sp_view st) (sp_round st)} else {})"

definition spec_repair_prepare :: "spec_state \<Rightarrow> nat \<Rightarrow> spec_transition" where
  "spec_repair_prepare st h =
     (st\<lparr>sp_phase := PreparePhase, sp_proposed := h\<rparr>,
      [Broadcast (RepairPrepare (process_id st) (of_nat (sp_view st)) (of_nat (sp_round st)) (of_nat h))])"

definition listen_repair_commit :: "config \<Rightarrow> message set \<Rightarrow> spec_state \<Rightarrow> nat set" where
  "listen_repair_commit cfg M st =
     (if sp_phase st = PreparePhase \<and>
         card (repair_prepare_senders M (sp_view st) (sp_round st) (sp_proposed st)) \<ge> spec_byz_quorum cfg
      then {sp_proposed st} else {})"

definition spec_repair_commit :: "spec_state \<Rightarrow> nat \<Rightarrow> spec_transition" where
  "spec_repair_commit st h =
     (st\<lparr>sp_phase := CommitPhase\<rparr>,
      [Broadcast (RepairCommit (process_id st) (of_nat (sp_view st)) (of_nat (sp_round st)) (of_nat h))])"

definition listen_apply_repair :: "config \<Rightarrow> message set \<Rightarrow> spec_state \<Rightarrow> nat set" where
  "listen_apply_repair cfg M st =
     (if sp_phase st = CommitPhase \<and>
         card (repair_commit_senders M (sp_view st) (sp_round st) (sp_proposed st)) \<ge> spec_byz_quorum cfg
      then {sp_proposed st} else {})"

definition spec_apply_repair :: "hashing \<Rightarrow> spec_state \<Rightarrow> nat \<Rightarrow> spec_transition" where
  "spec_apply_repair H st h =
     (st\<lparr>sp_phase := Speculative, sp_round := sp_round st + 1, sp_start_idx := h, sp_kv_size := h,
         sp_kv_store := (\<lambda>k. if k < h then Some (recovered_entry H k) else None),
         sp_in_repair := False, sp_proposed := 0\<rparr>,
      [Broadcast (RepairDone (process_id st) (of_nat (sp_view st)) (of_nat (sp_round st)) (of_nat h)),
       Broadcast (CommittedReply (process_id st) (of_nat (sp_round st)) (of_nat (sp_kv_size st)))])"

definition listen_repair_done_catchup :: "config \<Rightarrow> message set \<Rightarrow> spec_state \<Rightarrow> nat set" where
  "listen_repair_done_catchup cfg M st =
     (if sp_phase st \<in> {CollectingLogs, PreparePhase, CommitPhase} \<and>
         card (repair_done_senders M (sp_view st) (sp_round st)) \<ge> spec_f_plus_1 cfg \<and>
         has_repair_history M (sp_view st) (sp_round st)
      then {sp_round st} else {})"

definition spec_repair_done_catchup :: "spec_state \<Rightarrow> nat \<Rightarrow> spec_transition" where
  "spec_repair_done_catchup st rd =
     (st\<lparr>sp_phase := Speculative, sp_round := sp_round st + 1, sp_start_idx := sp_kv_size st,
         sp_in_repair := False, sp_proposed := 0\<rparr>, [])"

definition listen_view_change :: "event set \<Rightarrow> spec_state \<Rightarrow> nat set" where
  "listen_view_change Ev st =
     (if sp_phase st = CollectingLogs \<and> RepairViewTimeout \<in> Ev then {sp_view st + 1} else {})"

definition spec_view_change :: "hashing \<Rightarrow> spec_state \<Rightarrow> nat \<Rightarrow> spec_transition" where
  "spec_view_change H st new_view = (st\<lparr>sp_view := new_view\<rparr>, [Broadcast (spec_log_msg H st new_view)])"

section \<open>Transitions and runs\<close>

definition main_listener ::
    "hashing \<Rightarrow> config \<Rightarrow> message set \<Rightarrow> event set \<Rightarrow> spec_state \<Rightarrow> spec_transition set" where
  "main_listener H cfg M Ev st =
     spec_speculate H st ` listen_speculate st \<union>
     spec_send_sync H st ` listen_send_sync Ev st \<union>
     spec_form_checkpoint H st ` listen_form_checkpoint H cfg M st \<union>
     spec_enter_align st ` listen_enter_align cfg M st \<union>
     spec_conflict_proof H st ` listen_conflict_proof H cfg M st \<union>
     spec_chkpt_timeout st ` listen_chkpt_timeout Ev st \<union>
     spec_timeout_proof H st ` listen_timeout_proof cfg M st \<union>
     spec_enter_repair H st ` listen_enter_repair M st \<union>
     spec_state_request st ` listen_state_request M \<union>
     spec_state_reply H st ` listen_state_reply M st \<union>
     spec_broadcast_history st ` listen_broadcast_history cfg M st \<union>
     spec_repair_prepare st ` listen_repair_prepare M st \<union>
     spec_repair_commit st ` listen_repair_commit cfg M st \<union>
     spec_apply_repair H st ` listen_apply_repair cfg M st \<union>
     spec_repair_done_catchup st ` listen_repair_done_catchup cfg M st \<union>
     spec_view_change H st ` listen_view_change Ev st"

end
