(* ===== verification/Spec_Guards.thy ===== *)
theory Spec_Guards
  imports Aspen_Spec Agreement
begin

text \<open>
  The replica's state read as the specification's, and the counts of its guards as the specification's
  sets of senders over the messages the replica has received.
\<close>

section \<open>The abstraction\<close>

definition code_hashing :: "env \<Rightarrow> hashing" where
  "code_hashing E = \<lparr>entry_at = \<lambda>k h. \<lparr>op_hash = of_nat k, entry_result = [], prev_hash = h\<rparr>,
     recovered_entry = \<lambda>k. synthetic_entry (of_nat k), entry_digest = digest_of E, top_digest = prev_hash\<rparr>"

definition abs_log :: "(u64 \<Rightarrow> kv_entry option) \<Rightarrow> spec_store" where
  "abs_log L = (\<lambda>k. if k < 2 ^ 64 then L (of_nat k) else None)"

definition abs_state :: "replica_state \<Rightarrow> spec_state" where
  "abs_state s = \<lparr>process_id = node_id s, sp_phase = phase s, sp_round = unat (round s), sp_view = unat (view s),
     sp_start_idx = unat (start_idx s), sp_kv_size = unat (kv_size s),
     sp_kv_store = abs_log (mem_lookup (kv_store s)), sp_chkpt_idx = unat (chkpt_idx s),
     sp_chkpt_hash = chkpt_hash s, sp_eta_star = unat (eta_star s), sp_in_repair = in_repair s,
     sp_proposed = unat (proposed_history_hash s)\<rparr>"

lemma abs_state_simps [simp]:
  "process_id (abs_state s) = node_id s" "sp_phase (abs_state s) = phase s"
  "sp_round (abs_state s) = unat (round s)" "sp_view (abs_state s) = unat (view s)"
  "sp_kv_size (abs_state s) = unat (kv_size s)" "sp_chkpt_idx (abs_state s) = unat (chkpt_idx s)"
  "sp_chkpt_hash (abs_state s) = chkpt_hash s" "sp_eta_star (abs_state s) = unat (eta_star s)"
  "sp_in_repair (abs_state s) = in_repair s" "sp_proposed (abs_state s) = unat (proposed_history_hash s)"
  "sp_kv_store (abs_state s) = abs_log (mem_lookup (kv_store s))"
  by (simp_all add: abs_state_def)

lemma abs_log_unat [simp]: "abs_log L (unat k) = L k"
  using unat_u64_less [of k] by (simp add: abs_log_def)

lemma abs_log_range:
  assumes "log_shape L n" and "\<And>j. j < n \<Longrightarrow> L j = Some (g j)"
  shows "abs_log L = (\<lambda>k. if k < unat n then Some (g (of_nat k)) else None)"
proof
  fix k show "abs_log L k = (if k < unat n then Some (g (of_nat k)) else None)"
  proof (cases "k < 2 ^ 64")
    case True
    then have k: "of_nat k < n \<longleftrightarrow> k < unat n" by (simp add: word_less_nat_alt unat_of_nat)
    show ?thesis
      using assms k True unfolding abs_log_def log_shape_def by (cases "L (of_nat k)") auto
  next
    case False
    then show ?thesis using unat_u64_less [of n] by (simp add: abs_log_def)
  qed
qed

lemma abs_log_upd: "abs_log (L(k \<mapsto> e)) = (abs_log L)(unat k \<mapsto> e)"
proof
  fix i show "abs_log (L(k \<mapsto> e)) i = ((abs_log L)(unat k \<mapsto> e)) i"
  proof (cases "i < 2 ^ 64")
    case True
    then have "of_nat i = k \<longleftrightarrow> i = unat k" by (auto simp: unat_of_nat)
    then show ?thesis using True by (simp add: abs_log_def)
  next
    case False
    then show ?thesis using unat_u64_less [of k] by (auto simp: abs_log_def)
  qed
qed

lemma unat_pred: "n \<noteq> 0 \<Longrightarrow> unat (n - 1 :: u64) = unat n - 1"
  by (simp add: unat_minus_one)

lemma top_hash_abs:
  assumes "log_ok s"
  shows "log_top_hash (code_hashing E) (abs_log (mem_lookup (kv_store s))) (unat (kv_size s)) =
    mem_top_hash (kv_store s)"
proof (cases "kv_size s = 0")
  case True
  then have "mem_lookup (kv_store s) = Map.empty"
    using assms mem.log_empty by (simp add: log_ok_def)
  then show ?thesis using mem.top_empty assms True by (simp add: log_top_hash_def log_ok_def)
next
  case False
  then obtain e where "mem_lookup (kv_store s) (kv_size s - 1) = Some e" "mem_top_hash (kv_store s) = prev_hash e"
    using mem.log_top [of "kv_store s" "kv_size s"] assms by (auto simp: log_ok_def word_gt_0)
  moreover have "log_top_hash (code_hashing E) (abs_log (mem_lookup (kv_store s))) (unat (kv_size s)) =
      prev_hash (the (abs_log (mem_lookup (kv_store s)) (unat (kv_size s - 1))))"
    using False unfolding unat_pred [OF False] by (simp add: log_top_hash_def code_hashing_def unat_gt_0)
  ultimately show ?thesis by simp
qed

section \<open>Received messages\<close>

text \<open>The replica stores every message it receives of the kinds it counts.\<close>

definition boxed :: "message set \<Rightarrow> replica_state \<Rightarrow> bool" where
  "boxed M s \<longleftrightarrow>
     fset (sync_msgs s) = {m \<in> M. is_Sync m} \<and> fset (chkpt_msgs s) = {m \<in> M. is_Checkpoint m} \<and>
     fset (timeout_msgs s) = {m \<in> M. is_TimeoutMsg m} \<and> fset (log_msgs s) = {m \<in> M. is_LogMsg m} \<and>
     fset (repair_history_msgs s) = {m \<in> M. is_RepairHistory m} \<and>
     fset (repair_prepare_msgs s) = {m \<in> M. is_RepairPrepare m} \<and>
     fset (repair_commit_msgs s) = {m \<in> M. is_RepairCommit m} \<and>
     fset (repair_done_msgs s) = {m \<in> M. is_RepairDone m}"

lemma senders_in_box:
  assumes "fset S = {m \<in> M. k m}" and "\<And>m. p m \<longleftrightarrow> q m" and "\<And>m. q m \<Longrightarrow> k m \<and> sender_of m \<noteq> None"
  shows "senders_in p M = senders q S"
proof -
  have "{m \<in> M. p m} = {m \<in> fset S. q m \<and> sender_of m \<noteq> None}" using assms by auto
  then show ?thesis by (simp add: senders_in_def senders_image)
qed

lemma spec_patterns:
  "(case m of Sync s r i d e \<Rightarrow> unat r = unat rd \<and> unat i = unat k \<and> d = h | _ \<Rightarrow> False) = sync_agrees rd k h m"
  "(case m of Sync s r i d e \<Rightarrow> unat r = unat rd \<and> unat i = unat k | _ \<Rightarrow> False) = sync_matches rd k m"
  "(case m of Checkpoint s r i d \<Rightarrow> unat r = unat rd \<and> unat i = unat k | _ \<Rightarrow> False) = chkpt_matches rd k m"
  "(case m of TimeoutMsg s r i \<Rightarrow> unat r = unat rd \<and> unat i = unat k | _ \<Rightarrow> False) = timeout_matches rd k m"
  "(case m of LogMsg s v r d \<Rightarrow> unat v = unat vw \<and> unat r = unat rd | _ \<Rightarrow> False) = log_matches vw rd m"
  "(case m of RepairHistory s v r d \<Rightarrow> unat v = unat vw \<and> unat r = unat rd | _ \<Rightarrow> False) = history_matches vw rd m"
  "(case m of RepairPrepare s v r d \<Rightarrow> unat v = unat vw \<and> unat r = unat rd \<and> unat d = unat g | _ \<Rightarrow> False) =
     prepare_matches vw rd g m"
  "(case m of RepairCommit s v r d \<Rightarrow> unat v = unat vw \<and> unat r = unat rd \<and> unat d = unat g | _ \<Rightarrow> False) =
     commit_matches vw rd g m"
  "(case m of RepairDone s v r d \<Rightarrow> unat v = unat vw \<and> unat r = unat rd | _ \<Rightarrow> False) = done_matches vw rd m"
  by (cases m, simp_all)+

lemma pattern_kinds:
  "sync_agrees rd k h m \<Longrightarrow> is_Sync m \<and> sender_of m \<noteq> None"
  "sync_matches rd k m \<Longrightarrow> is_Sync m \<and> sender_of m \<noteq> None"
  "chkpt_matches rd k m \<Longrightarrow> is_Checkpoint m \<and> sender_of m \<noteq> None"
  "timeout_matches rd k m \<Longrightarrow> is_TimeoutMsg m \<and> sender_of m \<noteq> None"
  "log_matches vw rd m \<Longrightarrow> is_LogMsg m \<and> sender_of m \<noteq> None"
  "prepare_matches vw rd g m \<Longrightarrow> is_RepairPrepare m \<and> sender_of m \<noteq> None"
  "commit_matches vw rd g m \<Longrightarrow> is_RepairCommit m \<and> sender_of m \<noteq> None"
  "done_matches vw rd m \<Longrightarrow> is_RepairDone m \<and> sender_of m \<noteq> None"
  by (cases m, simp_all)+

lemma boxed_senders:
  assumes "boxed M s"
  shows "consistent_syncs M (unat rd) (unat k) h = senders (sync_agrees rd k h) (sync_msgs s)"
    "all_sync_senders M (unat rd) (unat k) = senders (sync_matches rd k) (sync_msgs s)"
    "checkpoint_senders M (unat rd) (unat k) = senders (chkpt_matches rd k) (chkpt_msgs s)"
    "timeout_senders M (unat rd) (unat k) = senders (timeout_matches rd k) (timeout_msgs s)"
    "log_msg_senders M (unat vw) (unat rd) = senders (log_matches vw rd) (log_msgs s)"
    "repair_prepare_senders M (unat vw) (unat rd) (unat g) = senders (prepare_matches vw rd g) (repair_prepare_msgs s)"
    "repair_commit_senders M (unat vw) (unat rd) (unat g) = senders (commit_matches vw rd g) (repair_commit_msgs s)"
    "repair_done_senders M (unat vw) (unat rd) = senders (done_matches vw rd) (repair_done_msgs s)"
proof -
  have S: "fset (sync_msgs s) = {m \<in> M. is_Sync m}" and C: "fset (chkpt_msgs s) = {m \<in> M. is_Checkpoint m}"
    and T: "fset (timeout_msgs s) = {m \<in> M. is_TimeoutMsg m}" and L: "fset (log_msgs s) = {m \<in> M. is_LogMsg m}"
    and P: "fset (repair_prepare_msgs s) = {m \<in> M. is_RepairPrepare m}"
    and K: "fset (repair_commit_msgs s) = {m \<in> M. is_RepairCommit m}"
    and D: "fset (repair_done_msgs s) = {m \<in> M. is_RepairDone m}"
    using assms unfolding boxed_def by blast+
  show "consistent_syncs M (unat rd) (unat k) h = senders (sync_agrees rd k h) (sync_msgs s)"
    unfolding consistent_syncs_def by (rule senders_in_box [OF S spec_patterns(1) pattern_kinds(1)])
  show "all_sync_senders M (unat rd) (unat k) = senders (sync_matches rd k) (sync_msgs s)"
    unfolding all_sync_senders_def by (rule senders_in_box [OF S spec_patterns(2) pattern_kinds(2)])
  show "checkpoint_senders M (unat rd) (unat k) = senders (chkpt_matches rd k) (chkpt_msgs s)"
    unfolding checkpoint_senders_def by (rule senders_in_box [OF C spec_patterns(3) pattern_kinds(3)])
  show "timeout_senders M (unat rd) (unat k) = senders (timeout_matches rd k) (timeout_msgs s)"
    unfolding timeout_senders_def by (rule senders_in_box [OF T spec_patterns(4) pattern_kinds(4)])
  show "log_msg_senders M (unat vw) (unat rd) = senders (log_matches vw rd) (log_msgs s)"
    unfolding log_msg_senders_def by (rule senders_in_box [OF L spec_patterns(5) pattern_kinds(5)])
  show "repair_prepare_senders M (unat vw) (unat rd) (unat g) = senders (prepare_matches vw rd g) (repair_prepare_msgs s)"
    unfolding repair_prepare_senders_def by (rule senders_in_box [OF P spec_patterns(7) pattern_kinds(6)])
  show "repair_commit_senders M (unat vw) (unat rd) (unat g) = senders (commit_matches vw rd g) (repair_commit_msgs s)"
    unfolding repair_commit_senders_def by (rule senders_in_box [OF K spec_patterns(8) pattern_kinds(7)])
  show "repair_done_senders M (unat vw) (unat rd) = senders (done_matches vw rd) (repair_done_msgs s)"
    unfolding repair_done_senders_def by (rule senders_in_box [OF D spec_patterns(9) pattern_kinds(8)])
qed

text \<open>What the messages may be for the replica's counts of messages to be counts of senders, and for one
  history to be proposed at a time.\<close>

definition single_votes :: "message set \<Rightarrow> bool" where
  "single_votes M \<longleftrightarrow>
     (\<forall>s rd k h e h' e'. Sync s rd k h e \<in> M \<and> Sync s rd k h' e' \<in> M \<longrightarrow> h = h' \<and> e = e') \<and>
     (\<forall>s rd k h h'. Checkpoint s rd k h \<in> M \<and> Checkpoint s rd k h' \<in> M \<longrightarrow> h = h') \<and>
     (\<forall>s v rd h h'. RepairDone s v rd h \<in> M \<and> RepairDone s v rd h' \<in> M \<longrightarrow> h = h') \<and>
     (\<forall>s s' v rd h h'. RepairHistory s v rd h \<in> M \<and> RepairHistory s' v rd h' \<in> M \<longrightarrow> h = h')"

lemma single_votesD:
  assumes "single_votes M"
  shows "Sync q rd k h e \<in> M \<Longrightarrow> Sync q rd k h' e' \<in> M \<Longrightarrow> h = h' \<and> e = e'"
    "Checkpoint q rd k h \<in> M \<Longrightarrow> Checkpoint q rd k h' \<in> M \<Longrightarrow> h = h'"
    "RepairDone q vw rd g \<in> M \<Longrightarrow> RepairDone q vw rd g' \<in> M \<Longrightarrow> g = g'"
    "RepairHistory q vw rd g \<in> M \<Longrightarrow> RepairHistory q' vw rd g' \<in> M \<Longrightarrow> g = g'"
  using assms unfolding single_votes_def by metis+

lemma count_senders_inj:
  assumes "\<And>m. p m \<Longrightarrow> sender_of m \<noteq> None"
    and "\<And>m m'. m |\<in>| S \<Longrightarrow> m' |\<in>| S \<Longrightarrow> p m \<Longrightarrow> p m' \<Longrightarrow> sender_of m = sender_of m' \<Longrightarrow> m = m'"
  shows "count_matching p S = card (senders p S)"
proof -
  have "{m \<in> fset S. p m \<and> sender_of m \<noteq> None} = {m \<in> fset S. p m}" using assms(1) by blast
  moreover have "inj_on (the \<circ> sender_of) {m \<in> fset S. p m}"
  proof (rule inj_onI)
    fix m m' assume m: "m \<in> {m \<in> fset S. p m}" "m' \<in> {m \<in> fset S. p m}"
      and eq: "(the \<circ> sender_of) m = (the \<circ> sender_of) m'"
    then have "sender_of m = sender_of m'" using assms(1) [of m] assms(1) [of m'] by auto
    then show "m = m'" using m assms(2) by blast
  qed
  ultimately show ?thesis
    unfolding count_matching_card senders_image by (simp only: card_image)
qed

lemma vote_forms:
  "sync_matches rd k m \<longleftrightarrow> (\<exists>q h e. m = Sync q rd k h e)" "chkpt_matches rd k m \<longleftrightarrow> (\<exists>q h. m = Checkpoint q rd k h)"
  "done_matches vw rd m \<longleftrightarrow> (\<exists>q h. m = RepairDone q vw rd h)"
  by (cases m, simp_all)+

lemma single_counts:
  assumes "single_votes M" and "boxed N s" and "N \<subseteq> M"
  shows "count_matching (sync_agrees rd k h) (sync_msgs s) = card (senders (sync_agrees rd k h) (sync_msgs s))"
    "count_matching (sync_matches rd k) (sync_msgs s) = card (senders (sync_matches rd k) (sync_msgs s))"
    "count_matching (chkpt_matches rd k) (chkpt_msgs s) = card (senders (chkpt_matches rd k) (chkpt_msgs s))"
    "count_matching (done_matches vw rd) (repair_done_msgs s) = card (senders (done_matches vw rd) (repair_done_msgs s))"
proof -
  have S: "m \<in> M" if "m |\<in>| sync_msgs s" for m
  proof -
    have "fset (sync_msgs s) = {m \<in> N. is_Sync m}" using assms(2) unfolding boxed_def by (elim conjE)
    then show ?thesis using that assms(3) by blast
  qed
  have C: "m \<in> M" if "m |\<in>| chkpt_msgs s" for m
  proof -
    have "fset (chkpt_msgs s) = {m \<in> N. is_Checkpoint m}" using assms(2) unfolding boxed_def by (elim conjE)
    then show ?thesis using that assms(3) by blast
  qed
  have D: "m \<in> M" if "m |\<in>| repair_done_msgs s" for m
  proof -
    have "fset (repair_done_msgs s) = {m \<in> N. is_RepairDone m}" using assms(2) unfolding boxed_def by (elim conjE)
    then show ?thesis using that assms(3) by blast
  qed
  have sync: "m = m'" if v: "m |\<in>| sync_msgs s" "m' |\<in>| sync_msgs s" "sync_matches rd k m" "sync_matches rd k m'"
    "sender_of m = sender_of m'" for m m'
  proof -
    obtain q d e q' d' e' where m: "m = Sync q rd k d e" "m' = Sync q' rd k d' e'"
      using v(3,4) unfolding vote_forms by blast
    then have "q' = q" "Sync q rd k d e \<in> M" "Sync q' rd k d' e' \<in> M" using S [OF v(1)] S [OF v(2)] v(5) by simp_all
    then have "d = d' \<and> e = e'" using single_votesD(1) [OF assms(1), of q rd k d e d' e'] by simp
    then show ?thesis using m \<open>q' = q\<close> by simp
  qed
  show "count_matching (sync_matches rd k) (sync_msgs s) = card (senders (sync_matches rd k) (sync_msgs s))"
    using pattern_kinds(2) sync by (intro count_senders_inj) blast+
  have "sync_agrees rd k h m \<Longrightarrow> sync_matches rd k m" for m by (cases m) auto
  then show "count_matching (sync_agrees rd k h) (sync_msgs s) = card (senders (sync_agrees rd k h) (sync_msgs s))"
    using pattern_kinds(1) sync by (intro count_senders_inj) blast+
  have chkpt: "m = m'" if v: "m |\<in>| chkpt_msgs s" "m' |\<in>| chkpt_msgs s" "chkpt_matches rd k m" "chkpt_matches rd k m'"
    "sender_of m = sender_of m'" for m m'
  proof -
    obtain q d q' d' where m: "m = Checkpoint q rd k d" "m' = Checkpoint q' rd k d'"
      using v(3,4) unfolding vote_forms by blast
    then have "q' = q" "Checkpoint q rd k d \<in> M" "Checkpoint q' rd k d' \<in> M" using C [OF v(1)] C [OF v(2)] v(5) by simp_all
    then have "d = d'" using single_votesD(2) [OF assms(1), of q rd k d d'] by simp
    then show ?thesis using m \<open>q' = q\<close> by simp
  qed
  show "count_matching (chkpt_matches rd k) (chkpt_msgs s) = card (senders (chkpt_matches rd k) (chkpt_msgs s))"
    using pattern_kinds(3) chkpt by (intro count_senders_inj) blast+
  have fin: "m = m'" if v: "m |\<in>| repair_done_msgs s" "m' |\<in>| repair_done_msgs s" "done_matches vw rd m"
    "done_matches vw rd m'" "sender_of m = sender_of m'" for m m'
  proof -
    obtain q d q' d' where m: "m = RepairDone q vw rd d" "m' = RepairDone q' vw rd d'"
      using v(3,4) unfolding vote_forms by blast
    then have "q' = q" "RepairDone q vw rd d \<in> M" "RepairDone q' vw rd d' \<in> M" using D [OF v(1)] D [OF v(2)] v(5) by simp_all
    then have "d = d'" using single_votesD(3) [OF assms(1), of q vw rd d d'] by simp
    then show ?thesis using m \<open>q' = q\<close> by simp
  qed
  show "count_matching (done_matches vw rd) (repair_done_msgs s) =
      card (senders (done_matches vw rd) (repair_done_msgs s))"
    using pattern_kinds(8) fin by (intro count_senders_inj) blast+
qed

end
