(* ===== verification/Spec_Refinement.thy ===== *)
theory Spec_Refinement
  imports Spec_Guards Scenario
begin

text \<open>
  Runs of the replica are runs of the specification's replica: messages are delivered to it and its
  listeners fire. The one exception is the conflict proof, whose guard in the code differs
  from the specification's.
\<close>

section \<open>Guards are listeners\<close>

definition tracks :: "env \<Rightarrow> config \<Rightarrow> message set \<Rightarrow> message set \<Rightarrow> replica \<Rightarrow> bool" where
  "tracks E cfg M N r \<longleftrightarrow> sound_net E M cfg \<and> single_votes M \<and> bft_config cfg \<and> log_inv M cfg r \<and>
     N \<subseteq> M \<and> boxed N (state r)"

lemma tracksD:
  assumes "tracks E cfg M N r"
  shows "sound_net E M cfg" "single_votes M" "bft_config cfg" "config r = cfg" "log_ok (state r)" "N \<subseteq> M"
    "boxed N (state r)" "mem_ok (kv_store (state r))" "overflow_checks E" "iter_ok E" "log_inv M cfg r"
  using assms by (simp_all add: tracks_def log_inv_def log_ok_def sound_net_def)

lemma spec_quorums:
  assumes "bft_config cfg"
  shows "spec_fast_quorum cfg = unat (fast_quorum cfg)" "spec_byz_quorum cfg = unat (byz_quorum cfg)"
    "spec_f_plus_1 cfg = unat (f_plus_1 cfg)" "0 < n_replicas cfg"
  using bft_config_bound [OF assms]
  by (simp_all add: spec_fast_quorum_def spec_byz_quorum_def spec_f_plus_1_def n_replicas_def
      bft_config_facts [OF assms])

lemma pred_abs: "n \<noteq> 0 \<Longrightarrow> unat n - Suc 0 = unat (n - 1 :: u64)" "0 < unat (n :: u64) \<longleftrightarrow> n \<noteq> 0"
  by (simp_all add: unat_minus_one unat_gt_0)

lemma tracks_counts:
  assumes "tracks E cfg M N r"
  shows "count_matching (sync_agrees rd k h) (sync_msgs (state r)) = card (consistent_syncs N (unat rd) (unat k) h)"
    "count_matching (sync_matches rd k) (sync_msgs (state r)) = card (all_sync_senders N (unat rd) (unat k))"
    "count_matching (chkpt_matches rd k) (chkpt_msgs (state r)) = card (checkpoint_senders N (unat rd) (unat k))"
    "count_matching (done_matches vw rd) (repair_done_msgs (state r)) = card (repair_done_senders N (unat vw) (unat rd))"
    "count_matching (timeout_matches rd k) (timeout_msgs (state r)) = card (timeout_senders N (unat rd) (unat k))"
    "count_matching (prepare_matches vw rd g) (repair_prepare_msgs (state r)) =
       card (repair_prepare_senders N (unat vw) (unat rd) (unat g))"
    "count_matching (commit_matches vw rd g) (repair_commit_msgs (state r)) =
       card (repair_commit_senders N (unat vw) (unat rd) (unat g))"
    "card (senders (log_matches vw rd) (log_msgs (state r))) = card (log_msg_senders N (unat vw) (unat rd))"
  by (simp_all add: single_counts [OF tracksD(2,7,6) [OF assms]] boxed_senders [OF tracksD(7) [OF assms]]
      one_per_sender_patterns count_eq_senders)

lemma tracks_thresholds:
  assumes "tracks E cfg M N r"
  shows "unat (fast_quorum (config r)) = spec_fast_quorum cfg" "unat (byz_quorum (config r)) = spec_byz_quorum cfg"
    "unat (f_plus_1 (config r)) = spec_f_plus_1 cfg"
    "mem_top_hash (kv_store (state r)) =
       log_top_hash (code_hashing E) (sp_kv_store (abs_state (state r))) (sp_kv_size (abs_state (state r)))"
  by (simp_all add: spec_quorums [OF tracksD(3) [OF assms]] tracksD(4) [OF assms] top_hash_abs [OF tracksD(5) [OF assms]])

lemma speculate_listens: "can_speculate r m = Some k \<Longrightarrow> unat k \<in> listen_speculate (abs_state (state r))"
  by (auto simp: can_speculate_def listen_speculate_def split: if_splits)

lemma sync_listens:
  "can_send_sync_threshold r = Some k \<Longrightarrow> unat k \<in> listen_send_sync Ev (abs_state (state r))"
  "can_send_sync_on_event r ev = Some k \<Longrightarrow> unat k \<in> listen_send_sync {ev} (abs_state (state r))"
  by (auto simp: can_send_sync_threshold_def can_send_sync_on_event_def listen_send_sync_def pred_abs
      word_le_nat_alt split: if_splits)

lemma checkpoint_listens:
  assumes "tracks E cfg M N r" and "can_form_checkpoint r = Some k"
  shows "unat k \<in> listen_form_checkpoint (code_hashing E) cfg N (abs_state (state r))"
  using assms(2) unfolding can_form_checkpoint_def listen_form_checkpoint_def Let_def
    tracks_counts [OF assms(1)] tracks_thresholds [OF assms(1)]
  by (auto simp: pred_abs split: if_splits)

lemma align_listens:
  assumes "tracks E cfg M N r" and "can_enter_align r = Some k"
  shows "unat k \<in> listen_enter_align cfg N (abs_state (state r))"
  using assms(2) unfolding can_enter_align_def listen_enter_align_def Let_def
    tracks_counts [OF assms(1)] tracks_thresholds [OF assms(1)]
  by (auto split: if_splits)

lemma timeout_listens:
  "can_chkpt_timeout r ev = Some k \<Longrightarrow> unat k \<in> listen_chkpt_timeout {ev} (abs_state (state r))"
  by (auto simp: can_chkpt_timeout_def listen_chkpt_timeout_def split: if_splits event.splits)

lemma timeout_proof_listens:
  assumes "tracks E cfg M N r" and "can_timeout_proof r = Some k"
  shows "unat k \<in> listen_timeout_proof cfg N (abs_state (state r))"
  using assms(2) unfolding can_timeout_proof_def listen_timeout_proof_def Let_def
    tracks_counts [OF assms(1)] tracks_thresholds [OF assms(1)]
  by (auto simp: pred_abs split: if_splits)

lemma enter_repair_listens:
  "can_enter_repair r m = Some rd \<Longrightarrow> m \<in> N \<Longrightarrow> unat rd \<in> listen_enter_repair N (abs_state (state r))"
  by (auto simp: can_enter_repair_def listen_enter_repair_def split: if_splits)

lemma state_request_listens: "can_state_request m = Some q \<Longrightarrow> m \<in> N \<Longrightarrow> q \<in> listen_state_request N"
  unfolding listen_state_request_def senders_in_def by (cases m) force+

lemma state_reply_listens:
  "can_state_reply r m = Some k \<Longrightarrow> m \<in> N \<Longrightarrow> unat k \<in> listen_state_reply N (abs_state (state r))"
  unfolding listen_state_reply_def by (cases m) (force simp: can_state_reply_def split: if_splits)+

lemma log_senders_small:
  assumes "sound_net E M cfg" and "log_inv M cfg r"
  shows "unat (of_nat (card (senders (log_matches vw rd) (log_msgs (state r)))) :: u64) =
    card (senders (log_matches vw rd) (log_msgs (state r)))"
proof -
  have "senders (log_matches vw rd) (log_msgs (state r)) \<subseteq> set (nodes_ordered cfg)"
  proof
    fix q assume "q \<in> senders (log_matches vw rd) (log_msgs (state r))"
    then obtain m where m: "m |\<in>| log_msgs (state r)" "log_matches vw rd m" "sender_of m = Some q"
      by (auto simp: senders_Collect)
    then have "m \<in> M" using assms(2) by (auto simp: log_inv_def delivered_def)
    with m assms(1) show "q \<in> set (nodes_ordered cfg)" by (cases m) (auto simp: sound_net_def)
  qed
  then have "card (senders (log_matches vw rd) (log_msgs (state r))) \<le> length (nodes_ordered cfg)"
    by (meson List.finite_set card_length card_mono le_trans)
  also have "\<dots> < 2 ^ 64" using assms(1) by (simp add: sound_net_def)
  finally show ?thesis by (simp add: unat_of_nat)
qed

lemma history_listens:
  assumes "tracks E cfg M N r" and "can_broadcast_history r = Some k"
  shows "unat k \<in> listen_broadcast_history cfg N (abs_state (state r))"
proof -
  have k: "unat k = card (log_msg_senders N (unat (view (state r))) (unat (round (state r))))"
    using assms(2) log_senders_small [OF tracksD(1,11) [OF assms(1)]] unfolding tracks_counts [OF assms(1)]
    by (auto simp: can_broadcast_history_def Let_def tracks_counts [OF assms(1)] split: if_splits)
  moreover have "spec_is_leader cfg (node_id (state r)) (unat (view (state r)))" "phase (state r) = CollectingLogs"
    using assms(2) tracksD(4) [OF assms(1)]
    by (auto simp: can_broadcast_history_def is_leader_def spec_is_leader_def n_replicas_def Let_def split: if_splits)
  moreover have "spec_byz_quorum cfg \<le> card (log_msg_senders N (unat (view (state r))) (unat (round (state r))))"
    using assms(2) unfolding can_broadcast_history_def Let_def tracks_counts [OF assms(1)] tracks_thresholds [OF assms(1)]
    by (auto split: if_splits)
  ultimately show ?thesis by (simp add: listen_broadcast_history_def Let_def)
qed

lemma histories_boxed:
  assumes "boxed N s"
  shows "histories_in N (unat vw) (unat rd) = {unat h |q h. RepairHistory q vw rd h |\<in>| repair_history_msgs s}"
proof -
  have N: "m \<in> N \<and> is_RepairHistory m \<longleftrightarrow> m |\<in>| repair_history_msgs s" for m
  proof -
    have "fset (repair_history_msgs s) = {m \<in> N. is_RepairHistory m}" using assms unfolding boxed_def by (elim conjE)
    then show ?thesis by simp
  qed
  have "history_matches vw rd m \<longleftrightarrow> (\<exists>q h. m = RepairHistory q vw rd h)" for m by (cases m) auto
  then have "{m \<in> N. history_matches vw rd m} = {RepairHistory q vw rd h |q h. RepairHistory q vw rd h |\<in>| repair_history_msgs s}"
    using N by auto (metis message.disc)+
  then have hist: "{m \<in> N. history_matches vw rd m} =
      (\<lambda>(q, h). RepairHistory q vw rd h) ` {(q, h). RepairHistory q vw rd h |\<in>| repair_history_msgs s}"
    by auto
  show ?thesis unfolding histories_in_def spec_patterns hist image_image by (auto simp: split_def image_iff)
qed

lemma prepare_listens:
  assumes "tracks E cfg M N r" and "can_repair_prepare E r = Some h"
  shows "unat h \<in> listen_repair_prepare N (abs_state (state r))"
proof -
  let ?s = "state r"
  obtain q where q: "RepairHistory q (view ?s) (round ?s) h |\<in>| repair_history_msgs ?s"
    using can_repair_prepare_source [OF tracksD(10) [OF assms(1)] assms(2)] by blast
  have M: "RepairHistory q' (view ?s) (round ?s) h' \<in> M" if "RepairHistory q' (view ?s) (round ?s) h' |\<in>| repair_history_msgs ?s" for q' h'
    using that tracksD(11) [OF assms(1)] by (auto simp: log_inv_def delivered_def)
  have "h' = h" if "RepairHistory q' (view ?s) (round ?s) h' |\<in>| repair_history_msgs ?s" for q' h'
    using single_votesD(4) [OF tracksD(2) [OF assms(1)] M [OF that] M [OF q]] .
  then have "histories_in N (unat (view ?s)) (unat (round ?s)) = {unat h}"
    unfolding histories_boxed [OF tracksD(7) [OF assms(1)]] using q by blast
  then show ?thesis
    using can_repair_prepare_phase [OF assms(2)]
    by (auto simp: listen_repair_prepare_def has_repair_history_def get_history_hash_def)
qed

lemma commit_listens:
  assumes "tracks E cfg M N r" and "can_repair_commit r = Some h"
  shows "unat h \<in> listen_repair_commit cfg N (abs_state (state r))"
  using assms(2) unfolding can_repair_commit_def listen_repair_commit_def Let_def
    tracks_counts [OF assms(1)] tracks_thresholds [OF assms(1)]
  by (auto split: if_splits)

lemma apply_listens:
  assumes "tracks E cfg M N r" and "can_apply_repair r = Some h"
  shows "unat h \<in> listen_apply_repair cfg N (abs_state (state r))"
  using assms(2) unfolding can_apply_repair_def listen_apply_repair_def Let_def
    tracks_counts [OF assms(1)] tracks_thresholds [OF assms(1)]
  by (auto split: if_splits)

lemma catchup_listens:
  assumes "tracks E cfg M N r" and "can_repair_done_catchup r = Some rd"
  shows "unat rd \<in> listen_repair_done_catchup cfg N (abs_state (state r))"
proof -
  have "fBex (repair_history_msgs (state r)) (history_matches (view (state r)) (round (state r)))"
    using assms(2) by (auto simp: can_repair_done_catchup_def Let_def split: if_splits)
  then obtain m where m: "m |\<in>| repair_history_msgs (state r)" "history_matches (view (state r)) (round (state r)) m"
    by blast
  then have "\<exists>q h. RepairHistory q (view (state r)) (round (state r)) h |\<in>| repair_history_msgs (state r)"
    by (cases m) auto
  then have "has_repair_history N (unat (view (state r))) (unat (round (state r)))"
    unfolding has_repair_history_def histories_boxed [OF tracksD(7) [OF assms(1)]] by blast
  then show ?thesis
    using assms(2) unfolding can_repair_done_catchup_def listen_repair_done_catchup_def Let_def
      tracks_counts [OF assms(1)] tracks_thresholds [OF assms(1)]
    by (auto split: if_splits)
qed

lemma view_change_listens:
  assumes "can_view_change E r ev = Inr (Some v)" and "overflow_checks E"
  shows "unat v \<in> listen_view_change {ev} (abs_state (state r))"
  using can_view_change_phase [OF assms(1)] assms(2)
  by (auto simp: listen_view_change_def add_u64_one_checked unat_succ_u64)

section \<open>Handlers\<close>

lemma abs_state_upd [simp]:
  "abs_state (phase_update (\<lambda>_. p) s) = abs_state s\<lparr>sp_phase := p\<rparr>"
  "abs_state (in_repair_update (\<lambda>_. b) s) = abs_state s\<lparr>sp_in_repair := b\<rparr>"
  "abs_state (view_update (\<lambda>_. v) s) = abs_state s\<lparr>sp_view := unat v\<rparr>"
  "abs_state (round_update (\<lambda>_. v) s) = abs_state s\<lparr>sp_round := unat v\<rparr>"
  "abs_state (start_idx_update (\<lambda>_. v) s) = abs_state s\<lparr>sp_start_idx := unat v\<rparr>"
  "abs_state (kv_size_update (\<lambda>_. v) s) = abs_state s\<lparr>sp_kv_size := unat v\<rparr>"
  "abs_state (chkpt_idx_update (\<lambda>_. v) s) = abs_state s\<lparr>sp_chkpt_idx := unat v\<rparr>"
  "abs_state (chkpt_hash_update (\<lambda>_. h) s) = abs_state s\<lparr>sp_chkpt_hash := h\<rparr>"
  "abs_state (proposed_history_hash_update (\<lambda>_. v) s) = abs_state s\<lparr>sp_proposed := unat v\<rparr>"
  "abs_state (kv_store_update (\<lambda>_. t) s) = abs_state s\<lparr>sp_kv_store := abs_log (mem_lookup t)\<rparr>"
  by (simp_all add: abs_state_def)

lemma simple_handlers:
  assumes "tracks E cfg M N r"
  shows "spec_send_sync (code_hashing E) (abs_state (state r)) (unat k) = (abs_state (state r), handle_send_sync r k)"
    "handle_form_checkpoint r k = (r', es) \<Longrightarrow>
       spec_form_checkpoint (code_hashing E) (abs_state (state r)) (unat k) = (abs_state (state r'), es)"
    "handle_enter_align r k = (r', es) \<Longrightarrow> spec_enter_align (abs_state (state r)) (unat k) = (abs_state (state r'), es)"
    "handle_conflict_proof r k = (r', es) \<Longrightarrow>
       spec_conflict_proof (code_hashing E) (abs_state (state r)) (unat k) = (abs_state (state r'), es)"
    "spec_chkpt_timeout (abs_state (state r)) (unat k) = (abs_state (state r), handle_chkpt_timeout r k)"
    "handle_timeout_proof r k = (r', es) \<Longrightarrow>
       spec_timeout_proof (code_hashing E) (abs_state (state r)) (unat k) = (abs_state (state r'), es)"
    "handle_enter_repair r k = (r', es) \<Longrightarrow>
       spec_enter_repair (code_hashing E) (abs_state (state r)) (unat k) = (abs_state (state r'), es)"
    "spec_state_request (abs_state (state r)) q = (abs_state (state r), handle_state_request r q)"
    "handle_broadcast_history r k = (r', es) \<Longrightarrow>
       spec_broadcast_history (abs_state (state r)) (unat k) = (abs_state (state r'), es)"
    "handle_repair_prepare r k = (r', es) \<Longrightarrow>
       spec_repair_prepare (abs_state (state r)) (unat k) = (abs_state (state r'), es)"
    "handle_repair_commit r k = (r', es) \<Longrightarrow>
       spec_repair_commit (abs_state (state r)) (unat k) = (abs_state (state r'), es)"
    "handle_view_change r k = (r', es) \<Longrightarrow>
       spec_view_change (code_hashing E) (abs_state (state r)) (unat k) = (abs_state (state r'), es)"
  using top_hash_abs [OF tracksD(5) [OF assms], of E]
  by (auto simp: spec_send_sync_def spec_form_checkpoint_def spec_enter_align_def spec_conflict_proof_def
      spec_chkpt_timeout_def spec_timeout_proof_def spec_enter_repair_def spec_state_request_def
      spec_broadcast_history_def spec_repair_prepare_def spec_repair_commit_def spec_view_change_def
      spec_log_msg_def handler_defs Let_def)

lemma next_entry_abs:
  assumes "log_ok s" and "k = kv_size s"
  shows "entry_at (code_hashing E) (unat k) (if unat k > 0
      then log_hash_at (code_hashing E) (sp_kv_store (abs_state s)) (unat k - 1) else zero_hash) =
    next_entry E (kv_store s) k"
proof (cases "k = 0")
  case True
  then show ?thesis by (intro kv_entry.equality) (simp_all add: code_hashing_def)
next
  case False
  then have "mem_lookup (kv_store s) (k - 1) \<noteq> None"
    using assms pred_less_u64 [of k] by (auto simp: log_ok_def log_shape_def)
  then have "digest_at E (mem_lookup (kv_store s)) (k - 1) =
      digest_of E (the (abs_log (mem_lookup (kv_store s)) (unat (k - 1))))"
    by (auto simp: digest_at_def)
  then show ?thesis
    using False pred_abs(1) [OF False]
    by (intro kv_entry.equality) (simp_all add: code_hashing_def log_hash_at_def unat_gt_0)
qed

lemma speculate_handler:
  assumes "tracks E cfg M N r" and "handle_speculate E r k = Inr (r', es)" and k: "k = kv_size (state r)"
  shows "spec_speculate (code_hashing E) (abs_state (state r)) (unat k) = (abs_state (state r'), es)"
proof -
  let ?st = "kv_store (state r)"
  let ?e = "next_entry E ?st k"
  obtain store h size' where sp: "mem_put ?st k ?e = Inr store" "mem_hash_at E store k = Inr h"
    "add_u64 (overflow_checks E) (kv_size (state r)) 1 = Inr size'"
    "r' = state_update (\<lambda>s. s\<lparr>kv_store := store, kv_size := size'\<rparr>) r"
    "es = [Broadcast (SpecReply (node_id (state r)) (round (state r)) k h)]"
    using assms(2) by (rule handle_speculate_Inr)
  have n: "k \<noteq> - 1" "unat size' = unat (kv_size (state r)) + 1"
    using sp(3) tracksD(9) [OF assms(1)] k by (simp_all add: add_u64_one_checked unat_succ_u64)
  have ok: "mem_ok ?st" "log_shape (mem_lookup ?st) k"
    using tracksD(5) [OF assms(1)] k by (simp_all add: log_ok_def)
  have t: "mem_lookup store = (mem_lookup ?st)(k \<mapsto> ?e)" "mem_hash_at E store k = entry_hash E ?e"
    using mem.log_append [OF ok n(1) sp(1), of E] by blast+
  have "entry_hash E ?e = Inr h" using t(2) sp(2) by metis
  then have h: "digest_of E ?e = h" by (simp add: digest_of_def)
  have "spec_speculate (code_hashing E) (abs_state (state r)) (unat k) =
      (abs_state (state r)\<lparr>sp_kv_size := unat size', sp_kv_store := (abs_log (mem_lookup ?st))(unat k \<mapsto> ?e)\<rparr>,
       [Broadcast (SpecReply (node_id (state r)) (round (state r)) k h)])"
    unfolding spec_speculate_def Let_def next_entry_abs [OF tracksD(5) [OF assms(1)] k] n(2)
    by (simp add: log_hash_at_def h code_hashing_def)
  moreover have "abs_state (state r') = abs_state (state r)\<lparr>sp_kv_size := unat size',
      sp_kv_store := (abs_log (mem_lookup ?st))(unat k \<mapsto> ?e)\<rparr>"
    by (simp add: sp(4) t(1) abs_log_upd del: fun_upd_apply)
  ultimately show ?thesis using sp(5) by simp
qed

lemma state_reply_handler:
  assumes "tracks E cfg M N r" and "handle_state_reply E r k = Inr (r', es)"
  shows "spec_state_reply (code_hashing E) (abs_state (state r)) (unat k) = (abs_state (state r'), es)"
proof -
  have k: "k \<noteq> - 1" using assms(2) tracksD(9) [OF assms(1)] handle_state_reply_panic [of E r k] by auto
  obtain store where st: "r' = state_update (\<lambda>s. s\<lparr>kv_store := store, phase := Speculative, chkpt_idx := k,
      chkpt_hash := unwrap_or zero_hash (entry_hash E (synthetic_entry k)), kv_size := k + 1, start_idx := k\<rparr>) r"
    "es = []" "log_shape (mem_lookup store) (k + 1)"
    "\<And>j. j \<le> k \<Longrightarrow> mem_lookup store j = Some (synthetic_entry j)"
    using handle_state_reply_Inr [OF assms(2) tracksD(8) [OF assms(1)] k] by metis
  have "abs_log (mem_lookup store) = (\<lambda>i. if i < unat (k + 1) then Some (synthetic_entry (of_nat i)) else None)"
    using st(3,4) less_succ_u64 [OF k] by (intro abs_log_range) simp_all
  then have log: "abs_log (mem_lookup store) = (\<lambda>i. if i \<le> unat k then Some (synthetic_entry (of_nat i)) else None)"
    using unat_succ_u64 [OF k] by (simp add: less_Suc_eq_le)
  show ?thesis
    using unat_succ_u64 [OF k]
    by (simp add: st(1,2) spec_state_reply_def Let_def log log_hash_at_def code_hashing_def digest_of_def cong: if_cong)
qed

lemma apply_handler:
  assumes "tracks E cfg M N r" and "handle_apply_repair E r h = Inr (r', es)" and "h \<noteq> 0"
  shows "spec_apply_repair (code_hashing E) (abs_state (state r)) (unat h) = (abs_state (state r'), es)"
proof -
  obtain store round' where st: "add_u64 (overflow_checks E) (round (state r)) 1 = Inr round'"
    "r' = state_update (\<lambda>s. s\<lparr>kv_store := store, phase := Speculative, round := round',
            start_idx := h, kv_size := h, in_repair := False, proposed_history_hash := 0\<rparr>) r"
    "es = [Broadcast (RepairDone (node_id (state r)) (view (state r)) (round (state r)) h),
           Broadcast (CommittedReply (node_id (state r)) (round (state r)) (kv_size (state r)))]"
    "log_shape (mem_lookup store) h" "\<And>j. j < h \<Longrightarrow> mem_lookup store j = Some (synthetic_entry j)"
    using handle_apply_repair_Inr [OF assms(2) tracksD(8) [OF assms(1)]] assms(3) by metis
  have "abs_log (mem_lookup store) = (\<lambda>i. if i < unat h then Some (synthetic_entry (of_nat i)) else None)"
    by (rule abs_log_range [OF st(4,5)])
  moreover have "unat round' = unat (round (state r)) + 1"
    using st(1) tracksD(9) [OF assms(1)] by (simp add: add_u64_one_checked unat_succ_u64)
  ultimately show ?thesis by (simp add: st(2,3) spec_apply_repair_def code_hashing_def cong: if_cong)
qed

lemma catchup_handler:
  assumes "tracks E cfg M N r" and "handle_repair_done_catchup E r rd = Inr (r', es)"
  shows "spec_repair_done_catchup (abs_state (state r)) (unat rd) = (abs_state (state r'), es)"
  using assms(2) tracksD(9) [OF assms(1)]
  by (auto simp: handle_repair_done_catchup_def spec_repair_done_catchup_def bind_outcome_Inr_iff
      add_u64_one_checked unat_succ_u64)

section \<open>Runs of the specification\<close>

text \<open>Messages arrive at the replica one by one, and a listener fires on those that have arrived. The
  last rule is the code's conflict proof where the specification's listener is silent:
  a Byzantine quorum of SYNCs has arrived, too few agree, but those to come may still
  complete the checkpoint.\<close>

definition listen_early_conflict :: "hashing \<Rightarrow> config \<Rightarrow> message set \<Rightarrow> spec_state \<Rightarrow> nat set" where
  "listen_early_conflict H cfg M st =
     (let log_idx = sp_kv_size st - 1;
          total = card (all_sync_senders M (sp_round st) log_idx);
          consist = card (consistent_syncs M (sp_round st) log_idx
                            (log_top_hash H (sp_kv_store st) (sp_kv_size st)))
      in if sp_phase st = Speculative \<and> sp_kv_size st > 0 \<and> \<not> sp_in_repair st \<and>
            spec_byz_quorum cfg \<le> total \<and> consist < spec_fast_quorum cfg \<and>
            \<not> conflict_proof_possible cfg total consist then {log_idx} else {})"

inductive spec_run :: "hashing \<Rightarrow> config \<Rightarrow> bool \<Rightarrow> message set \<Rightarrow> spec_state \<Rightarrow> effect list \<Rightarrow>
    message set \<Rightarrow> spec_state \<Rightarrow> bool" for H :: hashing and cfg :: config and early :: bool where
  idle: "spec_run H cfg early M st [] M st"
| receive: "spec_run H cfg early (insert m M) st es M' st' \<Longrightarrow> spec_run H cfg early M st es M' st'"
| listen: "(st1, fs) \<in> main_listener H cfg M Ev st \<Longrightarrow> spec_run H cfg early M st1 es M' st' \<Longrightarrow>
    spec_run H cfg early M st (fs @ es) M' st'"
| early_conflict: "early \<Longrightarrow> k \<in> listen_early_conflict H cfg M st \<Longrightarrow> (st1, fs) = spec_conflict_proof H st k \<Longrightarrow>
    spec_run H cfg early M st1 es M' st' \<Longrightarrow> spec_run H cfg early M st (fs @ es) M' st'"

lemma spec_run_trans:
  "spec_run H cfg early M st es M1 st1 \<Longrightarrow> spec_run H cfg early M1 st1 fs M2 st2 \<Longrightarrow>
     spec_run H cfg early M st (es @ fs) M2 st2"
proof (induction rule: spec_run.induct)
  case (listen st1 fs' M Ev st es M' st')
  then show ?case using spec_run.listen [OF listen(1)] by simp
next
  case (early_conflict k M st st1 fs' es M' st')
  then show ?case using spec_run.early_conflict [OF early_conflict(1-3)] by simp
qed (auto intro: spec_run.receive)

lemma spec_run_early: "spec_run H cfg b M st es M' st' \<Longrightarrow> (b \<Longrightarrow> c) \<Longrightarrow> spec_run H cfg c M st es M' st'"
  by (induction rule: spec_run.induct) (auto intro: spec_run.intros)

lemma spec_run_listen:
  "(st', fs) \<in> main_listener H cfg M Ev st \<Longrightarrow> spec_run H cfg early M st fs M st'"
  using spec_run.listen [OF _ spec_run.idle] by fastforce

section \<open>The replica follows the specification\<close>

definition conflicts :: "effect list \<Rightarrow> bool" where
  "conflicts es \<longleftrightarrow> (\<exists>rd k. ConflictProof rd k \<in> sent es)"

lemma conflicts_append [simp]: "conflicts (es @ fs) \<longleftrightarrow> conflicts es \<or> conflicts fs"
  unfolding conflicts_def sent_def set_append image_Un by blast

definition follows :: "env \<Rightarrow> config \<Rightarrow> message set \<Rightarrow> message set \<Rightarrow> replica \<Rightarrow> effect list \<Rightarrow> replica \<Rightarrow> bool" where
  "follows E cfg M N r es r' \<longleftrightarrow> (\<exists>N'. N' \<subseteq> M \<and> boxed N' (state r') \<and>
     spec_run (code_hashing E) cfg (conflicts es) N (abs_state (state r)) es N' (abs_state (state r')))"

definition same_msgs :: "replica_state \<Rightarrow> replica_state \<Rightarrow> bool" where
  "same_msgs s s' \<longleftrightarrow> sync_msgs s' = sync_msgs s \<and> chkpt_msgs s' = chkpt_msgs s \<and> timeout_msgs s' = timeout_msgs s \<and>
     log_msgs s' = log_msgs s \<and> repair_history_msgs s' = repair_history_msgs s \<and>
     repair_prepare_msgs s' = repair_prepare_msgs s \<and> repair_commit_msgs s' = repair_commit_msgs s \<and>
     repair_done_msgs s' = repair_done_msgs s"

lemma follows_listen:
  assumes "tracks E cfg M N r" and "same_msgs (state r) (state r')"
    and "(abs_state (state r'), es) \<in> main_listener (code_hashing E) cfg N Ev (abs_state (state r))"
  shows "follows E cfg M N r es r'"
  unfolding follows_def
  using assms(2) tracksD(6,7) [OF assms(1)] spec_run_listen [OF assms(3)]
  by (intro exI [of _ N]) (simp add: boxed_def same_msgs_def)

text \<open>A message that is only looked at arrives and is acted on.\<close>

definition unstored :: "message \<Rightarrow> bool" where
  "unstored m \<longleftrightarrow> \<not> (is_Sync m \<or> is_Checkpoint m \<or> is_TimeoutMsg m \<or> is_LogMsg m \<or> is_RepairHistory m \<or>
     is_RepairPrepare m \<or> is_RepairCommit m \<or> is_RepairDone m)"

lemma filter_insert: "{x \<in> insert m N. k x} = (if k m then insert m {x \<in> N. k x} else {x \<in> N. k x})"
  by auto

lemma boxed_unstored: "unstored m \<Longrightarrow> boxed N s \<Longrightarrow> boxed (insert m N) s"
  unfolding boxed_def unstored_def filter_insert by simp

lemma follows_listen_to:
  assumes "tracks E cfg M N r" and "m \<in> M" and "unstored m" and "same_msgs (state r) (state r')"
    and "(abs_state (state r'), es) \<in> main_listener (code_hashing E) cfg (insert m N) Ev (abs_state (state r))"
  shows "follows E cfg M N r es r'"
proof -
  have "tracks E cfg M (insert m N) r"
    using assms(1,2) boxed_unstored [OF assms(3)] by (simp add: tracks_def)
  from follows_listen [OF this assms(4,5)] obtain N' where N': "N' \<subseteq> M" "boxed N' (state r')"
    "spec_run (code_hashing E) cfg (conflicts es) (insert m N) (abs_state (state r)) es N' (abs_state (state r'))"
    unfolding follows_def by blast
  then show ?thesis unfolding follows_def using spec_run.receive [OF N'(3)] by blast
qed

lemma follows_store:
  assumes "tracks E cfg M N r" and "m \<in> M" and "boxed (insert m N) (state r')"
    and "abs_state (state r') = abs_state (state r)"
  shows "follows E cfg M N r [] r'"
  unfolding follows_def
proof (intro exI [of _ "insert m N"] conjI)
  show "insert m N \<subseteq> M" using assms(2) tracksD(6) [OF assms(1)] by simp
  show "spec_run (code_hashing E) cfg (conflicts []) N (abs_state (state r)) [] (insert m N) (abs_state (state r'))"
    unfolding assms(4) by (rule spec_run.receive [OF spec_run.idle])
qed (rule assms(3))

lemma follows_idle: "tracks E cfg M N r \<Longrightarrow> follows E cfg M N r [] r"
  unfolding follows_def using tracksD(6,7) by (intro exI [of _ N]) (simp add: spec_run.idle)

lemma boxed_stored:
  assumes "boxed N (state r)"
  shows "is_Sync m \<Longrightarrow> boxed (insert m N) (state (store_sync r m))"
    "is_Checkpoint m \<Longrightarrow> boxed (insert m N) (state (store_chkpt r m))"
    "is_TimeoutMsg m \<Longrightarrow> boxed (insert m N) (state (store_timeout r m))"
    "is_LogMsg m \<Longrightarrow> boxed (insert m N) (state (store_log r m))"
    "is_RepairHistory m \<Longrightarrow> boxed (insert m N) (state (store_history r m))"
    "is_RepairPrepare m \<Longrightarrow> boxed (insert m N) (state (store_prepare r m))"
    "is_RepairCommit m \<Longrightarrow> boxed (insert m N) (state (store_commit r m))"
    "is_RepairDone m \<Longrightarrow> boxed (insert m N) (state (store_done r m))"
  using assms unfolding boxed_def filter_insert
  by (cases m; simp add: store_defs)+

lemma abs_stored:
  "abs_state (state (store_sync r m)) = abs_state (state r)"
  "abs_state (state (store_chkpt r m)) = abs_state (state r)"
  "abs_state (state (store_timeout r m)) = abs_state (state r)"
  "abs_state (state (store_log r m)) = abs_state (state r)"
  "abs_state (state (store_history r m)) = abs_state (state r)"
  "abs_state (state (store_prepare r m)) = abs_state (state r)"
  "abs_state (state (store_commit r m)) = abs_state (state r)"
  "abs_state (state (store_done r m)) = abs_state (state r)"
  by (simp_all add: store_defs abs_state_def)

lemma store_same:
  "\<not> is_Sync m \<Longrightarrow> store_sync r m = r"
  "\<not> is_Checkpoint m \<Longrightarrow> store_chkpt r m = r"
  "\<not> is_TimeoutMsg m \<Longrightarrow> store_timeout r m = r"
  "\<not> is_LogMsg m \<Longrightarrow> store_log r m = r"
  "\<not> is_RepairHistory m \<Longrightarrow> store_history r m = r"
  "\<not> is_RepairPrepare m \<Longrightarrow> store_prepare r m = r"
  "\<not> is_RepairCommit m \<Longrightarrow> store_commit r m = r"
  "\<not> is_RepairDone m \<Longrightarrow> store_done r m = r"
  by (simp_all add: store_defs)

lemma store_follows:
  assumes "tracks E cfg M N r" and "m \<in> M"
  shows "follows E cfg M N r [] (store_sync r m)"
    "follows E cfg M N r [] (store_chkpt r m)"
    "follows E cfg M N r [] (store_timeout r m)"
    "follows E cfg M N r [] (store_log r m)"
    "follows E cfg M N r [] (store_history r m)"
    "follows E cfg M N r [] (store_prepare r m)"
    "follows E cfg M N r [] (store_commit r m)"
    "follows E cfg M N r [] (store_done r m)"
proof -
  show "follows E cfg M N r [] (store_sync r m)"
    using follows_store [OF assms boxed_stored(1) [OF tracksD(7) [OF assms(1)]] abs_stored(1)]
      follows_idle [OF assms(1)] store_same(1) by metis
  show "follows E cfg M N r [] (store_chkpt r m)"
    using follows_store [OF assms boxed_stored(2) [OF tracksD(7) [OF assms(1)]] abs_stored(2)]
      follows_idle [OF assms(1)] store_same(2) by metis
  show "follows E cfg M N r [] (store_timeout r m)"
    using follows_store [OF assms boxed_stored(3) [OF tracksD(7) [OF assms(1)]] abs_stored(3)]
      follows_idle [OF assms(1)] store_same(3) by metis
  show "follows E cfg M N r [] (store_log r m)"
    using follows_store [OF assms boxed_stored(4) [OF tracksD(7) [OF assms(1)]] abs_stored(4)]
      follows_idle [OF assms(1)] store_same(4) by metis
  show "follows E cfg M N r [] (store_history r m)"
    using follows_store [OF assms boxed_stored(5) [OF tracksD(7) [OF assms(1)]] abs_stored(5)]
      follows_idle [OF assms(1)] store_same(5) by metis
  show "follows E cfg M N r [] (store_prepare r m)"
    using follows_store [OF assms boxed_stored(6) [OF tracksD(7) [OF assms(1)]] abs_stored(6)]
      follows_idle [OF assms(1)] store_same(6) by metis
  show "follows E cfg M N r [] (store_commit r m)"
    using follows_store [OF assms boxed_stored(7) [OF tracksD(7) [OF assms(1)]] abs_stored(7)]
      follows_idle [OF assms(1)] store_same(7) by metis
  show "follows E cfg M N r [] (store_done r m)"
    using follows_store [OF assms boxed_stored(8) [OF tracksD(7) [OF assms(1)]] abs_stored(8)]
      follows_idle [OF assms(1)] store_same(8) by metis
qed

lemma main_listenerI:
  "k \<in> listen_speculate st \<Longrightarrow> spec_speculate H st k \<in> main_listener H cfg M Ev st"
  "k \<in> listen_send_sync Ev st \<Longrightarrow> spec_send_sync H st k \<in> main_listener H cfg M Ev st"
  "k \<in> listen_form_checkpoint H cfg M st \<Longrightarrow> spec_form_checkpoint H st k \<in> main_listener H cfg M Ev st"
  "k \<in> listen_enter_align cfg M st \<Longrightarrow> spec_enter_align st k \<in> main_listener H cfg M Ev st"
  "k \<in> listen_conflict_proof H cfg M st \<Longrightarrow> spec_conflict_proof H st k \<in> main_listener H cfg M Ev st"
  "k \<in> listen_chkpt_timeout Ev st \<Longrightarrow> spec_chkpt_timeout st k \<in> main_listener H cfg M Ev st"
  "k \<in> listen_timeout_proof cfg M st \<Longrightarrow> spec_timeout_proof H st k \<in> main_listener H cfg M Ev st"
  "k \<in> listen_enter_repair M st \<Longrightarrow> spec_enter_repair H st k \<in> main_listener H cfg M Ev st"
  "q \<in> listen_state_request M \<Longrightarrow> spec_state_request st q \<in> main_listener H cfg M Ev st"
  "k \<in> listen_state_reply M st \<Longrightarrow> spec_state_reply H st k \<in> main_listener H cfg M Ev st"
  "k \<in> listen_broadcast_history cfg M st \<Longrightarrow> spec_broadcast_history st k \<in> main_listener H cfg M Ev st"
  "k \<in> listen_repair_prepare M st \<Longrightarrow> spec_repair_prepare st k \<in> main_listener H cfg M Ev st"
  "k \<in> listen_repair_commit cfg M st \<Longrightarrow> spec_repair_commit st k \<in> main_listener H cfg M Ev st"
  "k \<in> listen_apply_repair cfg M st \<Longrightarrow> spec_apply_repair H st k \<in> main_listener H cfg M Ev st"
  "k \<in> listen_repair_done_catchup cfg M st \<Longrightarrow> spec_repair_done_catchup st k \<in> main_listener H cfg M Ev st"
  "k \<in> listen_view_change Ev st \<Longrightarrow> spec_view_change H st k \<in> main_listener H cfg M Ev st"
  unfolding main_listener_def by (intro UnI1 UnI2 imageI | (intro UnI1 imageI) | simp)+

lemma handlers_same_msgs:
  "handle_speculate E r k = Inr (r', es) \<Longrightarrow> same_msgs (state r) (state r')"
  "handle_form_checkpoint r k = (r', es) \<Longrightarrow> same_msgs (state r) (state r')"
  "handle_enter_align r k = (r', es) \<Longrightarrow> same_msgs (state r) (state r')"
  "handle_conflict_proof r k = (r', es) \<Longrightarrow> same_msgs (state r) (state r')"
  "handle_timeout_proof r k = (r', es) \<Longrightarrow> same_msgs (state r) (state r')"
  "handle_enter_repair r k = (r', es) \<Longrightarrow> same_msgs (state r) (state r')"
  "handle_state_reply E r k = Inr (r', es) \<Longrightarrow> same_msgs (state r) (state r')"
  "handle_broadcast_history r k = (r', es) \<Longrightarrow> same_msgs (state r) (state r')"
  "handle_repair_prepare r k = (r', es) \<Longrightarrow> same_msgs (state r) (state r')"
  "handle_repair_commit r k = (r', es) \<Longrightarrow> same_msgs (state r) (state r')"
  "handle_apply_repair E r k = Inr (r', es) \<Longrightarrow> same_msgs (state r) (state r')"
  "handle_repair_done_catchup E r k = Inr (r', es) \<Longrightarrow> same_msgs (state r) (state r')"
  "handle_view_change r k = (r', es) \<Longrightarrow> same_msgs (state r) (state r')"
  "same_msgs s s"
  by (auto simp: same_msgs_def handler_defs Let_def bind_outcome_Inr_iff)

lemma conflict_follows:
  assumes "tracks E cfg M N r" and "can_conflict_proof r = Some k" and "handle_conflict_proof r k = (r', es)"
  shows "follows E cfg M N r es r'"
proof -
  let ?H = "code_hashing E" and ?st = "abs_state (state r)"
  note step = simple_handlers(4) [OF assms(1,3)]
  have g: "unat k = sp_kv_size ?st - 1" "sp_phase ?st = Speculative" "sp_kv_size ?st > 0" "\<not> sp_in_repair ?st"
    using assms(2) by (auto simp: can_conflict_proof_def Let_def pred_abs split: if_splits)
  have k: "k = kv_size (state r) - 1" using can_conflict_proof_phase [OF assms(2)] by simp
  have c: "spec_byz_quorum cfg \<le> card (all_sync_senders N (sp_round ?st) (unat k))"
    "card (consistent_syncs N (sp_round ?st) (unat k) (log_top_hash ?H (sp_kv_store ?st) (sp_kv_size ?st))) < spec_fast_quorum cfg"
    using assms(2) unfolding can_conflict_proof_def Let_def tracks_counts [OF assms(1)] tracks_thresholds [OF assms(1)]
    by (auto simp: k split: if_splits)
  show ?thesis
  proof (cases "unat k \<in> listen_conflict_proof ?H cfg N ?st")
    case True
    from main_listenerI(5) [OF this] show ?thesis
      unfolding step by (rule follows_listen [OF assms(1) handlers_same_msgs(4) [OF assms(3)]])
  next
    case False
    then have "unat k \<in> listen_early_conflict ?H cfg N ?st"
      using g c by (auto simp: listen_conflict_proof_def listen_early_conflict_def Let_def split: if_splits)
    moreover have "conflicts es"
      using assms(3) unfolding conflicts_def sent_def handle_conflict_proof_def by fastforce
    ultimately have "spec_run ?H cfg (conflicts es) N ?st (es @ []) N (abs_state (state r'))"
      using spec_run.early_conflict [OF _ _ step [symmetric] spec_run.idle] by blast
    moreover have "boxed N (state r')"
      using handlers_same_msgs(4) [OF assms(3)] tracksD(7) [OF assms(1)] by (simp add: boxed_def same_msgs_def)
    ultimately show ?thesis unfolding follows_def using tracksD(6) [OF assms(1)] by auto
  qed
qed

lemma fires:
  assumes "tracks E cfg M N r" and "x \<in> main_listener (code_hashing E) cfg N Ev (abs_state (state r))"
    and "x = (abs_state (state r'), es)" and "same_msgs (state r) (state r')"
  shows "follows E cfg M N r es r'"
  using follows_listen [OF assms(1,4)] assms(2,3) by simp

lemma fires_on:
  assumes "tracks E cfg M N r" and "m \<in> M" and "unstored m"
    and "x \<in> main_listener (code_hashing E) cfg (insert m N) Ev (abs_state (state r))"
    and "x = (abs_state (state r'), es)" and "same_msgs (state r) (state r')"
  shows "follows E cfg M N r es r'"
  using follows_listen_to [OF assms(1-3,6)] assms(4,5) by simp

lemma transition_follows:
  assumes "transition E M r es r'" and t: "tracks E cfg M N r"
  shows "follows E cfg M N r es r'"
  using assms
proof cases
  case (speculate m k)
  have "k = kv_size (state r)" using can_speculate_phase [OF speculate(2)] by simp
  with speculate show ?thesis
    by (intro fires [OF t main_listenerI(1) [OF speculate_listens] speculate_handler [OF t]]) (auto intro: handlers_same_msgs)
next
  case (sync_threshold k)
  then show ?thesis
    by (intro fires [OF t main_listenerI(2) [OF sync_listens(1)]]) (auto simp: simple_handlers(1) [OF t] handlers_same_msgs)
next
  case (sync_timer ev k)
  then show ?thesis
    by (intro fires [OF t main_listenerI(2) [OF sync_listens(2)]]) (auto simp: simple_handlers(1) [OF t] handlers_same_msgs)
next
  case (form_checkpoint k)
  then show ?thesis
    by (intro fires [OF t main_listenerI(3) [OF checkpoint_listens [OF t]] simple_handlers(2) [OF t]])
      (auto intro: handlers_same_msgs)
next
  case (enter_align k)
  then show ?thesis
    by (intro fires [OF t main_listenerI(4) [OF align_listens [OF t]] simple_handlers(3) [OF t]])
      (auto intro: handlers_same_msgs)
next
  case (conflict_proof k)
  then show ?thesis by (rule conflict_follows [OF t])
next
  case (chkpt_timeout ev k)
  then show ?thesis
    by (intro fires [OF t main_listenerI(6) [OF timeout_listens]]) (auto simp: simple_handlers(5) [OF t] handlers_same_msgs)
next
  case (timeout_proof k)
  then show ?thesis
    by (intro fires [OF t main_listenerI(7) [OF timeout_proof_listens [OF t]] simple_handlers(6) [OF t]])
      (auto intro: handlers_same_msgs)
next
  case (enter_repair m rd)
  then have "unstored m" using can_enter_repair_phase [OF enter_repair(2)] by (cases m) (auto simp: unstored_def)
  with enter_repair show ?thesis
    by (intro fires_on [OF t _ _ main_listenerI(8) [OF enter_repair_listens] simple_handlers(7) [OF t]])
      (auto intro: handlers_same_msgs)
next
  case (state_request m q)
  then have "unstored m" by (cases m) (auto simp: unstored_def)
  with state_request show ?thesis
    by (intro fires_on [OF t _ _ main_listenerI(9) [OF state_request_listens]])
      (auto simp: simple_handlers(8) [OF t] handlers_same_msgs)
next
  case (state_reply m k)
  then have "unstored m" using can_state_reply_phase [OF state_reply(2)] by (auto simp: unstored_def)
  with state_reply show ?thesis
    by (intro fires_on [OF t _ _ main_listenerI(10) [OF state_reply_listens] state_reply_handler [OF t]])
      (auto intro: handlers_same_msgs)
next
  case (broadcast_history h)
  then show ?thesis
    by (intro fires [OF t main_listenerI(11) [OF history_listens [OF t]] simple_handlers(9) [OF t]])
      (auto intro: handlers_same_msgs)
next
  case (repair_prepare h)
  then show ?thesis
    by (intro fires [OF t main_listenerI(12) [OF prepare_listens [OF t]] simple_handlers(10) [OF t]])
      (auto intro: handlers_same_msgs)
next
  case (repair_commit h)
  then show ?thesis
    by (intro fires [OF t main_listenerI(13) [OF commit_listens [OF t]] simple_handlers(11) [OF t]])
      (auto intro: handlers_same_msgs)
next
  case (apply_repair h)
  have "h \<noteq> 0" using can_apply_repair_phase [OF apply_repair(1)] tracksD(11) [OF t] by (auto simp: log_inv_def)
  with apply_repair show ?thesis
    by (intro fires [OF t main_listenerI(14) [OF apply_listens [OF t]] apply_handler [OF t]])
      (auto intro: handlers_same_msgs)
next
  case (repair_done_catchup rd)
  then show ?thesis
    by (intro fires [OF t main_listenerI(15) [OF catchup_listens [OF t]] catchup_handler [OF t]])
      (auto intro: handlers_same_msgs)
next
  case (view_change ev v)
  then show ?thesis
    by (intro fires [OF t main_listenerI(16) [OF view_change_listens] simple_handlers(12) [OF t]])
      (auto intro: handlers_same_msgs tracksD(9) [OF t])
qed (use store_follows [OF t] in auto)

definition follows_all :: "config \<Rightarrow> env \<Rightarrow> message set \<Rightarrow> replica \<Rightarrow> replica \<Rightarrow> effect list \<Rightarrow> bool" where
  "follows_all cfg E M r r' es \<longleftrightarrow> (sound_net E M cfg \<and> single_votes M \<and> bft_config cfg \<and> log_inv M cfg r \<longrightarrow>
     log_inv M cfg r' \<and> (\<forall>N \<subseteq> M. boxed N (state r) \<longrightarrow> follows E cfg M N r es r'))"

lemma follows_all_trans:
  assumes "follows_all cfg E M r s es" and "follows_all cfg E M s t fs"
  shows "follows_all cfg E M r t (es @ fs)"
proof -
  have "log_inv M cfg t \<and> (\<forall>N \<subseteq> M. boxed N (state r) \<longrightarrow> follows E cfg M N r (es @ fs) t)"
    if r: "sound_net E M cfg \<and> single_votes M \<and> bft_config cfg \<and> log_inv M cfg r"
  proof (intro conjI allI impI)
    have s: "log_inv M cfg s" "\<And>N. N \<subseteq> M \<Longrightarrow> boxed N (state r) \<Longrightarrow> follows E cfg M N r es s"
      using assms(1) r unfolding follows_all_def by blast+
    then show "log_inv M cfg t" using assms(2) r unfolding follows_all_def by blast
    fix N assume "N \<subseteq> M" "boxed N (state r)"
    from s(2) [OF this] obtain N1 where N1: "N1 \<subseteq> M" "boxed N1 (state s)"
      "spec_run (code_hashing E) cfg (conflicts es) N (abs_state (state r)) es N1 (abs_state (state s))"
      unfolding follows_def by blast
    then have "follows E cfg M N1 s fs t" using assms(2) r s(1) unfolding follows_all_def by blast
    then obtain N2 where N2: "N2 \<subseteq> M" "boxed N2 (state t)"
      "spec_run (code_hashing E) cfg (conflicts fs) N1 (abs_state (state s)) fs N2 (abs_state (state t))"
      unfolding follows_def by blast
    have "spec_run (code_hashing E) cfg (conflicts (es @ fs)) N (abs_state (state r)) (es @ fs) N2 (abs_state (state t))"
      by (rule spec_run_trans [OF spec_run_early [OF N1(3)] spec_run_early [OF N2(3)]]) simp_all
    then show "follows E cfg M N r (es @ fs) t" unfolding follows_def using N2(1,2) by blast
  qed
  then show ?thesis unfolding follows_all_def by blast
qed

interpretation spec: transition_law E M "follows_all cfg E M" for E M cfg
proof (unfold_locales, goal_cases)
  case (1 r)
  show ?case unfolding follows_all_def
    using follows_idle by (auto simp: tracks_def)
next
  case (2 r s es t fs)
  then show ?case by (rule follows_all_trans)
next
  case (3 r es r')
  then show ?case
    unfolding follows_all_def using transition_follows [OF 3] transition_log_inv [OF _ 3] by (simp add: tracks_def)
qed

section \<open>Property\<close>

lemma abs_fresh: "abs_state (state (fresh_replica cfg node)) = spec_initialize node"
  by (simp add: abs_state_def fresh_replica_def initial_state_def spec_initialize_def abs_log_def)

lemma boxed_fresh: "boxed {} (state (fresh_replica cfg node))"
  by (simp add: boxed_def fresh_replica_def initial_state_def)


lemma repair_single_votes: "single_votes (input_msgs repair_inputs)"
  by (auto simp: single_votes_def repair_inputs_def input_msgs_def)


end
