(* ===== verification/Store_Run.thy ===== *)
theory Store_Run
  imports Rocks_Store Scenario
begin

text \<open>
  Replicas over the stores of \<open>Kv_Store\<close> and \<open>Rocks_Store\<close>: a replica's updates of its log, on either
  backend, and a replica that is restarted over a persistent log.
\<close>

section \<open>The updates of a run\<close>

text \<open>A replica reaches its store through the trait only: whatever a run does to the store is a sequence
  of puts and rebuilds, at indices a log can have.\<close>

definition updates_store :: "replica \<Rightarrow> replica \<Rightarrow> bool" where
  "updates_store r r' \<longleftrightarrow> (\<exists>ops. list_all op_in_range ops \<and>
     ops_run mem_put mem_rebuild_from_entries ops (kv_store (state r)) = Inr (kv_store (state r')))"

lemma ops_run_append: "ops_run put rebuild (xs @ ys) s =
    (case ops_run put rebuild xs s of Inl e \<Rightarrow> Inl e | Inr t \<Rightarrow> ops_run put rebuild ys t)"
  by (induction put rebuild xs s rule: ops_run.induct) (auto split: sum.splits)

lemma updates_store_same: "kv_store (state r') = kv_store (state r) \<Longrightarrow> updates_store r r'"
  unfolding updates_store_def by (intro exI [of _ "[]"]) simp

lemma updates_store_trans: "updates_store r s \<Longrightarrow> updates_store s t \<Longrightarrow> updates_store r t"
  unfolding updates_store_def
proof (elim exE conjE, goal_cases)
  case (1 xs ys)
  then show ?case by (intro exI [of _ "xs @ ys"]) (simp add: ops_run_append)
qed

lemma updates_store_put:
  assumes "mem_put (kv_store (state r)) i e = Inr (kv_store (state r'))" and "i \<noteq> - 1"
  shows "updates_store r r'"
  unfolding updates_store_def using assms by (intro exI [of _ "[PutOp i e]"]) simp

lemma updates_store_rebuild:
  assumes "mem_rebuild_from_entries (kv_store (state r)) es = Inr (kv_store (state r'))"
    and "\<And>i e. (i, e) \<in> set es \<Longrightarrow> i \<noteq> - 1"
  shows "updates_store r r'"
  unfolding updates_store_def using assms by (intro exI [of _ "[RebuildOp es]"]) auto

lemma paired: "(i, e) \<in> set (map (\<lambda>k. (k, f k)) ks) \<Longrightarrow> i \<in> set ks"
  by auto

lemma synthetic_range:
  fixes n :: u64
  assumes "(i, e) \<in> set (map (\<lambda>k. (k, synthetic_entry k)) (map of_nat [0..<unat n]))"
  shows "i \<noteq> - 1"
proof -
  have "i \<in> {k. k < n}" using paired [OF assms] unfolding set_range_u64 .
  then show ?thesis by (auto dest: less_not_max_u64)
qed

lemma transition_updates_store:
  assumes "transition E M r es r'" and "overflow_checks E"
  shows "updates_store r r'"
  using assms
proof (induction rule: transition.induct)
  case (speculate m r k r' es)
  then show ?case
    by (elim handle_speculate_Inr)
      (auto simp: add_u64_one_checked dest!: can_speculate_phase intro!: updates_store_put [of r k])
next
  case (state_reply m r k r' es)
  then have k: "k \<noteq> - 1" by (auto simp: handle_state_reply_def Let_def bind_outcome_Inr_iff add_u64_one_checked)
  let ?es = "map (\<lambda>k. (k, synthetic_entry k)) (map of_nat [0..<Suc (unat k)])"
  have range: "i \<noteq> - 1" if "(i, e) \<in> set ?es" for i e
    using that synthetic_range [of i e "k + 1"] unfolding unat_Suc_range [OF k] by blast
  have "mem_rebuild_from_entries (kv_store (state r)) ?es = Inr (kv_store (state r'))"
    using state_reply(3) by (auto simp: handle_state_reply_def Let_def bind_outcome_Inr_iff expect_Inr_iff simp del: upt_Suc)
  then show ?case by (rule updates_store_rebuild [OF _ range])
next
  case (apply_repair r h r' es)
  show ?case
  proof (cases "h = 0")
    case True
    then show ?thesis using apply_repair(2)
      by (intro updates_store_same) (auto simp: handle_apply_repair_def Let_def bind_outcome_Inr_iff)
  next
    case False
    let ?es = "map (\<lambda>k. (k, synthetic_entry k)) (map of_nat [0..<unat h])"
    have "mem_rebuild_from_entries (kv_store (state r)) ?es = Inr (kv_store (state r'))"
      using False apply_repair(2)
      by (auto simp: handle_apply_repair_def Let_def bind_outcome_Inr_iff expect_Inr_iff word_gt_0)
    then show ?thesis by (rule updates_store_rebuild [OF _ synthetic_range])
  qed
qed (intro updates_store_same; auto simp: step_simps)+

interpretation store_law: transition_law E M "\<lambda>r r' es. overflow_checks E \<longrightarrow> updates_store r r'" for E M
  by unfold_locales (auto intro: updates_store_same updates_store_trans transition_updates_store)


section \<open>A replica that is restarted\<close>

text \<open>The replica \<open>Replica::new\<close> builds over the store it opens.\<close>

definition replica_over :: "config \<Rightarrow> node_id \<Rightarrow> mem_inner \<Rightarrow> replica" where
  "replica_over cfg node store = \<lparr>state = initial_state node store, config = cfg\<rparr>"

text \<open>A replica on the fast path whose store holds a log longer than it knows.\<close>

definition stale :: "u64 \<Rightarrow> kv_entry \<Rightarrow> (u64 \<Rightarrow> kv_entry option) \<Rightarrow> replica \<Rightarrow> bool" where
  "stale n e l r \<longleftrightarrow> quiet r \<and> chkpt_idx (state r) = 0 \<and> mem_ok (kv_store (state r)) \<and>
     log_shape (mem_lookup (kv_store (state r))) n \<and> mem_lookup (kv_store (state r)) (n - 1) = Some e \<and>
     (\<forall>k. kv_size (state r) \<le> k \<longrightarrow> mem_lookup (kv_store (state r)) k = l k)"

lemma stale_top:
  assumes "stale n e l r" and "0 < n"
  shows "mem_top_hash (kv_store (state r)) = prev_hash e" and "mem_size E (kv_store (state r)) = Inr n"
proof -
  have s: "mem_ok (kv_store (state r))" "log_shape (mem_lookup (kv_store (state r))) n"
    "mem_lookup (kv_store (state r)) (n - 1) = Some e"
    using assms(1) by (simp_all add: stale_def)
  show "mem_top_hash (kv_store (state r)) = prev_hash e"
    by (rule mem.log_top [OF s(1,2) assms(2)]) (use s(3) in simp)
  show "mem_size E (kv_store (state r)) = Inr n" by (rule mem.log_size [OF s(1,2)])
qed

lemma stale_step:
  assumes "encode_total E" and "stale n e l r" and "is_Speculate m" and "unat (kv_size (state r)) + 1 < unat n"
  obtains r' h where "process_message E m r = Inr (r', [Broadcast (SpecReply (node_id (state r)) (round (state r)) (kv_size (state r)) h),
      Broadcast (Sync (node_id (state r)) (round (state r)) (kv_size (state r)) (prev_hash e) (eta_star (state r)))])"
    and "stale n e l r'" and "kv_size (state r') = kv_size (state r) + 1" and "frame r r'" and "round (state r') = round (state r)"
proof -
  let ?k = "kv_size (state r)" and ?st = "kv_store (state r)"
  let ?e = "next_entry E ?st ?k"
  have "n \<noteq> 0" using assms(4) by auto
  then have k: "?k \<noteq> - 1" "?k < n" "?k \<noteq> n - 1" "0 < n"
    using assms(4) unat_u64_less [of n] unat_u64_max unat_minus_one [of n]
    by (auto simp: word_less_nat_alt)
  have st: "mem_ok ?st" "log_shape (mem_lookup ?st) n" "mem_lookup ?st (n - 1) = Some e"
    using assms(2) by (simp_all add: stale_def)
  obtain store where store: "mem_put ?st ?k ?e = Inr store" "mem_ok store" "mem_lookup store = (mem_lookup ?st)(?k \<mapsto> ?e)"
    using mem.put_any [OF st(1)] by blast
  obtain h where h: "mem_hash_at E store ?k = Inr h"
    using mem.hash_at_Some [OF store(2), of ?k ?e E] store(3) entry_hash_total [OF assms(1), of ?e] by auto
  let ?r = "state_update (\<lambda>s. s\<lparr>kv_store := store, kv_size := ?k + 1\<rparr>) r"
  have sp: "handle_speculate E r ?k = Inr (?r, [Broadcast (SpecReply (node_id (state r)) (round (state r)) ?k h)])"
    using store(1) h by (simp add: handle_speculate_def Let_def add_u64_one_ok [OF k(1)])
  have "log_shape (mem_lookup store) n" using st(2) store(3) k(2) by (auto simp: log_shape_def)
  moreover have "mem_lookup store j = l j" if "?k + 1 \<le> j" for j
    using that assms(2) store(3) less_succ_u64 [OF k(1), of j] by (auto simp: stale_def not_less [symmetric])
  ultimately have s: "stale n e l ?r"
    using assms(2) st(3) store(2,3) k(3) by (auto simp: stale_def quiet_def)
  have pos: "?k + 1 \<noteq> 0" using k(1) by (simp add: eq_neg_iff_add_eq_0)
  have "process_message E m r = Inr (?r, [Broadcast (SpecReply (node_id (state r)) (round (state r)) ?k h)] @
       handle_send_sync ?r (kv_size (state ?r) - 1))"
    by (rule quiet_speculate [OF _ assms(3) sp]) (use pos assms(2) in \<open>auto simp: stale_def word_gt_0\<close>)
  moreover have "mem_top_hash store = prev_hash e" using stale_top(1) [OF s k(4)] by simp
  ultimately show ?thesis using that [of ?r h] s by (simp add: handle_send_sync_def frame_def)
qed

lemma stale_run:
  assumes "encode_total E"
  shows "stale n e l r \<Longrightarrow> \<forall>m \<in> set ms. is_Speculate m \<Longrightarrow> unat (kv_size (state r)) + length ms < unat n \<Longrightarrow>
    \<exists>r' es. replica_run E (map InMessage ms) r = Inr (r', es) \<and> stale n e l r' \<and>
      unat (kv_size (state r')) = unat (kv_size (state r)) + length ms \<and>
      (\<forall>j < length ms. Broadcast (Sync (node_id (state r)) (round (state r)) (kv_size (state r) + of_nat j) (prev_hash e)
         (eta_star (state r))) \<in> set es)"
proof (induction ms arbitrary: r)
  case Nil
  then show ?case by (simp add: replica_run_def)
next
  case (Cons m ms)
  obtain r1 h where r1: "process_message E m r = Inr (r1, [Broadcast (SpecReply (node_id (state r)) (round (state r)) (kv_size (state r)) h),
      Broadcast (Sync (node_id (state r)) (round (state r)) (kv_size (state r)) (prev_hash e) (eta_star (state r)))])"
    "stale n e l r1" "kv_size (state r1) = kv_size (state r) + 1" "frame r r1" "round (state r1) = round (state r)"
    using stale_step [OF assms Cons.prems(1), of m] Cons.prems(2,3) by auto
  have "kv_size (state r) \<noteq> - 1" using Cons.prems(3) unat_u64_max unat_u64_less [of n] by auto
  then have k: "unat (kv_size (state r1)) = Suc (unat (kv_size (state r)))" by (simp add: r1(3) unat_succ_u64)
  obtain r' es where r': "replica_run E (map InMessage ms) r1 = Inr (r', es)" "stale n e l r'"
    "unat (kv_size (state r')) = unat (kv_size (state r1)) + length ms"
    "\<forall>j < length ms. Broadcast (Sync (node_id (state r1)) (round (state r1)) (kv_size (state r1) + of_nat j) (prev_hash e)
       (eta_star (state r1))) \<in> set es"
    using Cons.IH [OF r1(2)] Cons.prems(2,3) k by auto
  have "Broadcast (Sync (node_id (state r)) (round (state r)) (kv_size (state r) + of_nat j) (prev_hash e)
      (eta_star (state r))) \<in> set es" if "0 < j" "j < Suc (length ms)" for j
    using r'(4) [rule_format, of "j - 1"] that r1(3-5) by (cases j) (auto simp: frame_def algebra_simps)
  then show ?case
    using r1(1) r'(1-3) k by (intro exI [of _ r']) (auto simp: replica_run_def less_Suc_eq_0_disj)
qed

section \<open>Properties\<close>





text \<open>A database that holds three entries.\<close>

lemma demo_three:
  obtains db e where "rocks_inv wire_env demo_codec demo_api demo_view db"
    and "log_shape (rocks_lookup demo_codec demo_view db) 3" and "rocks_get demo_codec demo_api db (3 - 1) = Inr (Some e)"
    and "prev_hash e = hash_fill 7"
proof -
  let ?e = "\<lparr>op_hash = 0, entry_result = [], prev_hash = hash_fill 7\<rparr>"
  let ?ops = "[PutOp 0 ?e, PutOp 1 ?e, PutOp 2 ?e]"
  have ok: "list_all op_in_range ?ops" by simp
  have none: "rocks_lookup demo_codec demo_view ([], []) = Map.empty"
    by (simp add: rocks_lookup_def demo_view_def fun_eq_iff)
  obtain db where db: "rocks_inv wire_env demo_codec demo_api demo_view db"
    "rocks_lookup demo_codec demo_view db = map_run ?ops Map.empty"
    using rocks.ops_refine [OF demo_new_inv ok] unfolding none by blast
  have "k < 3 \<longleftrightarrow> k = 0 \<or> k = 1 \<or> k = 2" for k :: u64
    by (simp add: word_less_nat_alt flip: unat_eq_iff) arith
  then have "log_shape (rocks_lookup demo_codec demo_view db) 3" by (simp add: log_shape_def db(2))
  then show ?thesis using that [OF db(1), of ?e] rocks.get_lookup [OF db(1), of 2] by (simp add: db(2))
qed


end
