(* ===== verification/Spec2Isabelle.thy ===== *)
theory Spec2Isabelle
  imports Control Store_Tests Mbt_Steps Operations_Run Spec_Violations Spec_Refinement Store_Run
begin

text \<open>
  A verification development for the Rust workspace \<^verbatim>\<open>raspen\<close>, an implementation of the Aspen
  Byzantine fault tolerant replication protocol. This theory imports all the others and holds the
  properties that span components; the properties of one component stand at the end of its
  theory.

  \<^bold>\<open>The program.\<close> A sequencer numbers client operations and broadcasts them as SPECULATE messages. A
  replica executes each at the next index of its log and answers SPEC-REPLY (fast path).
  Replicas exchange SYNCs and form checkpoints from them; a replica that finds itself diverged
  aligns by state transfer; when no checkpoint forms, replicas enter REPAIR, where the leader of
  the current view proposes a history and two rounds of votes commit it, after which all proceed
  in the next round. A replica is a synchronous state machine: one input message or timer event
  gives a new state and a list of effects. An actor feeds it from a queue and hands the effects
  to a transport.

  \<^bold>\<open>Theories and sources\<close> (paths under \<^verbatim>\<open>src/raspen/crates\<close>).
    \<^item> \<open>Prelude\<close>: words, panics (\<open>outcome\<close>), error values (\<open>result\<close>), checked addition and
      subtraction, message sets, \<open>run_steps\<close> and the locale \<open>step_contract\<close>.
    \<^item> \<open>Raspen_Types\<close>: \<^verbatim>\<open>types/src\<close>. Enums are datatypes with the source's constructors and positional
      fields, structs are records. The record \<open>env\<close> collects what the code takes from elsewhere:
      bincode and SHA-256, the build's overflow checks, the iteration order of a \<open>HashSet\<close>.
    \<^item> \<open>Kv_Store\<close>: \<^verbatim>\<open>storage/src/kv_store.rs\<close>, the trait \<open>KvStoreOps\<close> and the in-memory backend. The
      trait is the locale \<open>log_store\<close>, for indices a log can have, extended by \<open>kv_store_ops\<close> to all
      indices; \<open>MemKvStore\<close> interprets the second.
    \<^item> \<open>Rocks_Store\<close>: the RocksDB backend (module \<^verbatim>\<open>rocks\<close> of the same file), over the RocksDB and
      bincode libraries as records of functions; their documented behaviour is stated by
      \<open>rocks_laws\<close> and \<open>codec_ok\<close>, under which the backend interprets \<open>log_store\<close>.
    \<^item> \<open>Replica_State\<close>: \<open>ReplicaState\<close>, \<open>Replica::new\<close>, \<open>is_leader\<close> and the vote patterns the guards
      count.
    \<^item> \<open>Fast_Path\<close>, \<open>Checkpoint\<close>, \<open>Alignment\<close>, \<open>Repair_Entry\<close>, \<open>Repair\<close>: the files of the same
      name in \<^verbatim>\<open>consensus/src\<close>. Every \<open>can_*\<close> guard, \<open>handle_*\<close> handler and \<open>on_receive_*\<close> is a
      definition of the same name; the storing of a message is \<open>store_*\<close>. A handler takes the
      replica and returns it updated with its effects; one that can panic returns an \<open>outcome\<close>.
    \<^item> \<open>Replica\<close>: \<open>process_message\<close> (14 steps in the order of the code) and \<open>handle_event\<close>;
      \<open>replica_run\<close> iterates them over a list of inputs.
    \<^item> \<open>Node\<close>: \<^verbatim>\<open>node.rs\<close>, \<^verbatim>\<open>transport.rs\<close>, \<^verbatim>\<open>state_machine.rs\<close>. \<open>Sequencer\<close>: \<^verbatim>\<open>sequencer/src\<close>
      over tokio's broadcast channel as an argument, whose documented behaviour is \<open>broadcast_laws\<close>.
    \<^item> \<open>Transitions\<close>: the replica as a step relation, one rule per guard and handler; every run of
      the dispatcher is a sequence of transitions. The locale \<open>transition_law\<close> carries a law of
      single transitions to messages and runs.
    \<^item> \<open>Invariants\<close>: such laws: constant fields, growing message sets, delivered messages, phase
      and repair flag, rounds and views, certificates, the shape of the log, what is sent.
    \<^item> \<open>Dispatch\<close>: when the dispatcher returns, how far one message moves the round, whole runs of
      the fast path. \<open>Quorum\<close>: intersection of the thresholds of \<open>Config::for_test\<close>.
    \<^item> \<open>Control\<close>: the control automaton of the protocol (phase, round, view, proposed history and the
      votes cast), which every transition of a replica refines.
    \<^item> \<open>Agreement\<close>: the messages that back each message sent, one commit per round, and agreement
      among the correct replicas of a cluster. \<open>Scenario\<close>: concrete runs.
    \<^item> \<open>Repair_Run\<close>: progress of REPAIR, phase by phase: from the leader's history through a quorum of
      prepares and a quorum of commits to the next round, and the leader up to its proposal.
    \<^item> \<open>Cluster\<close>: replicas, transport, sequencer and adversary as one transition system over a network
      of packets; every reachable cluster consists of authenticated runs of its correct replicas.
    \<^item> \<open>Cluster_Run\<close>: schedules of a cluster, and the repair that all its correct nodes complete.
      \<open>Proof_Run\<close>: from a proof in the network into that repair, in a view that the faulty nodes have left
      alone. \<open>Sync_Run\<close>: operations in a cluster, and what their SYNCs decide. \<open>Operations_Run\<close>: how such a
      decision ends in a repair that drops them.
    \<^item> \<open>Store_Run\<close>: replicas over a persistent store: a run's updates on both backends, and a replica that
      is restarted over an old log.
    \<^item> \<open>Aspen_Spec\<close>: the replica of the Quint specification \<^verbatim>\<open>src/specs/aspen.qnt\<close>, its listeners and
      handlers under their names (\<open>listen_*\<close>, \<open>spec_*\<close> for \<^verbatim>\<open>handle_*\<close>). \<open>Spec_Guards\<close> reads the code's
      state as the specification's; \<open>Spec_Refinement\<close> shows that the code follows it.
      \<open>Spec_Invariants\<close>: the specification's safety invariants on clusters, and those that hold;
      \<open>Spec_Violations\<close>: clusters in which the others fail.
    \<^item> \<open>Store_Tests\<close>, \<open>Consensus_Tests\<close>, \<open>Mbt_Steps\<close>: the unit tests of the source files and the
      model-based tests (\<^verbatim>\<open>consensus/tests\<close>) as boolean functions, and proofs that they pass: those of
      the store from the contract, for both backends; the three-step test for every environment;
      the others by evaluation. They tie the model to what the authors assert of the code.

  \<^bold>\<open>What is shown.\<close> Safety of REPAIR (two correct replicas that finish the
  repair of one round agree on view and history, with up to \<open>f\<close> arbitrary faulty
  replicas and any network), and, under stated conditions, of checkpoints; that a cluster can be
  driven through a repair by timers and deliveries at its correct nodes, from a proof or from the
  collection of logs, as long as no correct node has voted and views and rounds are not used up, and
  what it does with operations when nothing goes wrong; the evidence behind every message;
  invariants of every reachable state; the effect of each handler; a complete account of fast-path
  runs; when the code panics; that the store refines a map and both backends answer alike, also
  under a replica, that a run refines the control automaton and casts its votes in order, that it
  refines the replica of the Quint specification up to the guard of the conflict proof, which of the
  specification's invariants clusters keep, that the actor executes the run, and that the sequencer
  numbers without gaps and its subscribers miss nothing while they keep up. Some theorems record
  where the code falls short of its comments: one sender can fill a quorum of SYNCs or REPAIR-DONEs,
  the leader of a history is not checked, a healthy replica aligns, a conflict proof fires while a
  checkpoint is still possible, the history 0 leaves a stale store, a failed rebuild of the database
  loses the log, the last index is mishandled, a restarted replica forgets its log but sends the
  hash of the old one, agreeing SYNCs lead to REPAIR where \<open>p < f\<close>, one faulty node can
  block a repair forever, alignment makes the checkpoints of healthy nodes disagree, and a repair
  replaces the logs by as many synthetic entries as the leader counted LOGs, so that operations all
  correct nodes have executed are lost without a fault.

  \<^bold>\<open>Modelling choices.\<close> \<open>u64\<close> and \<open>usize\<close> are 64-bit words; \<open>+ 1\<close> panics on overflow when \<open>env\<close> says
  that overflow checks are on (cargo's dev and test profiles) and wraps otherwise (release).
  Subtractions of the handlers are guarded by the code and are written as word subtraction. A
  \<open>HashSet<Message>\<close> is a finite set; where the code's result depends on its iteration order
  (\<open>find_map\<close>), the order is the argument \<open>iter_msgs\<close>, of which only \<open>iter_ok\<close> is assumed. Inputs are
  arbitrary lists, so the network may lose, repeat, reorder and forge messages except where a
  theorem assumes \<open>authenticated\<close>. No fuel is used: every loop of the code is bounded by its
  input.

  \<^bold>\<open>Not modelled.\<close> The insides of RocksDB and bincode (a database that fails is covered only where a
  call returns an error before it writes); tokio's channels and threads, of which only the documented
  behaviour of the broadcast channel for receivers that keep up is used;
  poisoning of the store's lock; running out of memory (a STATE-REPLY or history with a huge index
  makes the code build that many entries); \<open>Debug\<close> output and logging; the test that asserts
  nothing the model could violate; of the Quint specification, the Choreo framework, the system
  built on it (\<open>Cluster\<close> has its own network and adversary) and the simulation scenarios.
\<close>

section \<open>Repair agreement\<close>



text \<open>C12: One commit per round. In a build with overflow checks a replica, run from its initial
  state on any inputs, never sends REPAIR-COMMIT for two views or two histories of one round.\<close>

theorem one_commit_per_round:
  assumes "overflow_checks E"
    and "replica_run E inputs (fresh_replica cfg node) = Inr (r', es)"
    and "RepairCommit p v rd h \<in> sent es" and "RepairCommit q v' rd h' \<in> sent es"
  shows "p = node \<and> q = node \<and> v = v' \<and> h = h'"
proof -
  have "p = node" "q = node"
    using run_sends_own(1) [OF assms(2,3)] run_sends_own(1) [OF assms(2,4)] by simp_all
  then show ?thesis
    using run_commits_once [OF assms(2,1), of v rd h v' h'] assms(3,4) by (auto simp: commits_def)
qed

lemma one_commit_per_round_witness:
  "RepairCommit ''r0'' 0 0 5 \<in> sent (repair_effects ''r0'') \<and> ''r0'' = ''r0'' \<and> (5 :: u64) = 5"
proof -
  have d: "RepairCommit ''r0'' 0 0 5 \<in> sent (repair_effects ''r0'')"
    by (simp add: repair_effects_def sent_def)
  show ?thesis using d one_commit_per_round [OF _ repair_run [OF six_members(1)] d d] by simp
qed

text \<open>C13: Evidence. Every message a replica sends in a run from its initial state is backed by
  messages it received: a CHECKPOINT by a fast quorum of agreeing SYNCs, a conflict proof by a
  Byzantine quorum of SYNCs, a timeout proof by TIMEOUTs of \<open>f + 1\<close> nodes, a history by the logs
  of a Byzantine quorum of nodes (and its sender is the leader of the view), a prepare by a
  history, a commit by the prepares and a REPAIR-DONE by the commits of a Byzantine quorum of
  nodes for the same view, round and history.\<close>

theorem sent_with_evidence:
  assumes "iter_ok E" and "replica_run E inputs (fresh_replica cfg node) = Inr (r', es)"
  shows "\<forall>m \<in> sent es. evidence (input_msgs inputs) cfg m"
  using run_evidence [OF assms(2,1)] by blast

lemma sent_with_evidence_witness:
  "evidence (input_msgs repair_inputs) six_config (RepairDone ''r0'' 0 0 5)"
  using sent_with_evidence [OF _ repair_run [OF six_members(1)]] by (simp add: repair_effects_def sent_def)

text \<open>C24: Phase and repair flag. In every state a replica reaches from its initial state,
  \<open>in_repair\<close> is set exactly in the three repair phases, and every message set holds only
  delivered messages of its kind.\<close>

theorem run_state_wf:
  assumes "replica_run E inputs (fresh_replica cfg node) = Inr (r', es)"
  shows "(in_repair (state r') \<longleftrightarrow> phase (state r') \<in> {CollectingLogs, PreparePhase, CommitPhase}) \<and>
    delivered (input_msgs inputs) (state r')"
  using phase.run_law [OF assms subset_refl] deliver.run_law [OF assms subset_refl]
    delivered_fresh initial_state_ok(1)
  by (auto simp: phase_ok_def fresh_replica_def initial_state_def)

lemma run_state_wf_witness:
  "in_repair (state (run_final repair_inputs ''r0'')) \<longleftrightarrow>
     phase (state (run_final repair_inputs ''r0'')) \<in> {CollectingLogs, PreparePhase, CommitPhase}"
  using run_state_wf [OF repair_run [OF six_members(1)]] by simp

text \<open>C15: Certificates. In every reachable state in the commit phase the replica holds
  REPAIR-PREPAREs from a Byzantine quorum of different nodes for its view, its round and the
  history it committed to.\<close>

theorem run_commit_certificate:
  assumes "replica_run E inputs (fresh_replica cfg node) = Inr (r', es)"
    and "phase (state r') = CommitPhase"
  shows "unat (byz_quorum cfg) \<le> card {s. RepairPrepare s (view (state r')) (round (state r'))
           (proposed_history_hash (state r')) |\<in>| repair_prepare_msgs (state r')}"
proof -
  have "prepare_certificate r'" and cfg: "config r' = cfg"
    using cert.run_law [OF assms(1) subset_refl] frame.run_law [OF assms(1) subset_refl]
      initial_state_ok(4) assms(2)
    by (simp_all add: cert_ok_def frame_def fresh_replica_def)
  moreover have "senders (prepare_matches v rd h) S = {s. RepairPrepare s v rd h |\<in>| S}" for v rd h S
    by (auto simp: senders_Collect prepare_matches_iff)
  ultimately show ?thesis by (simp add: prepare_certificate_def)
qed

lemma run_commit_certificate_witness:
  "5 \<le> card {s. RepairPrepare s (view (state (run_final commit_inputs ''r1'')))
        (round (state (run_final commit_inputs ''r1'')))
        (proposed_history_hash (state (run_final commit_inputs ''r1'')))
      |\<in>| repair_prepare_msgs (state (run_final commit_inputs ''r1''))}"
  using run_commit_certificate [OF commit_run] by simp

text \<open>C16: The log. In a build with overflow checks, with LOG messages from configured nodes only and
  no REPAIR-HISTORY of hash 0 delivered, the store of every reachable state is an ordered map
  that holds exactly the indices below \<open>kv_size\<close>, and its \<open>size()\<close> is \<open>kv_size\<close>.\<close>

theorem run_log_wf:
  assumes "sound_net E (input_msgs inputs) cfg"
    and "replica_run E inputs (fresh_replica cfg node) = Inr (r', es)"
  shows "mem_ok (kv_store (state r')) \<and>
    (\<forall>k. mem_lookup (kv_store (state r')) k \<noteq> None \<longleftrightarrow> k < kv_size (state r')) \<and>
    mem_size E (kv_store (state r')) = Inr (kv_size (state r'))"
proof -
  have "log_inv (input_msgs inputs) cfg (fresh_replica cfg node)"
    using delivered_fresh initial_state_ok(2)
    by (simp add: log_inv_def) (simp add: fresh_replica_def initial_state_def log_ok_def)
  then have "log_ok (state r')"
    using log.run_law [OF assms(2) subset_refl] assms(1) by (simp add: log_inv_def)
  then show ?thesis
    using mem.log_size by (auto simp: log_ok_def log_shape_def)
qed

lemma run_log_wf_witness:
  "mem_size demo_env (kv_store (state (run_final repair_inputs ''r0''))) =
     Inr (kv_size (state (run_final repair_inputs ''r0'')))"
  using run_log_wf [OF repair_net_sound repair_run [OF six_members(1)]] by blast

text \<open>What a replica sends. Every message a replica sends in a run from its initial state names
  the replica itself as its sender or no sender at all, is no sequencer message, and, in a build
  with overflow checks, carries a round the replica had reached.\<close>

theorem run_sends_authentic:
  assumes "replica_run E inputs (fresh_replica cfg node) = Inr (r', es)" and "m \<in> sent es"
  shows "sender_of m \<in> {None, Some node} \<and> \<not> is_Speculate m \<and>
    (overflow_checks E \<longrightarrow> (\<forall>rd. round_of m = Some rd \<longrightarrow> rd \<le> round (state r')))"
  using run_sends_own [OF assms] by blast

lemma run_sends_authentic_witness:
  "sender_of (RepairDone ''r0'' 0 0 5) \<in> {None, Some ''r0''}"
  using run_sends_authentic [OF repair_run [OF six_members(1)], of "RepairDone ''r0'' 0 0 5"]
  by (simp add: repair_effects_def sent_def)

text \<open>C27: Rounds and views. In a build with overflow checks rounds and views never decrease along a
  run, and no run changes the configuration, the node's name, \<open>eta_star\<close> or \<open>ack_msgs\<close>, or
  removes a stored message.\<close>

theorem run_monotone:
  assumes "replica_run E inputs r = Inr (r', es)"
  shows "(overflow_checks E \<longrightarrow> round (state r) \<le> round (state r') \<and> view (state r) \<le> view (state r')) \<and>
    config r' = config r \<and> node_id (state r') = node_id (state r) \<and>
    eta_star (state r') = eta_star (state r) \<and> ack_msgs (state r') = ack_msgs (state r) \<and>
    grows (state r) (state r')"
  using advance.run_law [OF assms subset_refl] frame.run_law [OF assms subset_refl]
    grow.run_law [OF assms subset_refl]
  by (simp add: advances_def frame_def)

lemma run_monotone_witness:
  "round (state (fresh_replica six_config ''r0'')) \<le> round (state (run_final repair_inputs ''r0'')) \<and>
   grows (state (fresh_replica six_config ''r0'')) (state (run_final repair_inputs ''r0''))"
  using run_monotone [OF repair_run [OF six_members(1)]] by simp

section \<open>The control automaton\<close>

text \<open>C17: Refinement of the control automaton. Every run of a replica from its initial state is, in
  its phase, round, view and proposed history and in the repair votes it sends, a run of the
  control automaton from its initial state.\<close>

theorem run_refines_control:
  assumes "replica_run E inputs (fresh_replica cfg node) = Inr (r', es)"
  shows "control_run (overflow_checks E) control_new (votes_of es)
    \<lparr>c_phase = phase (state r'), c_round = round (state r'), c_view = view (state r'),
     c_history = proposed_history_hash (state r')\<rparr>"
  using run_control [OF assms] by (simp add: control_of_def)

lemma run_refines_control_witness:
  "control_run True control_new (votes_of (repair_effects ''r0''))
     (control_of (run_final repair_inputs ''r0''))"
  using run_refines_control [OF repair_run [OF six_members(1)]] by (simp add: control_of_def)


text \<open>C18: The order of repair votes. Whatever messages and timers a replica sees, it sends a
  REPAIR-DONE only after its own REPAIR-COMMIT for the same view, round and history, that only
  after a REPAIR-PREPARE or, as leader, REPAIR-HISTORY for them, and these only after its LOG for
  the view and round.\<close>

theorem votes_in_order:
  assumes "replica_run E inputs (fresh_replica cfg node) = Inr (r', es)"
    and "votes_of es = before @ x # after"
  shows "case x of VLog v rd \<Rightarrow> True
    | VHistory v rd h \<Rightarrow> VLog v rd \<in> set before
    | VPrepare v rd h \<Rightarrow> VLog v rd \<in> set before
    | VCommit v rd h \<Rightarrow> VPrepare v rd h \<in> set before \<or> VHistory v rd h \<in> set before
    | VDone v rd h \<Rightarrow> VCommit v rd h \<in> set before"
  using in_order_split [of "{}" before x after] control_run_votes [OF run_control [OF assms(1)] votes_ok_new] assms(2)
  by (cases x) auto

lemma votes_in_order_witness:
  "VPrepare 0 0 5 \<in> set (butlast (butlast (votes_of (repair_effects ''r1'')))) \<or>
   VHistory 0 0 5 \<in> set (butlast (butlast (votes_of (repair_effects ''r1''))))"
proof -
  have "votes_of (repair_effects ''r1'') =
      butlast (butlast (votes_of (repair_effects ''r1''))) @ VCommit 0 0 5 # [VDone 0 0 5]"
    by code_simp
  from votes_in_order [OF repair_run [OF six_members(2)] this] show ?thesis by simp
qed


text \<open>No round without repair. A replica that has reached a round has sent its LOG for every round
  below it: it leaves a round only by way of REPAIR.\<close>

theorem rounds_announced:
  assumes "replica_run E inputs (fresh_replica cfg node) = Inr (r', es)" and "rd < round (state r')"
  shows "\<exists>v h. LogMsg node v rd h \<in> sent es"
proof -
  have "rounds_ok {} control_new" by (simp add: rounds_ok_def control_new_def)
  from control_run_rounds [OF run_control [OF assms(1)] votes_ok_new this] assms(2)
  obtain v where "VLog v rd \<in> set (votes_of es)" by (auto simp: rounds_ok_def control_of_def)
  then obtain e where "e \<in> set es" and "VLog v rd \<in> set (votes_in (effect_message e))"
    by (auto simp: votes_of_def)
  then obtain s h where "LogMsg s v rd h \<in> effect_message ` set es"
    unfolding VLog_in by (metis image_eqI)
  moreover from this have "s = node"
    using run_sends_own(1) [OF assms(1), of "LogMsg s v rd h"] by (simp add: sent_def)
  ultimately show ?thesis by (auto simp: sent_def)
qed

lemma rounds_announced_witness:
  "\<exists>v h. LogMsg ''r0'' v 0 h \<in> sent (repair_effects ''r0'')"
proof -
  have "0 < round (state (run_final repair_inputs ''r0''))" by code_simp
  from rounds_announced [OF repair_run [OF six_members(1)] this] show ?thesis .
qed

section \<open>One message, one event\<close>

text \<open>One message moves the round by at most one: when \<open>process_message\<close> returns, the round is
  the round before or its successor, although both the commit step and the catch-up step may
  advance it.\<close>

theorem message_moves_round_once:
  assumes "process_message E m r = Inr (r', es)"
  shows "round (state r') \<in> {round (state r), round (state r) + 1}"
  using process_message_round_step [OF assms] by simp

lemma message_moves_round_once_witness:
  "\<exists>r' es. process_message demo_env speculate_msg (fresh_replica six_config ''r0'') = Inr (r', es) \<and>
     round (state r') \<in> {0, 1}"
proof -
  obtain r' es where run:
    "process_message demo_env speculate_msg (fresh_replica six_config ''r0'') = Inr (r', es)"
    using process_message_total [of demo_env "fresh_replica six_config ''r0''" speculate_msg]
    by (auto simp: in_range_def fresh_replica_def initial_state_def speculate_msg_def)
  from message_moves_round_once [OF run] run show ?thesis by simp
qed

text \<open>C28: \<open>process_message\<close> returns: on a store that is an ordered map, with an encoder that does
  not fail, no message makes it panic unless the round is \<open>u64::MAX\<close>, a SPECULATE meets a full
  log, or a STATE-REPLY carries the index \<open>u64::MAX\<close>.\<close>

theorem process_message_returns:
  assumes "encode_total E" and "mem_ok (kv_store (state r))" and "round (state r) \<noteq> - 1"
    and "is_Speculate m \<Longrightarrow> phase (state r) = Speculative \<Longrightarrow> kv_size (state r) \<noteq> - 1"
    and "\<And>q k h. m = StateReply q k h \<Longrightarrow> k \<noteq> - 1"
  shows "\<exists>r' es. process_message E m r = Inr (r', es)"
  using process_message_total [OF assms(1,2), of m] assms(3-5)
  by (auto simp: in_range_def split: message.splits)

lemma process_message_returns_witness:
  "\<exists>r' es. process_message demo_env speculate_msg (fresh_replica six_config ''r0'') = Inr (r', es)"
  by (rule process_message_returns)
     (simp_all add: fresh_replica_def initial_state_def speculate_msg_def)

text \<open>C34: \<open>handle_event\<close> panics in one case only: a view timeout while collecting logs at view
  \<open>u64::MAX\<close>, in a build with overflow checks.\<close>

theorem handle_event_panics_iff:
  "(\<exists>e. handle_event E ev r = Inl e) \<longleftrightarrow> overflow_checks E \<and> ev = RepairViewTimeout \<and>
     phase (state r) = CollectingLogs \<and> view (state r) = - 1"
  by (auto simp: handle_event_panic)

text \<open>C19: The fast path. A new replica that receives \<open>n\<close> SPECULATEs and nothing else stays
  speculative with a log of \<open>n\<close> entries, entry \<open>k\<close> carrying operation \<open>k\<close> and the digest of entry
  \<open>k - 1\<close>; it sends exactly one SPEC-REPLY and one SYNC per operation, in order, the reply with
  the digest of the new entry and the SYNC with the digest of the entry before it.\<close>

theorem fast_path_run:
  assumes "encode_total E" and "fast_quorum cfg \<noteq> 0" and "byz_quorum cfg \<noteq> 0" and "f_plus_1 cfg \<noteq> 0"
    and "\<forall>m \<in> set ms. is_Speculate m" and "length ms < 2 ^ 64"
  shows "\<exists>r' L. replica_run E (map InMessage ms) (fresh_replica cfg node) = Inr (r',
      concat (map (\<lambda>k. [Broadcast (SpecReply node 0 k (digest_at E L k)),
                        Broadcast (Sync node 0 k (if k = 0 then zero_hash else digest_at E L (k - 1)) 0)])
        (map of_nat [0..<length ms]))) \<and>
    L = mem_lookup (kv_store (state r')) \<and> phase (state r') = Speculative \<and>
    kv_size (state r') = of_nat (length ms) \<and> chained E L (of_nat (length ms)) \<and>
    (\<forall>k < of_nat (length ms). \<exists>e. L k = Some e \<and> op_hash e = k)"
proof -
  let ?r = "fresh_replica cfg node"
  have f: "fast_log E ?r" by (rule fast_log_fresh [OF assms(2-4)])
  have z: "kv_size (state ?r) = 0" "fast_effects E ?r = (\<lambda>L k.
      [Broadcast (SpecReply node 0 k (digest_at E L k)),
       Broadcast (Sync node 0 k (if k = 0 then zero_hash else digest_at E L (k - 1)) 0)])"
    by (auto simp: fresh_replica_def initial_state_def fast_effects_def fun_eq_iff)
  obtain r' where r': "replica_run E (map InMessage ms) ?r = Inr (r',
      concat (map (fast_effects E ?r (mem_lookup (kv_store (state r')))) (map of_nat [0..<length ms])))"
    "fast_log E r'" "unat (kv_size (state r')) = length ms"
    using fast_log_run [OF assms(1) f assms(5)] assms(6) z(1) by auto
  have "kv_size (state r') = of_nat (length ms)" by (simp flip: r'(3))
  with r'(1,2) show ?thesis
    unfolding z(2) by (intro exI [of _ r']) (simp add: fast_log_def quiet_def)
qed

lemma fast_path_run_witness:
  "\<exists>r'. kv_size (state r') = 2 \<and>
     (\<exists>es. replica_run demo_env (map InMessage [speculate_msg, speculate_msg])
        (fresh_replica six_config ''r0'') = Inr (r', es))"
  using fast_path_run [of demo_env six_config "[speculate_msg, speculate_msg]" "''r0''"]
  by (auto simp: speculate_msg_def)

section \<open>Checkpoints\<close>

text \<open>C11: Agreement on checkpoints. With at most \<open>f\<close> faulty replicas, two correct replicas that
  announce a checkpoint for the same round and index announce the same hash, provided every
  SYNC delivered carries the \<open>eta_star\<close> that replicas of this code send (0) and no correct
  replica has sent two SYNCs with different hashes for that round and index.\<close>

theorem checkpoint_agreement:
  assumes "bft_config cfg" and "finite F" and "card F \<le> unat (cfg_f cfg)" and "iter_ok E"
    and "correct_runs E cfg F inp fin out" and "authenticated cfg F inp out"
    and "\<And>n s rd k h e. n \<in> config_nodes cfg - F \<Longrightarrow> Sync s rd k h e \<in> input_msgs (inp n) \<Longrightarrow> e = 0"
    and "\<And>s h h'. s \<in> config_nodes cfg - F \<Longrightarrow> Sync s rd k h 0 \<in> sent (out s) \<Longrightarrow>
      Sync s rd k h' 0 \<in> sent (out s) \<Longrightarrow> h = h'"
    and "a \<in> config_nodes cfg - F" and "Checkpoint qa rd k ha \<in> sent (out a)"
    and "b \<in> config_nodes cfg - F" and "Checkpoint qb rd k hb \<in> sent (out b)"
  shows "ha = hb"
  by (rule checkpoints_agree [OF assms])

lemma checkpoint_agreement_witness:
  "\<exists>h. Checkpoint ''r0'' 0 0 zero_hash \<in> sent (checkpoint_effects ''r0'') \<and>
     Checkpoint ''r1'' 0 0 h \<in> sent (checkpoint_effects ''r1'') \<and> zero_hash = h"
proof -
  have c: "Checkpoint s 0 0 zero_hash \<in> sent (checkpoint_effects s)" for s
    by (simp add: checkpoint_effects_def sent_def)
  have n: "''r0'' \<in> config_nodes six_config - {''r5''}" "''r1'' \<in> config_nodes six_config - {''r5''}"
    using six_members by (simp_all add: six_nodes_set)
  have one: "h = zero_hash" if "Sync s 0 0 h 0 \<in> sent (checkpoint_effects t)" for s t h
    using that by (auto simp: checkpoint_effects_def sent_def)
  have "zero_hash = zero_hash"
  proof (rule checkpoint_agreement [OF six_config_bft _ _ _ checkpoint_runs checkpoint_authenticated
      _ _ n(1) c n(2) c])
    show "e = 0" if "Sync s rd k h e \<in> input_msgs checkpoint_inputs" for s rd k h e
      using that by (auto simp: input_msgs_def checkpoint_inputs_def speculate_msg_def)
    show "g = g'" if "Sync s 0 0 g 0 \<in> sent (checkpoint_effects s)"
      "Sync s 0 0 g' 0 \<in> sent (checkpoint_effects s)" for s g g'
      using one [OF that(1)] one [OF that(2)] by simp
  qed (simp_all add: six_config_def)
  with c show ?thesis by blast
qed

text \<open>A conflict depends on the order of SYNCs. On the same messages, a replica forms the
  checkpoint if its fifth agreeing SYNC arrives before a disagreeing one, and otherwise proves a
  conflict and enters REPAIR, although the agreeing SYNC that completes the checkpoint is still
  on its way.\<close>

theorem conflict_depends_on_order:
  "set early_conflict_inputs = set late_conflict_inputs \<and>
   returns (demo_run early_conflict_inputs ''r0'') \<and> returns (demo_run late_conflict_inputs ''r0'') \<and>
   phase (state (run_final early_conflict_inputs ''r0'')) = CollectingLogs \<and>
   ConflictProof 0 0 \<in> sent (run_effects early_conflict_inputs ''r0'') \<and>
   phase (state (run_final late_conflict_inputs ''r0'')) = Speculative \<and>
   Checkpoint ''r0'' 0 0 zero_hash \<in> sent (run_effects late_conflict_inputs ''r0'')"
  by (intro conjI; code_simp)

text \<open>A correct replica may prepare two histories. A replica that receives two REPAIR-HISTORYs
  for one view and round, one of them not from the leader, sends REPAIR-PREPAREs for both.\<close>

theorem prepares_two_histories:
  "returns (demo_run two_history_inputs ''r1'') \<and>
   RepairPrepare ''r1'' 0 0 5 \<in> sent (run_effects two_history_inputs ''r1'') \<and>
   RepairPrepare ''r1'' 0 0 2 \<in> sent (run_effects two_history_inputs ''r1'')"
  by (intro conjI; code_simp)

text \<open>A healthy replica aligns. A replica that has formed the checkpoint at its top index enters
  alignment when two other replicas announce the same checkpoint, with its own hash; a state
  reply then overwrites its log with an entry that differs from the one it executed, and the
  next message makes it align again.\<close>

theorem healthy_replica_aligns:
  "returns (demo_run align_inputs ''r0'') \<and>
   Checkpoint ''r0'' 0 1 (digest_of demo_env first_entry) \<in> sent (run_effects align_inputs ''r0'') \<and>
   phase (state (run_final align_inputs ''r0'')) = Aligning \<and>
   returns (demo_run (align_inputs @ [InMessage (StateReply ''r1'' 1 zero_hash)]) ''r0'') \<and>
   phase (state (run_final (align_inputs @ [InMessage (StateReply ''r1'' 1 zero_hash)]) ''r0''))
     = Speculative \<and>
   mem_lookup (kv_store (state (run_final (align_inputs @ [InMessage (StateReply ''r1'' 1 zero_hash)]) ''r0''))) 1
     \<noteq> mem_lookup (kv_store (state (run_final align_inputs ''r0''))) 1 \<and>
   phase (state (run_final (align_inputs @ [InMessage (StateReply ''r1'' 1 zero_hash), InMessage speculate_msg]) ''r0''))
     = Aligning"
  by (intro conjI; code_simp)

end
